(* ===== verification/Prelude.thy ===== *)
theory Prelude
  imports Main "HOL-Library.Word" "HOL-Library.Monad_Syntax"
begin

text \<open>
  Shared vocabulary of the development.

  \<^item> A C function that can leave defined behaviour (an access outside an object, a call of
    \<open>crash()\<close>, a loop that runs past its bound) is modelled with the option type: the value
    \<open>None\<close> is that outcome and nothing else. Ordinary error returns of the C code (NULL, -1,
    an errno) are ordinary values of the model.
  \<^item> \<open>uintptr_t\<close> and \<open>size_t\<close> arithmetic is written out modulo \<open>2 ^ 64\<close> on nat (\<open>wadd\<close>,
    \<open>wsub\<close>) where the code computes with whole addresses, and kept as 64 word where it
    works on the tag bits of a pointer.
  \<^item> The generic list, interval and word lemmas that several components use are collected
    here.
\<close>

unbundle bit_operations_syntax

named_theorems heap_simps
named_theorems vec_simps
named_theorems sched_simps
named_theorems rsrc_simps

type_synonym addr = nat
type_synonym ptr = "64 word"
type_synonym u32 = "32 word"
type_synonym u64 = "64 word"

subsection \<open>Machine arithmetic on nat\<close>

definition wadd :: "nat \<Rightarrow> nat \<Rightarrow> nat" where
  "wadd a b = (a + b) mod 2 ^ 64"

definition wsub :: "nat \<Rightarrow> nat \<Rightarrow> nat" where
  "wsub a b = (a + (2 ^ 64 - b mod 2 ^ 64)) mod 2 ^ 64"

lemma wadd_exact: "a + b < 2 ^ 64 \<Longrightarrow> wadd a b = a + b"
  by (simp add: wadd_def)

lemma wadd_bound: "wadd a b < 2 ^ 64"
  by (simp add: wadd_def)

lemma wsub_exact: "b \<le> a \<Longrightarrow> a < 2 ^ 64 \<Longrightarrow> wsub a b = a - b"
  by (simp add: wsub_def mod_if)

subsection \<open>Lists\<close>

lemma nth_take_drop_split:
  "k < length xs \<Longrightarrow> xs = take k xs @ xs ! k # drop (Suc k) xs"
  by (simp add: id_take_nth_drop)

lemma take_drop_Suc_conv:
  "k < length xs \<Longrightarrow> drop k xs = xs ! k # drop (Suc k) xs"
  by (simp add: Cons_nth_drop_Suc)

lemma ball_take_nth: "\<forall>i < length xs. i < k \<longrightarrow> P (xs ! i) \<Longrightarrow> \<forall>e \<in> set (take k xs). P e"
  by (auto simp: in_set_conv_nth)

lemma last_disjoint: "xs \<noteq> [] \<Longrightarrow> set xs \<inter> A = {} \<Longrightarrow> last xs \<notin> A"
  by (metis disjoint_iff last_in_set)

lemma sorted_le_last: "sorted_wrt (<) xs \<Longrightarrow> x \<in> set xs \<Longrightarrow> x \<le> last (xs :: nat list)"
proof (induction xs)
  case (Cons a xs)
  then show ?case using last_in_set[of xs] by (cases "xs = []") (auto simp: less_imp_le)
qed simp

subsection \<open>Bits and blocks\<close>

lemma and_high_mask:
  fixes x :: nat
  assumes x: "x < 2 ^ (a + k)"
  shows "x AND push_bit a (mask k) = x div 2 ^ a * 2 ^ a"
proof -
  have b: "n < a + k" if "bit x n" for n
    using that bit_take_bit_iff[of "a + k" x n] take_bit_nat_eq_self[OF x] by simp
  have "x AND push_bit a (mask k) = push_bit a (drop_bit a x)"
    by (rule bit_eqI) (auto simp: bit_and_iff bit_push_bit_iff bit_mask_iff bit_drop_bit_eq dest: b)
  then show ?thesis by (simp add: push_bit_eq_mult drop_bit_eq_div)
qed

text \<open>The addresses of a block of \<open>n\<close> bytes at \<open>a\<close>.\<close>

definition block :: "addr \<Rightarrow> nat \<Rightarrow> addr set" where
  "block a n = {a..<a + n}"

section \<open>Error numbers\<close>

definition EOK :: nat where "EOK = 0"
definition ENOMEM :: nat where "ENOMEM = 12"
definition EINVAL :: nat where "EINVAL = 22"
definition ENOTSUP :: nat where "ENOTSUP = 48"

end
