(* ===== verification/Heap.thy ===== *)
theory Heap
  imports Prelude
begin

text \<open>
  The nanokernel heap, \<open>kernel/nano/nano_alloc.c\<close>: three address-ordered free lists (kernel,
  kernel critical, process manager), first fit with preference for an exact fit, splitting,
  coalescing, in-place growth and shrinking, and growth of the heap from the memory manager.

  A \<open>struct free_entry\<close> lives in the memory it describes, so a free list is the list of the
  (address, size) pairs of its entries in link order. A link pointer (\<open>pp\<close>, \<open>fit\<close>) is the
  number of entries before it; \<open>prev\<close> is the entry before \<open>pp\<close> when its flag is set. The
  bytes of the heap are the field \<open>hmem\<close>, which \<open>memcpy\<close> and \<open>memset\<close> write. The locks of
  the code have no effect on the sequential behaviour and are left out. \<open>memmgr.mmap\<close> is a
  parameter with a state of its own.
\<close>

section \<open>Data and helpers\<close>

type_synonym free_entry = "addr \<times> nat"

record 'm heap =
  ker_free_list :: "free_entry list"
  ker_crit_list :: "free_entry list"
  proc_free_list :: "free_entry list"
  crit_start :: nat
  crit_end :: nat
  alloc_critical :: nat
  pregrow_start :: addr
  pregrow_size :: nat
  hmem :: "addr \<Rightarrow> nat"
  hmm :: 'm

text \<open>
  \<open>_MALLOC_ALIGN\<close> is \<open>8U\<close>, an unsigned int: the mask \<open>~(_MALLOC_ALIGN-1)\<close> is the 32-bit
  value \<open>0xFFFFFFF8\<close>, which the conversion to \<open>size_t\<close> extends with zeros.
\<close>

definition sizeof_free_entry :: nat where
  "sizeof_free_entry = 16"

definition malloc_align :: nat where
  "malloc_align = 8"

definition ALIGN :: "nat \<Rightarrow> nat" where
  "ALIGN x = wadd x 7 AND 0xFFFFFFF8"

definition IS_CRIT :: "'m heap \<Rightarrow> addr \<Rightarrow> bool" where
  "IS_CRIT h p \<longleftrightarrow> crit_start h \<le> p \<and> p \<le> crit_end h"

definition round_new :: "nat \<Rightarrow> nat" where
  "round_new n = (if n \<noteq> 0 then (if n \<le> sizeof_free_entry then sizeof_free_entry else ALIGN n) else 0)"

definition round_old :: "nat \<Rightarrow> nat" where
  "round_old n = (if n < sizeof_free_entry then sizeof_free_entry else ALIGN n)"

definition heap_list :: "nat \<Rightarrow> 'm heap \<Rightarrow> free_entry list" where
  "heap_list ker h = (if ker = 0 then proc_free_list h
     else if ker = 1 then ker_free_list h else ker_crit_list h)"

definition set_heap_list :: "nat \<Rightarrow> free_entry list \<Rightarrow> 'm heap \<Rightarrow> 'm heap" where
  "set_heap_list ker fl h = (if ker = 0 then h\<lparr>proc_free_list := fl\<rparr>
     else if ker = 1 then h\<lparr>ker_free_list := fl\<rparr> else h\<lparr>ker_crit_list := fl\<rparr>)"

definition memcpy :: "addr \<Rightarrow> addr \<Rightarrow> nat \<Rightarrow> 'm heap \<Rightarrow> 'm heap" where
  "memcpy dst src n h =
     h\<lparr>hmem := (\<lambda>a. if dst \<le> a \<and> a < dst + n then hmem h (src + (a - dst)) else hmem h a)\<rparr>"

definition memset :: "addr \<Rightarrow> nat \<Rightarrow> nat \<Rightarrow> 'm heap \<Rightarrow> 'm heap" where
  "memset dst c n h = h\<lparr>hmem := (\<lambda>a. if dst \<le> a \<and> a < dst + n then c else hmem h a)\<rparr>"

section \<open>The loops of \<open>_sreallocfunc\<close>\<close>

text \<open>
  The first loop looks for the link where \<open>data\<close> belongs and remembers a fitting entry on the
  way. \<open>None\<close> is the call of \<open>crash()\<close> for an area that is already free.
\<close>

definition better_fit :: "nat \<Rightarrow> nat \<Rightarrow> nat \<Rightarrow> nat option \<Rightarrow> nat option" where
  "better_fit ns sz pp fit =
     (if ns \<noteq> 0 \<and> (sz = ns \<or> (fit = None \<and> wadd ns sizeof_free_entry \<le> sz)) then Some pp else fit)"

fun scan :: "addr \<Rightarrow> nat \<Rightarrow> free_entry list \<Rightarrow> nat \<Rightarrow> nat option \<Rightarrow> (nat \<times> nat option) option" where
  "scan data ns [] pp fit = Some (pp, fit)"
| "scan data ns ((p, sz) # rest) pp fit =
    (if data \<noteq> 0 \<and> p \<le> data \<and> data < wadd p sz then None
     else if data \<noteq> 0 \<and> data < p then Some (pp, better_fit ns sz pp fit)
     else scan data ns rest (Suc pp) (better_fit ns sz pp fit))"

text \<open>The second loop: the first entry from a link on that fits exactly or can be split.\<close>

fun find_fit :: "nat \<Rightarrow> free_entry list \<Rightarrow> nat \<Rightarrow> nat option" where
  "find_fit ns [] j = None"
| "find_fit ns ((p, sz) # rest) j =
     (if sz = ns \<or> wadd ns sizeof_free_entry \<le> sz then Some j else find_fit ns rest (Suc j))"

text \<open>
  Taking the entry behind link \<open>j\<close>: the new list, and \<open>pp\<close> and the \<open>prev\<close> flag after it.
\<close>

definition take_fit :: "nat \<Rightarrow> free_entry list \<Rightarrow> nat \<Rightarrow> nat \<Rightarrow> bool \<Rightarrow> free_entry list \<times> nat \<times> bool" where
  "take_fit ns fl j pp prev =
     (let (new, sz) = fl ! j in
      if sz = ns then
        (take j fl @ drop (Suc j) fl,
         if prev \<and> pp = Suc j then (j, False)
         else if j < pp then (pp - 1, prev) else (pp, prev))
      else (fl[j := (wadd new ns, wsub sz ns)], pp, prev))"

text \<open>Returning \<open>data\<close> to the list at \<open>pp\<close>, joined with its neighbours where they touch.\<close>

definition free_place :: "free_entry list \<Rightarrow> nat \<Rightarrow> bool \<Rightarrow> addr \<Rightarrow> nat \<Rightarrow> free_entry list \<times> nat" where
  "free_place fl pp prev data osz =
     (if prev \<and> wadd (fst (fl ! (pp - 1))) (snd (fl ! (pp - 1))) = data
      then (fl[pp - 1 := (fst (fl ! (pp - 1)), wadd (snd (fl ! (pp - 1))) osz)], pp - 1)
      else (take pp fl @ (data, osz) # drop pp fl, pp))"

definition join_next :: "free_entry list \<Rightarrow> nat \<Rightarrow> free_entry list option" where
  "join_next fl i =
     (let (a, s) = fl ! i in
      if Suc i < length fl
      then (if wadd a s = fst (fl ! Suc i)
            then Some (take i fl @ (a, wadd s (snd (fl ! Suc i))) # drop (Suc (Suc i)) fl)
            else Some fl)
      else (if wadd a s = 0 then None else Some fl))"

definition free_insert :: "free_entry list \<Rightarrow> nat \<Rightarrow> bool \<Rightarrow> addr \<Rightarrow> nat \<Rightarrow> free_entry list option" where
  "free_insert fl pp prev data osz =
     (case free_place fl pp prev data osz of (fl1, i) \<Rightarrow> join_next fl1 i)"

text \<open>
  Growing \<open>data\<close> into the free entry right behind it. \<open>None\<close>: the entry does not follow, or
  is too small.
\<close>

definition grow_in_place :: "free_entry list \<Rightarrow> nat \<Rightarrow> addr \<Rightarrow> nat \<Rightarrow> nat \<Rightarrow> free_entry list option" where
  "grow_in_place fl pp data osz ns =
     (if pp < length fl \<and> wadd data osz = fst (fl ! pp) then
        (let psz = snd (fl ! pp) in
         if ns = wadd osz psz then Some (take pp fl @ drop (Suc pp) fl)
         else if wadd ns sizeof_free_entry \<le> wadd osz psz
         then Some (fl[pp := (wadd data ns, wsub (wadd osz psz) ns)])
         else None)
      else None)"

section \<open>\<open>_sreallocfunc\<close>\<close>

text \<open>
  The state of one pass over the label \<open>addmem\<close>, after the header of the pass: \<open>bnew\<close> is
  \<open>new\<close>, \<open>bscan\<close> whether the position loop ran, \<open>bprev\<close> whether \<open>prev\<close> is set.
\<close>

record pass =
  bdata :: addr
  bosz :: nat
  bns :: nat
  bnew :: addr
  bpp :: nat
  bprev :: bool
  bfit :: "nat option"
  bscan :: bool

datatype head = Head_Done | Head_Go pass

definition pass_head :: "free_entry list \<Rightarrow> addr \<Rightarrow> nat \<Rightarrow> nat \<Rightarrow> head option" where
  "pass_head fl data osz ns =
     (if data \<noteq> 0 \<and> osz \<noteq> 0 then
        (let osz = round_old osz in
         if ns = osz then Some Head_Done
         else
           (let (new, data, osz, ns) =
              (if ns \<noteq> 0 \<and> wadd ns sizeof_free_entry \<le> osz
               then (data, wadd data ns, wsub osz ns, 0) else (0, data, osz, ns))
            in case scan data ns fl 0 None of
                 None \<Rightarrow> None
               | Some (pp, fit) \<Rightarrow>
                   Some (Head_Go \<lparr>bdata = data, bosz = osz, bns = ns, bnew = new, bpp = pp,
                     bprev = (0 < pp), bfit = fit, bscan = True\<rparr>)))
      else Some (Head_Go \<lparr>bdata = data, bosz = osz, bns = ns, bnew = 0, bpp = 0,
             bprev = False, bfit = Some 0, bscan = False\<rparr>))"

text \<open>The tail of a pass: copy the old data to its new place and free the old place.\<close>

definition pass_tail :: "nat \<Rightarrow> 'm heap \<Rightarrow> pass \<Rightarrow> 'm heap option" where
  "pass_tail ker h b =
     (let h1 = (if bns b \<noteq> 0 \<and> bdata b \<noteq> 0 \<and> bnew b \<noteq> 0
                then memcpy (bnew b) (bdata b) (min (bns b) (bosz b)) h else h)
      in if bdata b \<noteq> 0
         then (case free_insert (heap_list ker h1) (bpp b) (bprev b) (bdata b) (bosz b) of
                 None \<Rightarrow> None | Some fl \<Rightarrow> Some (set_heap_list ker fl h1))
         else Some h1)"

type_synonym 'm alloc_fun = "'m heap \<Rightarrow> nat \<Rightarrow> 'm heap \<times> nat \<times> addr"

text \<open>
  One pass over the body behind the label \<open>addmem\<close> ends in one of four ways: it returns, it
  jumps back to return the excess \<open>add\<close> of a refill (with \<open>alloc\<close> cleared), it jumps back to
  retry on the critical list, or, for the process list, it frees the refill into the list and
  starts over.
\<close>

datatype 'm pass_end =
    Ret "'m heap" addr
  | Excess "'m heap" addr addr nat
  | Retry_Crit "'m heap" addr nat nat
  | Refill "'m heap" addr nat addr nat nat

definition pass_ret :: "nat \<Rightarrow> 'm heap \<Rightarrow> pass \<Rightarrow> addr \<Rightarrow> 'm pass_end option" where
  "pass_ret ker h b new =
     (case pass_tail ker h b of None \<Rightarrow> None | Some h1 \<Rightarrow> Some (Ret h1 new))"

definition pass_refill :: "'m alloc_fun \<Rightarrow> nat \<Rightarrow> 'm heap \<Rightarrow> pass \<Rightarrow> 'm pass_end option" where
  "pass_refill af ker h b =
     (let (h1, size, new) = (if ker = 2 then (h, 0, 0) else af h (wadd (bns b) sizeof_free_entry))
      in if size \<noteq> 0 then
           (if ker = 0 then Some (Refill h1 new size (bdata b) (bosz b) (bns b))
            else case pass_tail ker h1 (b\<lparr>bnew := new\<rparr>) of
                   None \<Rightarrow> None
                 | Some h2 \<Rightarrow>
                     if wsub size (bns b) \<noteq> 0
                     then Some (Excess h2 new (wadd new (bns b)) (wsub size (bns b)))
                     else Some (Ret h2 new))
         else if ker = 1 \<and> alloc_critical h1 \<noteq> 0
         then Some (Retry_Crit h1 (bdata b) (bosz b) (bns b))
         else Some (Ret h1 0))"

definition pass_alloc :: "'m alloc_fun option \<Rightarrow> nat \<Rightarrow> 'm heap \<Rightarrow> pass \<Rightarrow> 'm pass_end option" where
  "pass_alloc alloc ker h b =
     (let fl = heap_list ker h;
          start = (case bfit b of Some j \<Rightarrow> j | None \<Rightarrow> bpp b)
      in case find_fit (bns b) (drop start fl) start of
           Some j \<Rightarrow>
             (let (fl1, pp1, prev1) = take_fit (bns b) fl j (bpp b) (bprev b)
              in pass_ret ker (set_heap_list ker fl1 h)
                   (b\<lparr>bnew := fst (fl ! j), bpp := pp1, bprev := prev1\<rparr>) (fst (fl ! j)))
         | None \<Rightarrow>
             (case alloc of
                None \<Rightarrow> pass_ret ker h b 0
              | Some af \<Rightarrow> pass_refill af ker h b))"

text \<open>
  At the end of the list \<open>p\<close> is NULL. A block that ends at the top of the address space would be
  taken to be followed by it, and \<open>p->size\<close> read through NULL.
\<close>

definition null_next :: "free_entry list \<Rightarrow> pass \<Rightarrow> bool" where
  "null_next fl b \<longleftrightarrow> bdata b \<noteq> 0 \<and> bscan b \<and> length fl \<le> bpp b \<and> wadd (bdata b) (bosz b) = 0"

definition addmem_pass :: "bool \<Rightarrow> 'm alloc_fun option \<Rightarrow> nat \<Rightarrow> 'm heap \<Rightarrow> addr \<Rightarrow> nat \<Rightarrow> nat
    \<Rightarrow> 'm pass_end option" where
  "addmem_pass ink alloc ker h data osz ns =
    (let ker = (if \<not> ink then 0 else if ker \<le> 1 \<and> \<not> IS_CRIT h data then 1 else 2);
         fl = heap_list ker h
     in case pass_head fl data osz ns of
          None \<Rightarrow> None
        | Some Head_Done \<Rightarrow> Some (Ret h data)
        | Some (Head_Go b) \<Rightarrow>
            if bns b = 0 then pass_ret ker h b (bnew b)
            else if null_next fl b then None
            else
              (case (if bdata b \<noteq> 0 \<and> bscan b
                     then grow_in_place fl (bpp b) (bdata b) (bosz b) (bns b) else None) of
                 Some fl1 \<Rightarrow> Some (Ret (set_heap_list ker fl1 h) (bdata b))
               | None \<Rightarrow> pass_alloc alloc ker h b))"

text \<open>
  The passes of one call. The fuel bounds the jumps; running out of it is \<open>None\<close>, and the
  results below show that it never runs out. The pass that frees the excess of a refill returns
  the block of the refill, unless it ends early on a size that is rounded to 0 and returns the
  excess itself.
\<close>

primrec addmem :: "nat \<Rightarrow> bool \<Rightarrow> 'm alloc_fun option \<Rightarrow> nat \<Rightarrow> 'm heap \<Rightarrow> addr \<Rightarrow> nat \<Rightarrow> nat
    \<Rightarrow> ('m heap \<times> addr) option" where
  "addmem 0 ink alloc ker h data osz ns = None"
| "addmem (Suc fuel) ink alloc ker h data osz ns =
     (case addmem_pass ink alloc ker h data osz ns of
        None \<Rightarrow> None
      | Some (Ret h1 new) \<Rightarrow> Some (h1, new)
      | Some (Excess h1 new add sz) \<Rightarrow>
          map_option (\<lambda>(h2, r). (h2, if r = 0 then new else r)) (addmem fuel ink None 1 h1 add sz 0)
      | Some (Retry_Crit h1 d os n) \<Rightarrow> addmem fuel ink alloc 2 h1 d os n
      | Some (Refill h1 new sz d os n) \<Rightarrow>
          (if new AND (malloc_align - 1) \<noteq> 0 then None
           else case addmem fuel ink None 0 h1 new sz 0 of
             None \<Rightarrow> None
           | Some (h2, _) \<Rightarrow> addmem fuel ink alloc 0 h2 d os n))"

text \<open>
  Three passes are enough for every call: a refill and the retry after it on the process list,
  or the retry on the critical list, or the pass that returns the excess of a refill.
\<close>

definition sreallocfunc :: "bool \<Rightarrow> 'm alloc_fun option \<Rightarrow> 'm heap \<Rightarrow> addr \<Rightarrow> nat \<Rightarrow> nat
    \<Rightarrow> ('m heap \<times> addr) option" where
  "sreallocfunc ink alloc h data osz ns =
     (if data AND (malloc_align - 1) \<noteq> 0 then None
      else case addmem 3 ink alloc 0 h data osz (round_new ns) of
             None \<Rightarrow> None
           | Some (h1, new) \<Rightarrow>
               if new AND (malloc_align - 1) \<noteq> 0 then None else Some (h1, new))"

section \<open>The entry points\<close>

definition pagesize :: nat where
  "pagesize = 0x1000"

definition roundup_page :: "nat \<Rightarrow> nat" where
  "roundup_page n = wadd n (pagesize - 1) div pagesize * pagesize"

type_synonym 'm mmap_fun = "'m \<Rightarrow> nat \<Rightarrow> 'm \<times> (addr \<times> nat) option"

definition heap_alloc :: "'m mmap_fun \<Rightarrow> 'm alloc_fun" where
  "heap_alloc mmap h n =
     (let n = roundup_page n in
      if n \<le> pregrow_size h then
        (h\<lparr>pregrow_size := pregrow_size h - n, pregrow_start := wadd (pregrow_start h) n\<rparr>,
         n, pregrow_start h)
      else case mmap (hmm h) n of
             (m, None) \<Rightarrow> (h\<lparr>hmm := m\<rparr>, 0, 0)
           | (m, Some (a, sz)) \<Rightarrow> (h\<lparr>hmm := m\<rparr>, sz, a))"

definition srealloc :: "bool \<Rightarrow> 'm mmap_fun \<Rightarrow> 'm heap \<Rightarrow> addr \<Rightarrow> nat \<Rightarrow> nat \<Rightarrow> ('m heap \<times> addr) option" where
  "srealloc ink mmap h data osz nsz = sreallocfunc ink (Some (heap_alloc mmap)) h data osz nsz"

definition sfree :: "bool \<Rightarrow> 'm mmap_fun \<Rightarrow> 'm heap \<Rightarrow> addr \<Rightarrow> nat \<Rightarrow> 'm heap option" where
  "sfree ink mmap h data n =
     (let (data, n) =
        (if data AND (malloc_align - 1) \<noteq> 0
         then (wadd data (malloc_align - (data AND (malloc_align - 1))),
               wsub n (malloc_align - (data AND (malloc_align - 1))) AND 0xFFFFFFF8)
         else (data, n))
      in map_option fst (sreallocfunc ink (Some (heap_alloc mmap)) h data n 0))"

definition smalloc :: "bool \<Rightarrow> 'm mmap_fun \<Rightarrow> 'm heap \<Rightarrow> nat \<Rightarrow> ('m heap \<times> addr) option" where
  "smalloc ink mmap h n = sreallocfunc ink (Some (heap_alloc mmap)) h 0 0 n"

definition scalloc :: "bool \<Rightarrow> 'm mmap_fun \<Rightarrow> 'm heap \<Rightarrow> nat \<Rightarrow> ('m heap \<times> addr) option" where
  "scalloc ink mmap h n =
     (case sreallocfunc ink (Some (heap_alloc mmap)) h 0 0 n of
        None \<Rightarrow> None
      | Some (h1, p) \<Rightarrow> Some (if p \<noteq> 0 then memset p 0 n h1 else h1, p))"

text \<open>The \<open>size_t\<close> that \<open>malloc\<close> keeps in front of its block, as eight bytes.\<close>

definition store64 :: "addr \<Rightarrow> nat \<Rightarrow> 'm heap \<Rightarrow> 'm heap" where
  "store64 p v h =
     h\<lparr>hmem := (\<lambda>a. if p \<le> a \<and> a < p + 8 then v div 256 ^ (a - p) mod 256 else hmem h a)\<rparr>"

definition load64 :: "addr \<Rightarrow> 'm heap \<Rightarrow> nat" where
  "load64 p h = (\<Sum>i<8. hmem h (p + i) * 256 ^ i)"

definition free :: "bool \<Rightarrow> 'm mmap_fun \<Rightarrow> 'm heap \<Rightarrow> addr \<Rightarrow> 'm heap option" where
  "free ink mmap h data =
     (if data \<noteq> 0 then
        (let p = wsub data malloc_align in
         map_option fst (sreallocfunc ink (Some (heap_alloc mmap)) h p (load64 p h) 0))
      else Some h)"

definition malloc :: "bool \<Rightarrow> 'm mmap_fun \<Rightarrow> 'm heap \<Rightarrow> nat \<Rightarrow> ('m heap \<times> addr) option" where
  "malloc ink mmap h n =
     (let n = wadd n malloc_align in
      case sreallocfunc ink (Some (heap_alloc mmap)) h 0 0 n of
        None \<Rightarrow> None
      | Some (h1, p) \<Rightarrow>
          Some (if p \<noteq> 0 then (store64 p n h1, wadd p malloc_align) else (h1, p)))"

definition calloc :: "bool \<Rightarrow> 'm mmap_fun \<Rightarrow> 'm heap \<Rightarrow> nat \<Rightarrow> nat \<Rightarrow> ('m heap \<times> addr) option" where
  "calloc ink mmap h n num =
     (let n = wadd (n * num mod 2 ^ 64) malloc_align in
      case sreallocfunc ink (Some (heap_alloc mmap)) h 0 0 n of
        None \<Rightarrow> None
      | Some (h1, p) \<Rightarrow>
          Some (if p \<noteq> 0 then (store64 p n (memset p 0 n h1), wadd p malloc_align) else (h1, p)))"

definition realloc :: "bool \<Rightarrow> 'm mmap_fun \<Rightarrow> 'm heap \<Rightarrow> addr \<Rightarrow> nat \<Rightarrow> ('m heap \<times> addr) option" where
  "realloc ink mmap h data n =
     (let (p, osz) = (if data \<noteq> 0 then (wsub data malloc_align, load64 (wsub data malloc_align) h)
                      else (0, 0));
          n = (if n \<noteq> 0 then wadd n malloc_align else 0)
      in case sreallocfunc ink (Some (heap_alloc mmap)) h p osz n of
           None \<Rightarrow> None
         | Some (h1, q) \<Rightarrow>
             Some (if q \<noteq> 0 then (if n \<noteq> 0 then (store64 q n h1, wadd q malloc_align) else (h1, 0))
                   else (h1, q)))"

text \<open>The initial values of the heap's variables; \<open>crit_start\<close> makes \<open>IS_CRIT\<close> fail.\<close>

definition heap_boot :: "'m \<Rightarrow> 'm heap" where
  "heap_boot m = \<lparr>ker_free_list = [], ker_crit_list = [], proc_free_list = [],
     crit_start = 2 ^ 64 - 1, crit_end = 0, alloc_critical = 0, pregrow_start = 0, pregrow_size = 0,
     hmem = (\<lambda>_. 0), hmm = m\<rparr>"

definition CRIT_SIZE :: nat where
  "CRIT_SIZE = 4 * pagesize"

text \<open>
  \<open>heap_init\<close>: \<open>_heap_alloc\<close> is handed the address of \<open>pregrow_start\<close> itself, so on the path
  that serves the request from the pregrown area the start is moved past the block returned.
  A NULL critical block is dereferenced: \<open>None\<close>.
\<close>

definition pregrow_heap :: "'m mmap_fun \<Rightarrow> 'm heap \<Rightarrow> nat \<Rightarrow> 'm heap" where
  "pregrow_heap mmap h pregrow =
     (if pregrow \<noteq> 0
      then (case heap_alloc mmap h pregrow of
              (h1, sz, a) \<Rightarrow>
                h1\<lparr>pregrow_start :=
                     (if roundup_page pregrow \<le> pregrow_size h \<or> sz = 0
                      then pregrow_start h1 else a),
                   pregrow_size := sz\<rparr>)
      else h)"

definition heap_init :: "bool \<Rightarrow> 'm mmap_fun \<Rightarrow> 'm heap \<Rightarrow> nat \<Rightarrow> 'm heap option" where
  "heap_init ink mmap h pregrow =
     (case smalloc ink mmap (pregrow_heap mmap h pregrow) CRIT_SIZE of
        None \<Rightarrow> None
      | Some (h1, p) \<Rightarrow>
          if p = 0 then None
          else Some (h1\<lparr>ker_crit_list := [(p, CRIT_SIZE)], crit_start := p,
                        crit_end := wadd p (CRIT_SIZE - 1)\<rparr>))"

definition crit_sfree :: "bool \<Rightarrow> 'm mmap_fun \<Rightarrow> 'm heap \<Rightarrow> addr \<Rightarrow> nat \<Rightarrow> ('m heap \<times> bool) option" where
  "crit_sfree ink mmap h p n =
     (if IS_CRIT h p then map_option (\<lambda>h1. (h1, True)) (sfree ink mmap h p n)
      else Some (h, False))"

end
