(* ===== verification/Heap_Lists.thy ===== *)
theory Heap_Lists
  imports Heap
begin

text \<open>
  The free lists of the heap: what a well-formed list is (entries of at least one header,
  aligned, in ascending order with a gap between any two), the set of addresses it covers, and
  what each list operation of \<open>_sreallocfunc\<close> does to both: the scan for the position and the
  fit, taking a fit, inserting with coalescing, growing in place.
\<close>

abbreviation fe_end :: "free_entry \<Rightarrow> nat" where
  "fe_end e \<equiv> fst e + snd e"

definition fe_ok :: "free_entry \<Rightarrow> bool" where
  "fe_ok e \<longleftrightarrow> 0 < fst e \<and> 8 dvd fst e \<and> 8 dvd snd e \<and> 16 \<le> snd e \<and> fe_end e < 2 ^ 64"

definition fl_ok :: "free_entry list \<Rightarrow> bool" where
  "fl_ok fl \<longleftrightarrow> sorted_wrt (\<lambda>x y. fe_end x < fst y) fl \<and> (\<forall>e \<in> set fl. fe_ok e)"

definition fl_set :: "free_entry list \<Rightarrow> addr set" where
  "fl_set fl = (\<Union>e \<in> set fl. block (fst e) (snd e))"

lemma fl_ok_Nil [simp]: "fl_ok []"
  by (simp add: fl_ok_def)

lemma fl_ok_Cons [simp]:
  "fl_ok (e # fl) \<longleftrightarrow> fe_ok e \<and> (\<forall>x \<in> set fl. fe_end e < fst x) \<and> fl_ok fl"
  by (auto simp: fl_ok_def)

lemma fl_ok_append [simp]:
  "fl_ok (xs @ ys) \<longleftrightarrow> fl_ok xs \<and> fl_ok ys \<and> (\<forall>x \<in> set xs. \<forall>y \<in> set ys. fe_end x < fst y)"
  by (auto simp: fl_ok_def sorted_wrt_append)

lemma fl_set_simps [simp]:
  "fl_set [] = {}" "fl_set (e # fl) = block (fst e) (snd e) \<union> fl_set fl"
  "fl_set (xs @ ys) = fl_set xs \<union> fl_set ys"
  by (auto simp: fl_set_def)

lemma in_fl_set: "x \<in> fl_set fl \<longleftrightarrow> (\<exists>e \<in> set fl. fst e \<le> x \<and> x < fe_end e)"
  by (auto simp: fl_set_def block_def)

lemma fl_ok_entry: "fl_ok fl \<Longrightarrow> e \<in> set fl \<Longrightarrow> fe_ok e"
  by (simp add: fl_ok_def)

definition fits :: "nat \<Rightarrow> nat \<Rightarrow> bool" where
  "fits ns sz \<longleftrightarrow> sz = ns \<or> wadd ns sizeof_free_entry \<le> sz"

text \<open>Where \<open>data\<close> belongs in the list, and what the flag \<open>prev\<close> says about the entry before.\<close>

definition pos_ok :: "free_entry list \<Rightarrow> nat \<Rightarrow> bool \<Rightarrow> addr \<Rightarrow> bool" where
  "pos_ok fl pp prev data \<longleftrightarrow>
     (\<exists>xs ys. fl = xs @ ys \<and> length xs = pp
        \<and> (\<forall>x \<in> set xs. fe_end x \<le> data) \<and> (\<forall>y \<in> set ys. data < fst y)
        \<and> (if prev then xs \<noteq> [] else xs = [] \<or> fe_end (last xs) < data))"

lemma scan_crash: "fl_ok fl \<Longrightarrow> data \<noteq> 0 \<Longrightarrow> data \<in> fl_set fl \<Longrightarrow> scan data ns fl n fit = None"
proof (induction data ns fl n fit rule: scan.induct)
  case (2 data ns p sz rest pp fit)
  then show ?case by (auto simp: fe_ok_def wadd_exact block_def in_fl_set)
qed simp

lemma scan_Some:
  assumes "fl_ok fl" "data \<noteq> 0" "data \<notin> fl_set fl"
  shows "\<exists>fit'. scan data ns fl n fit = Some (n + length (filter (\<lambda>e. fe_end e \<le> data) fl), fit')"
  using assms
proof (induction data ns fl n fit rule: scan.induct)
  case (1 data ns pp fit)
  then show ?case by simp
next
  case (2 data ns p sz rest pp fit)
  have e: "wadd p sz = p + sz" and r: "\<forall>x \<in> set rest. p + sz < fst x" and ok: "fl_ok rest"
    using "2.prems" by (auto simp: fe_ok_def wadd_exact)
  show ?case
  proof (cases "data < p")
    case True
    then have "filter (\<lambda>e. fe_end e \<le> data) rest = []"
      using r by (auto simp: filter_empty_conv)
    then show ?thesis using True e "2.prems" by (auto simp: block_def)
  next
    case False
    then show ?thesis using e ok "2.prems" "2.IH" by (auto simp: block_def)
  qed
qed

lemma pos_filter:
  assumes "fl_ok fl" "data \<notin> fl_set fl"
  shows "pos_ok fl (length (filter (\<lambda>e. fe_end e \<le> data) fl))
           (0 < length (filter (\<lambda>e. fe_end e \<le> data) fl)) data"
  using assms
proof (induction fl)
  case Nil
  then show ?case by (simp add: pos_ok_def)
next
  case (Cons e fl)
  let ?f = "filter (\<lambda>e. fe_end e \<le> data)"
  from Cons have IH: "pos_ok fl (length (?f fl)) (0 < length (?f fl)) data" by simp
  show ?case
  proof (cases "fe_end e \<le> data")
    case True
    from IH obtain xs ys where d: "fl = xs @ ys" "length xs = length (?f fl)"
      "\<forall>x \<in> set xs. fe_end x \<le> data" "\<forall>y \<in> set ys. data < fst y"
      unfolding pos_ok_def by blast
    show ?thesis
      unfolding pos_ok_def using True d by (intro exI[of _ "e # xs"] exI[of _ ys]) simp
  next
    case False
    then have "\<forall>x \<in> set (e # fl). data < fst x"
      using Cons.prems by (force simp: block_def)
    moreover then have "?f (e # fl) = []"
      by (auto simp: filter_empty_conv)
    ultimately show ?thesis unfolding pos_ok_def by auto
  qed
qed

lemma scan_fit:
  assumes "scan data ns fl n fit = Some (pp, Some j)" "ns \<noteq> 0" "fit \<noteq> Some j"
  shows "\<exists>i < length fl. j = n + i \<and> fits ns (snd (fl ! i))"
  using assms
proof (induction data ns fl n fit rule: scan.induct)
  case (1 data ns pp fit)
  then show ?case by simp
next
  case (2 data ns p sz rest pp' fit)
  show ?case
  proof (cases "better_fit ns sz pp' fit = Some j")
    case True
    then have "j = pp'" "fits ns sz"
      using "2.prems"(3) by (auto simp: better_fit_def fits_def split: if_splits)
    then show ?thesis by auto
  next
    case False
    with "2.prems"(1) have s: "scan data ns rest (Suc pp') (better_fit ns sz pp' fit) = Some (pp, Some j)"
      and nc: "\<not> (data \<noteq> 0 \<and> p \<le> data \<and> data < wadd p sz)" "\<not> (data \<noteq> 0 \<and> data < p)"
      by (auto split: if_splits)
    from "2.IH"[OF nc s "2.prems"(2) False] obtain i where
      "i < length rest" "j = Suc pp' + i" "fits ns (snd (rest ! i))" by auto
    then show ?thesis by (intro exI[of _ "Suc i"]) auto
  qed
qed

lemma find_fit_Some:
  "find_fit ns fl n = Some j \<Longrightarrow> \<exists>i < length fl. j = n + i \<and> fits ns (snd (fl ! i))"
proof (induction ns fl n rule: find_fit.induct)
  case (1 ns j)
  then show ?case by simp
next
  case (2 ns p sz rest n)
  show ?case
  proof (cases "sz = ns \<or> wadd ns sizeof_free_entry \<le> sz")
    case True
    then show ?thesis using "2.prems" by (auto simp: fits_def)
  next
    case False
    with 2 obtain i where "i < length rest" "j = Suc n + i" "fits ns (snd (rest ! i))" by auto
    then show ?thesis by (intro exI[of _ "Suc i"]) auto
  qed
qed

lemma find_fit_None: "find_fit ns fl n = None \<longleftrightarrow> (\<forall>e \<in> set fl. \<not> fits ns (snd e))"
  by (induction ns fl n rule: find_fit.induct) (auto simp: fits_def)

lemma fl_ok_disjoint:
  assumes "fl_ok (us @ e # vs)"
  shows "fl_set us \<inter> block (fst e) (snd e) = {}" "fl_set vs \<inter> block (fst e) (snd e) = {}"
proof -
  have 1: "\<And>x u. u \<in> set us \<Longrightarrow> x < fe_end u \<Longrightarrow> x < fst e"
    using assms by fastforce
  have 2: "\<And>x v. v \<in> set vs \<Longrightarrow> fst v \<le> x \<Longrightarrow> fe_end e \<le> x"
    using assms by fastforce
  show "fl_set us \<inter> block (fst e) (snd e) = {}"
    using 1 by (fastforce simp: in_fl_set block_def)
  show "fl_set vs \<inter> block (fst e) (snd e) = {}"
    using 2 by (fastforce simp: in_fl_set block_def)
qed

lemma block_split: "n \<le> s \<Longrightarrow> block a s = block a n \<union> block (a + n) (s - n)"
  by (auto simp: block_def)

lemma split_at_nth:
  assumes "j < length fl"
  obtains us a s vs where "fl = us @ (a, s) # vs" "length us = j"
  using assms by (metis id_take_nth_drop length_take min.absorb4 surj_pair)

definition size_ok :: "nat \<Rightarrow> bool" where
  "size_ok ns \<longleftrightarrow> 16 \<le> ns \<and> 8 dvd ns \<and> ns + 16 < 2 ^ 64"

lemma fits_iff: "size_ok ns \<Longrightarrow> fits ns sz \<longleftrightarrow> sz = ns \<or> ns + 16 \<le> sz"
  by (simp add: fits_def size_ok_def wadd_exact sizeof_free_entry_def)

lemma take_fit_split:
  assumes "fl_ok (us @ (a, s) # vs)" "fits ns s" "size_ok ns"
  shows "take_fit ns (us @ (a, s) # vs) (length us) pp prev =
    (if s = ns then (us @ vs, if prev \<and> pp = Suc (length us) then (length us, False)
         else if length us < pp then (pp - 1, prev) else (pp, prev))
     else (us @ (a + ns, s - ns) # vs, pp, prev))"
proof -
  have f: "s = ns \<or> ns + 16 \<le> s" using assms fits_iff by auto
  have "a + s < 2 ^ 64" using assms by (simp add: fe_ok_def)
  with f have "wadd a ns = a + ns" "wsub s ns = s - ns"
    by (auto simp: wadd_exact wsub_exact)
  then show ?thesis by (simp add: take_fit_def list_update_append)
qed

lemma take_fit_ok:
  assumes ok: "fl_ok fl" and j: "j < length fl" and fit: "fits ns (snd (fl ! j))" and ns: "size_ok ns"
    and tf: "take_fit ns fl j pp prev = (fl1, pp1, prev1)"
  shows "fl_ok fl1 \<and> fl_set fl1 = fl_set fl - block (fst (fl ! j)) ns
     \<and> block (fst (fl ! j)) ns \<subseteq> fl_set fl"
proof -
  from j obtain us a s vs where fl: "fl = us @ (a, s) # vs" and us: "length us = j"
    by (rule split_at_nth)
  have nth: "fl ! j = (a, s)" using fl us by (simp add: nth_append)
  have f: "s = ns \<or> ns + 16 \<le> s" using fit nth fits_iff ns by simp
  note eq = take_fit_split[OF ok[unfolded fl] fit[unfolded nth, simplified] ns, of pp prev]
  have d: "fl_set us \<inter> block a s = {}" "fl_set vs \<inter> block a s = {}"
    using fl_ok_disjoint[of us "(a, s)" vs] ok fl by auto
  have b: "block a s = block a ns \<union> block (a + ns) (s - ns)" "block a ns \<inter> block (a + ns) (s - ns) = {}"
    using f by (auto simp: block_def)
  show ?thesis
  proof (cases "s = ns")
    case True
    then have fl1: "fl1 = us @ vs" using tf eq fl us by simp
    have "fl_ok fl1" using ok fl fl1 by (auto simp: fe_ok_def)
    moreover have "fl_set fl1 = fl_set fl - block a ns"
      using fl1 fl d True by auto
    ultimately show ?thesis using nth fl True by auto
  next
    case False
    then have fl1: "fl1 = us @ (a + ns, s - ns) # vs" using tf eq fl us by simp
    have "fe_ok (a + ns, s - ns)"
      using ok fl f False ns by (auto simp: fe_ok_def size_ok_def)
    then have "fl_ok fl1" using ok fl fl1 f False by fastforce
    moreover have "fl_set fl1 = fl_set fl - block a ns"
      using fl1 fl d b by auto
    ultimately show ?thesis using nth fl b by auto
  qed
qed

lemma take_fit_pos:
  assumes ok: "fl_ok fl" and j: "j < length fl" and fit: "fits ns (snd (fl ! j))" and ns: "size_ok ns"
    and tf: "take_fit ns fl j pp prev = (fl1, pp1, prev1)"
    and pos: "pos_ok fl pp prev data"
  shows "pos_ok fl1 pp1 prev1 data"
proof -
  from pos obtain xs ys where d: "fl = xs @ ys" "length xs = pp"
     "\<forall>x \<in> set xs. fe_end x \<le> data" "\<forall>y \<in> set ys. data < fst y"
     "if prev then xs \<noteq> [] else xs = [] \<or> fe_end (last xs) < data"
    unfolding pos_ok_def by blast
  show ?thesis
  proof (cases "j < pp")
    case False
    have jy: "j - pp < length ys" using d j False by simp
    then obtain us a s vs where ys: "ys = us @ (a, s) # vs" and us: "length us = j - pp"
      by (rule split_at_nth)
    have fl: "fl = (xs @ us) @ (a, s) # vs" and l: "length (xs @ us) = j" using d ys us False by auto
    have fs: "fits ns s" using fit fl l by (metis nth_append_length snd_conv)
    have f: "s = ns \<or> ns + 16 \<le> s" using fs fits_iff ns by simp
    note eq = take_fit_split[OF ok[unfolded fl] fs ns, of pp prev]
    have "fl1 = xs @ (if s = ns then us @ vs else us @ (a + ns, s - ns) # vs) \<and> pp1 = pp \<and> prev1 = prev"
      using tf eq fl l False by (simp split: if_splits)
    then show ?thesis
      unfolding pos_ok_def using d ys f
      by (intro exI[of _ xs] exI[of _ "if s = ns then us @ vs else us @ (a + ns, s - ns) # vs"]) auto
  next
    case True
    then have "j < length xs" using d by simp
    then obtain us a s vs where xs: "xs = us @ (a, s) # vs" and us: "length us = j"
      by (rule split_at_nth)
    have fl: "fl = us @ (a, s) # (vs @ ys)" using d xs by simp
    have fs: "fits ns s" using fit fl us by (metis nth_append_length snd_conv)
    have f: "s = ns \<or> ns + 16 \<le> s" using fs fits_iff ns by simp
    note eq = take_fit_split[OF ok[unfolded fl] fs ns, of pp prev]
    show ?thesis
    proof (cases "s = ns")
      case ex: True
      then have fl1: "fl1 = (us @ vs) @ ys"
        and pv: "(pp1, prev1) = (if prev \<and> pp = Suc j then (j, False) else (pp - 1, prev))"
        using tf eq fl us True by (auto split: if_splits)
      have lt: "\<And>u. u \<in> set us \<Longrightarrow> fe_end u < data"
        using ok d fl by fastforce
      have "pp1 = length (us @ vs)"
        using pv d xs us by (auto split: if_splits)
      moreover have "if prev1 then us @ vs \<noteq> [] else us @ vs = [] \<or> fe_end (last (us @ vs)) < data"
      proof (cases "vs = []")
        case True
        then have "prev1 = False" using pv d xs us by (auto split: if_splits)
        then show ?thesis using lt True by (cases us rule: rev_cases) auto
      next
        case False
        then show ?thesis using pv d xs us by (auto split: if_splits)
      qed
      ultimately show ?thesis
        unfolding pos_ok_def using d xs fl1 by (intro exI[of _ "us @ vs"] exI[of _ ys]) auto
    next
      case False
      then have fl1: "fl1 = (us @ (a + ns, s - ns) # vs) @ ys" and pv: "pp1 = pp" "prev1 = prev"
        using tf eq fl us by auto
      have "fe_end (a + ns, s - ns) = a + s" using f False by simp
      then show ?thesis
        unfolding pos_ok_def using d xs fl1 pv
        by (intro exI[of _ "us @ (a + ns, s - ns) # vs"] exI[of _ ys]) (auto split: if_splits)
    qed
  qed
qed

lemma join_next_split:
  "join_next (zs @ (a, s) # ys) (length zs) =
     (case ys of [] \<Rightarrow> (if wadd a s = 0 then None else Some (zs @ [(a, s)]))
      | y # ys' \<Rightarrow> Some (if wadd a s = fst y then zs @ (a, wadd s (snd y)) # ys' else zs @ (a, s) # ys))"
  by (cases ys) (simp_all add: join_next_def nth_append)

lemma join_next_ok:
  assumes z: "fl_ok zs" "fe_ok (a, s)" "\<forall>x \<in> set zs. fe_end x < a"
    and y: "fl_ok ys" "\<forall>y \<in> set ys. a + s \<le> fst y"
  shows "\<exists>fl1. join_next (zs @ (a, s) # ys) (length zs) = Some fl1 \<and> fl_ok fl1
           \<and> fl_set fl1 = fl_set zs \<union> block a s \<union> fl_set ys"
proof -
  have w: "wadd a s = a + s" "a + s \<noteq> 0" using z(2) by (auto simp: fe_ok_def wadd_exact)
  show ?thesis
  proof (cases ys)
    case Nil
    then show ?thesis using z w by (simp add: join_next_split)
  next
    case (Cons v vs)
    show ?thesis
    proof (cases "a + s = fst v")
      case True
      have v: "fe_ok v" "fl_ok vs" "\<forall>x \<in> set vs. fe_end v < fst x" using y Cons by auto
      have ws: "wadd s (snd v) = s + snd v" using v(1) True by (auto simp: fe_ok_def wadd_exact)
      have ok1: "fe_ok (a, s + snd v)" using z(2) v(1) True by (auto simp: fe_ok_def)
      have e1: "fe_end (a, s + snd v) = fe_end v" using True by simp
      have lt: "\<forall>x \<in> set zs. \<forall>u \<in> set vs. fe_end x < fst u" using z(3) v(3) True by fastforce
      have "fl_ok (zs @ (a, s + snd v) # vs)" using z(1,3) v(2,3) ok1 e1 lt by auto
      moreover have "block a (s + snd v) = block a s \<union> block (fst v) (snd v)"
        using True by (auto simp: block_def)
      ultimately show ?thesis using Cons True w ws by (simp add: join_next_split Un_ac)
    next
      case False
      have v: "\<forall>x \<in> set ys. a + s < fst x"
        using y False Cons by fastforce
      have lt: "\<forall>x \<in> set zs. \<forall>u \<in> set ys. fe_end x < fst u" using z(3) v by fastforce
      have "fl_ok (zs @ (a, s) # ys)" using z y(1) v lt by auto
      then show ?thesis using Cons False w by (simp add: join_next_split Un_ac)
    qed
  qed
qed

lemma free_insert_ok:
  assumes ok: "fl_ok fl" and pos: "pos_ok fl pp prev data"
    and blk: "fe_ok (data, osz)" and dis: "block data osz \<inter> fl_set fl = {}"
  shows "\<exists>fl1. free_insert fl pp prev data osz = Some fl1 \<and> fl_ok fl1
           \<and> fl_set fl1 = fl_set fl \<union> block data osz"
proof -
  from pos obtain xs ys where fl: "fl = xs @ ys" and pp: "length xs = pp"
     and bef: "\<forall>x \<in> set xs. fe_end x \<le> data" and aft: "\<forall>y \<in> set ys. data < fst y"
     and pv: "if prev then xs \<noteq> [] else xs = [] \<or> fe_end (last xs) < data"
    unfolding pos_ok_def by blast
  have okx: "fl_ok xs" and oky: "fl_ok ys" using ok fl by auto
  have after: "\<forall>y \<in> set ys. data + osz \<le> fst y"
  proof
    fix y assume y: "y \<in> set ys"
    then have "fe_ok y" using oky by (auto intro: fl_ok_entry)
    then have "fst y \<in> fl_set fl" using y fl by (auto simp: in_fl_set fe_ok_def)
    with dis have "fst y \<notin> block data osz" by auto
    then show "data + osz \<le> fst y" using aft y by (auto simp: block_def)
  qed
  show ?thesis
  proof (cases "prev \<and> fe_end (last xs) = data")
    case True
    then have "xs \<noteq> []" using pv by auto
    then obtain zs a s where xs: "xs = zs @ [(a, s)]" by (cases xs rule: rev_cases) auto
    have e: "a + s = data" and eo: "fe_ok (a, s)" using True xs okx by auto
    have w: "wadd a s = data" "wadd s osz = s + osz"
      using eo blk e by (auto simp: wadd_exact fe_ok_def)
    have "pp - 1 = length zs" using pp xs by simp
    then have "free_place fl pp prev data osz = (zs @ (a, s + osz) # ys, length zs)"
      using True w fl xs by (simp add: free_place_def nth_append list_update_append)
    moreover have "fe_ok (a, s + osz)" using eo blk e by (auto simp: fe_ok_def)
    moreover have "\<forall>y \<in> set ys. a + (s + osz) \<le> fst y" using after e by auto
    moreover have "fl_ok zs" "\<forall>x \<in> set zs. fe_end x < a" using okx xs by auto
    moreover have "block a (s + osz) = block a s \<union> block data osz" using e by (auto simp: block_def)
    ultimately show ?thesis
      using join_next_ok[of zs a "s + osz" ys] oky fl xs
      by (auto simp: free_insert_def Un_ac)
  next
    case False
    have lt: "\<forall>x \<in> set xs. fe_end x < data"
    proof
      fix x assume x: "x \<in> set xs"
      then obtain zs l where xs: "xs = zs @ [l]" by (cases xs rule: rev_cases) auto
      have "fe_end l < data" using False pv bef xs by (cases prev) auto
      moreover have "x = l \<or> fe_end x < fst l" using x xs okx by auto
      ultimately show "fe_end x < data" by auto
    qed
    have "free_place fl pp prev data osz = (xs @ (data, osz) # ys, length xs)"
    proof (cases "prev")
      case True
      then obtain zs l where xs: "xs = zs @ [l]" using pv by (cases xs rule: rev_cases) auto
      then have "fl ! (pp - 1) = l" "fe_ok l" using fl pp okx by (auto simp: nth_append)
      moreover have "fe_end l < data" using lt xs by simp
      ultimately show ?thesis using fl pp by (simp add: free_place_def wadd_exact fe_ok_def)
    qed (use fl pp in \<open>simp add: free_place_def\<close>)
    then show ?thesis
      using join_next_ok[of xs data osz ys] okx oky blk lt after fl
      by (auto simp: free_insert_def Un_ac)
  qed
qed

lemma grow_in_place_ok:
  assumes ok: "fl_ok fl" and pos: "pos_ok fl pp prev data" and ns: "size_ok ns"
    and blk: "fe_ok (data, osz)" and dis: "block data osz \<inter> fl_set fl = {}"
    and g: "grow_in_place fl pp data osz ns = Some fl1"
  shows "fl_ok fl1 \<and> block data ns \<inter> fl_set fl1 = {}
     \<and> fl_set fl1 \<union> block data ns = fl_set fl \<union> block data osz"
proof -
  from pos obtain xs ys where fl: "fl = xs @ ys" and pp: "length xs = pp"
     and bef: "\<forall>x \<in> set xs. fe_end x \<le> data"
    unfolding pos_ok_def by blast
  have w0: "wadd data osz = data + osz" using blk by (simp add: wadd_exact fe_ok_def)
  from g have "ys \<noteq> []" using fl pp by (auto simp: grow_in_place_def split: if_splits)
  then obtain a s vs where ys: "ys = (a, s) # vs" by (cases ys) auto
  have nth: "fl ! pp = (a, s)" using fl pp ys by (simp add: nth_append)
  have a: "a = data + osz" using g nth w0 by (auto simp: grow_in_place_def split: if_splits)
  have eo: "fe_ok (a, s)" using ok fl ys by simp
  then have w1: "wadd osz s = osz + s" using a by (simp add: wadd_exact fe_ok_def)
  have c: "ns = osz + s \<or> ns + 16 \<le> osz + s"
    using g nth w0 w1 a ns by (auto simp: grow_in_place_def size_ok_def wadd_exact sizeof_free_entry_def
        split: if_splits)
  have d: "fl_set xs \<inter> block a s = {}" "fl_set vs \<inter> block a s = {}"
    using fl_ok_disjoint[of xs "(a, s)" vs] ok fl ys by auto
  have whole: "block data (osz + s) = block data osz \<union> block a s"
    using a by (auto simp: block_def)
  have rest: "fl_set xs \<inter> block data (osz + s) = {}" "fl_set vs \<inter> block data (osz + s) = {}"
    using d dis whole fl ys by auto
  show ?thesis
  proof (cases "ns = osz + s")
    case True
    then have "fl1 = xs @ vs" using g nth w0 w1 a fl pp ys by (auto simp: grow_in_place_def)
    then show ?thesis using ok fl ys rest whole True by (auto simp: fe_ok_def)
  next
    case False
    then have c': "ns + 16 \<le> osz + s" using c by simp
    then have w2: "wadd data ns = data + ns" "wsub (osz + s) ns = osz + s - ns" "wadd ns 16 = ns + 16"
      using eo a ns by (auto simp: wadd_exact wsub_exact fe_ok_def size_ok_def)
    have fl1: "fl1 = xs @ (data + ns, osz + s - ns) # vs"
      using g nth w0 w1 w2 a fl pp ys False c'
      by (simp add: grow_in_place_def list_update_append sizeof_free_entry_def)
    have e2: "fe_ok (data + ns, osz + s - ns)"
      using eo a blk ns c' by (auto simp: fe_ok_def size_ok_def)
    have end2: "data + ns + (osz + s - ns) = a + s" using a c' by simp
    have "\<forall>x \<in> set xs. fe_end x < data + ns"
      using bef ns by (fastforce simp: size_ok_def)
    then have "fl_ok fl1" using ok fl ys fl1 e2 end2 by auto
    moreover have b: "block data (osz + s) = block data ns \<union> block (data + ns) (osz + s - ns)"
      "block data ns \<inter> block (data + ns) (osz + s - ns) = {}"
      using c' by (auto simp: block_def)
    ultimately show ?thesis using fl ys fl1 rest whole by auto
  qed
qed

end
