(* ===== verification/Alloc_Spec.thy ===== *)
theory Alloc_Spec
  imports Prelude
begin

text \<open>
  The contract of a sized allocator, as the nanokernel's own tables rely on it: the caller
  keeps the size of its block and passes it back. The contract is stated over the set \<open>U\<close> of
  the addresses in use. Allocation adds a fresh block to it, release takes the block out, and
  neither touches a byte that stays in use.

  The operations are \<open>_scalloc\<close> and \<open>_sfree\<close>; \<open>rnd\<close> is the size a request is rounded to.
\<close>

definition max_request :: nat where
  "max_request = 2 ^ 30"

locale sized_allocator =
  fixes ainv :: "'h \<Rightarrow> addr set \<Rightarrow> bool"
    and byte :: "'h \<Rightarrow> addr \<Rightarrow> nat"
    and alloc :: "'h \<Rightarrow> nat \<Rightarrow> ('h \<times> addr) option"
    and dealloc :: "'h \<Rightarrow> addr \<Rightarrow> nat \<Rightarrow> 'h option"
    and rnd :: "nat \<Rightarrow> nat"
  assumes alloc_law: "ainv h U \<Longrightarrow> 0 < n \<Longrightarrow> n < max_request \<Longrightarrow>
      \<exists>h' p. alloc h n = Some (h', p)
        \<and> (if p = 0 then ainv h' U
           else 8 dvd p \<and> p + rnd n < 2 ^ 64 \<and> block p (rnd n) \<inter> U = {}
             \<and> ainv h' (U \<union> block p (rnd n)) \<and> (\<forall>i < n. byte h' (p + i) = 0))
        \<and> (\<forall>a \<in> U. byte h' a = byte h a)"
    and dealloc_law: "ainv h U \<Longrightarrow> 0 < n \<Longrightarrow> n < max_request \<Longrightarrow>
      0 < p \<Longrightarrow> 8 dvd p \<Longrightarrow> p + rnd n < 2 ^ 64 \<Longrightarrow> block p (rnd n) \<subseteq> U \<Longrightarrow>
      \<exists>h'. dealloc h p n = Some h' \<and> ainv h' (U - block p (rnd n))
        \<and> (\<forall>a \<in> U - block p (rnd n). byte h' a = byte h a)"
    and dealloc_null: "dealloc h 0 0 = Some h"
    and rnd_le: "0 < n \<Longrightarrow> n < max_request \<Longrightarrow> n \<le> rnd n"
begin

text \<open>What a client owns: nothing, or one block of \<open>n\<close> bytes at \<open>p\<close>.\<close>

definition owned :: "addr \<Rightarrow> nat \<Rightarrow> addr set" where
  "owned p n = (if n = 0 then {} else block p (rnd n))"

definition owns :: "addr set \<Rightarrow> addr \<Rightarrow> nat \<Rightarrow> bool" where
  "owns U p n \<longleftrightarrow> (if n = 0 then p = 0
     else n < max_request \<and> 0 < p \<and> 8 dvd p \<and> p + rnd n < 2 ^ 64 \<and> block p (rnd n) \<subseteq> U)"

lemma alloc_owns:
  assumes "ainv h U" "0 < n" "n < max_request"
  shows "\<exists>h' p. alloc h n = Some (h', p) \<and> (\<forall>a \<in> U. byte h' a = byte h a)
     \<and> (if p = 0 then ainv h' U
        else owned p n \<inter> U = {} \<and> ainv h' (U \<union> owned p n) \<and> owns (U \<union> owned p n) p n)"
  using alloc_law[OF assms] assms by (fastforce simp: owns_def owned_def)

lemma dealloc_owned:
  assumes "ainv h U" "owns U p n"
  shows "\<exists>h'. dealloc h p n = Some h' \<and> ainv h' (U - owned p n)
     \<and> (\<forall>a \<in> U - owned p n. byte h' a = byte h a)"
  using dealloc_law[of h U n p] dealloc_null[of h] assms
  by (auto simp: owns_def owned_def split: if_splits)

lemma owned_range: "owns U p n \<Longrightarrow> 0 < n \<Longrightarrow> p + n < 2 ^ 64 \<and> block p n \<subseteq> owned p n"
  using rnd_le[of n] by (auto simp: owns_def owned_def block_def)

text \<open>
  Moving a table: allocate a larger block, then release the old one. Either nothing changes
  hands, or the old block is replaced by a disjoint new one.
\<close>

lemma alloc_then_dealloc:
  assumes inv: "ainv h U" and own: "owns U p n" and m: "0 < m" "m < max_request"
    and al: "alloc h m = Some (h1, q)" "q \<noteq> 0"
  shows "\<exists>h2. dealloc h1 p n = Some h2 \<and> owned q m \<inter> U = {}
     \<and> ainv h2 ((U - owned p n) \<union> owned q m) \<and> owns ((U - owned p n) \<union> owned q m) q m"
proof -
  from alloc_owns[OF inv m] al have a: "owned q m \<inter> U = {}" "ainv h1 (U \<union> owned q m)"
    "owns (U \<union> owned q m) q m" by auto
  have sub: "owned p n \<subseteq> U" using own by (auto simp: owns_def owned_def split: if_splits)
  have "owns (U \<union> owned q m) p n" using own by (auto simp: owns_def split: if_splits)
  from dealloc_owned[OF a(2) this] obtain h2 where
    d: "dealloc h1 p n = Some h2" "ainv h2 (U \<union> owned q m - owned p n)" by auto
  have "U \<union> owned q m - owned p n = (U - owned p n) \<union> owned q m" using a(1) sub by auto
  moreover have "owns ((U - owned p n) \<union> owned q m) q m"
    using a(3) m by (auto simp: owns_def owned_def)
  ultimately show ?thesis using d a(1) by auto
qed

end

end
