(* ===== verification/Heap_Proofs.thy ===== *)
theory Heap_Proofs
  imports Heap_Lists Alloc_Spec
begin

text \<open>
  The invariant of the heap and the contracts of its entry points. \<open>heap_inv mmap minv h U\<close>
  says that the three free lists are well formed and disjoint, that they and the pregrown area
  are disjoint from the memory \<open>U\<close> that clients hold, and that the memory manager (the parameter
  \<open>mmap\<close> with its own invariant \<open>minv\<close>) accounts for all of it. Every call keeps the invariant
  and moves exactly the blocks it should between \<open>U\<close> and the free lists.
\<close>

section \<open>The invariant\<close>

definition mmap_ok :: "'m mmap_fun \<Rightarrow> ('m \<Rightarrow> addr set \<Rightarrow> bool) \<Rightarrow> bool" where
  "mmap_ok mmap minv \<longleftrightarrow>
     (\<forall>m R n m' r. minv m R \<longrightarrow> mmap m n = (m', r) \<longrightarrow>
        (case r of None \<Rightarrow> minv m' R
         | Some (a, sz) \<Rightarrow> sz = n \<and> 0 < sz \<and> 0 < a \<and> pagesize dvd a \<and> pagesize dvd sz
             \<and> a + sz < 2 ^ 64 \<and> block a sz \<inter> R = {} \<and> minv m' (R \<union> block a sz)))"

definition heap_free :: "'m heap \<Rightarrow> addr set" where
  "heap_free h = fl_set (proc_free_list h) \<union> fl_set (ker_free_list h) \<union> fl_set (ker_crit_list h)"

definition pregrown :: "'m heap \<Rightarrow> addr set" where
  "pregrown h = block (pregrow_start h) (pregrow_size h)"

definition lists_ok :: "'m heap \<Rightarrow> bool" where
  "lists_ok h \<longleftrightarrow> fl_ok (proc_free_list h) \<and> fl_ok (ker_free_list h) \<and> fl_ok (ker_crit_list h)
     \<and> fl_set (proc_free_list h) \<inter> fl_set (ker_free_list h) = {}
     \<and> fl_set (proc_free_list h) \<inter> fl_set (ker_crit_list h) = {}
     \<and> fl_set (ker_free_list h) \<inter> fl_set (ker_crit_list h) = {}"

definition heap_inv :: "'m mmap_fun \<Rightarrow> ('m \<Rightarrow> addr set \<Rightarrow> bool) \<Rightarrow> 'm heap \<Rightarrow> addr set \<Rightarrow> bool" where
  "heap_inv mmap minv h U \<longleftrightarrow> mmap_ok mmap minv \<and> lists_ok h
     \<and> U \<inter> heap_free h = {} \<and> U \<inter> pregrown h = {} \<and> pregrown h \<inter> heap_free h = {}
     \<and> pagesize dvd pregrow_start h \<and> pagesize dvd pregrow_size h
     \<and> (0 < pregrow_size h \<longrightarrow> 0 < pregrow_start h)
     \<and> pregrow_start h + pregrow_size h < 2 ^ 64
     \<and> minv (hmm h) (U \<union> heap_free h \<union> pregrown h)"

lemma heap_list_cases:
  "heap_list ker h = proc_free_list h \<or> heap_list ker h = ker_free_list h \<or> heap_list ker h = ker_crit_list h"
  by (simp add: heap_list_def)

lemma heap_inv_list: "heap_inv mmap minv h U \<Longrightarrow> fl_ok (heap_list ker h)"
  using heap_list_cases[of ker h] by (auto simp: heap_inv_def lists_ok_def)

lemma heap_inv_disj: "heap_inv mmap minv h U \<Longrightarrow> U \<inter> fl_set (heap_list ker h) = {}"
  using heap_list_cases[of ker h] by (auto simp: heap_inv_def heap_free_def)

lemma set_heap_list_simps [simp]:
  "heap_list ker (set_heap_list ker fl h) = fl"
  "crit_start (set_heap_list ker fl h) = crit_start h"
  "crit_end (set_heap_list ker fl h) = crit_end h"
  "alloc_critical (set_heap_list ker fl h) = alloc_critical h"
  "pregrow_start (set_heap_list ker fl h) = pregrow_start h"
  "pregrow_size (set_heap_list ker fl h) = pregrow_size h"
  "hmem (set_heap_list ker fl h) = hmem h"
  "hmm (set_heap_list ker fl h) = hmm h"
  "pregrown (set_heap_list ker fl h) = pregrown h"
  by (simp_all add: heap_list_def set_heap_list_def pregrown_def)

lemma heap_inv_upd:
  assumes inv: "heap_inv mmap minv h U" and ok: "fl_ok fl" and dis: "fl_set fl \<inter> U' = {}"
    and eq: "fl_set fl \<union> U' = fl_set (heap_list ker h) \<union> U"
  shows "heap_inv mmap minv (set_heap_list ker fl h) U'"
proof -
  let ?h = "set_heap_list ker fl h"
  have tot: "U' \<union> heap_free ?h = U \<union> heap_free h"
    using eq by (auto simp: heap_free_def set_heap_list_def heap_list_def split: if_splits)
  have sub: "fl_set fl \<subseteq> fl_set (heap_list ker h) \<union> U" using eq by auto
  have subU: "U' \<subseteq> fl_set (heap_list ker h) \<union> U" using eq by auto
  have "lists_ok ?h"
    using inv ok sub
    by (auto simp: lists_ok_def heap_inv_def heap_free_def set_heap_list_def heap_list_def split: if_splits)
  moreover have "U' \<inter> heap_free ?h = {}"
    using dis inv subU
    by (auto simp: heap_free_def set_heap_list_def heap_list_def lists_ok_def heap_inv_def split: if_splits)
  moreover have "U' \<inter> pregrown h = {}" "pregrown h \<inter> heap_free ?h = {}"
    using inv tot by (auto simp: heap_inv_def)
  ultimately show ?thesis using inv tot by (auto simp: heap_inv_def)
qed

lemma heap_inv_mem [simp]:
  "heap_inv mmap minv (h\<lparr>hmem := m\<rparr>) U \<longleftrightarrow> heap_inv mmap minv h U"
  by (simp add: heap_inv_def lists_ok_def heap_free_def pregrown_def)

lemma and_mask_align: "x < 2 ^ 32 \<Longrightarrow> x AND 0xFFFFFFF8 = x div 8 * (8::nat)"
  using and_high_mask[of x 3 29] by (simp add: mask_eq_exp_minus_1 push_bit_eq_mult)

lemma ALIGN_eq: "n + 7 < 2 ^ 32 \<Longrightarrow> ALIGN n = (n + 7) div 8 * 8"
  by (simp add: ALIGN_def wadd_exact and_mask_align)

lemma ALIGN_bounds:
  assumes "n + 7 < 2 ^ 32"
  shows "n \<le> ALIGN n" "ALIGN n < n + 8" "8 dvd ALIGN n"
  using assms by (auto simp: ALIGN_eq)

lemma round_new_ok:
  assumes "0 < n" "n + 7 < 2 ^ 32"
  shows "size_ok (round_new n)" "n \<le> round_new n" "round_new n \<le> n + 15" "round_new n \<noteq> 0"
  using assms ALIGN_bounds[of n]
  by (auto simp: round_new_def size_ok_def sizeof_free_entry_def)

lemma round_old_eq: "0 < n \<Longrightarrow> n + 7 < 2 ^ 32 \<Longrightarrow> round_old n = round_new n"
  by (auto simp: round_old_def round_new_def sizeof_free_entry_def ALIGN_eq)

lemma round_idem:
  assumes "16 \<le> n" "8 dvd n" "n + 7 < 2 ^ 32"
  shows "round_old n = n"
proof -
  have "ALIGN n = n" using assms by (auto simp: ALIGN_eq elim!: dvdE)
  then show ?thesis using assms by (simp add: round_old_def sizeof_free_entry_def)
qed

lemma roundup_page_ok:
  assumes "n + pagesize \<le> 2 ^ 64" "0 < n"
  shows "n \<le> roundup_page n" "pagesize dvd roundup_page n" "0 < roundup_page n" "roundup_page n < n + pagesize"
  using assms by (auto simp: roundup_page_def wadd_exact pagesize_def)

lemma pagesize_dvd: "pagesize dvd n \<Longrightarrow> 8 dvd n"
  by (auto simp: pagesize_def elim: dvd_trans[rotated])

lemma heap_alloc_ok:
  assumes inv: "heap_inv mmap minv h U" and n: "0 < n" "n + pagesize \<le> 2 ^ 64"
    and a: "heap_alloc mmap h n = (h1, sz, a)"
  shows "lists_ok h1" "heap_list ker h1 = heap_list ker h" "hmem h1 = hmem h"
    "alloc_critical h1 = alloc_critical h" "crit_start h1 = crit_start h" "crit_end h1 = crit_end h"
    "sz = 0 \<Longrightarrow> heap_inv mmap minv h1 U"
    "sz \<noteq> 0 \<Longrightarrow> n \<le> sz \<and> sz < n + pagesize \<and> 0 < a \<and> 8 dvd a \<and> 8 dvd sz \<and> a + sz < 2 ^ 64
       \<and> block a sz \<inter> U = {} \<and> heap_inv mmap minv h1 (U \<union> block a sz)"
proof -
  note r = roundup_page_ok[OF n(2) n(1)]
  show "lists_ok h1" "heap_list ker h1 = heap_list ker h" "hmem h1 = hmem h"
    "alloc_critical h1 = alloc_critical h" "crit_start h1 = crit_start h" "crit_end h1 = crit_end h"
    using a inv
    by (auto simp: heap_alloc_def Let_def lists_ok_def heap_list_def heap_inv_def
        split: if_splits prod.splits option.splits)
  show "sz = 0 \<Longrightarrow> heap_inv mmap minv h1 U"
  proof -
    assume "sz = 0"
    show ?thesis
    proof (cases "roundup_page n \<le> pregrow_size h")
      case True
      then show ?thesis using a r \<open>sz = 0\<close> by (simp add: heap_alloc_def Let_def)
    next
      case False
      obtain m' q where mm: "mmap (hmm h) (roundup_page n) = (m', q)" by (cases "mmap (hmm h) (roundup_page n)")
      have "q = None"
      proof (rule ccontr)
        assume "q \<noteq> None"
        then obtain a' s' where q: "q = Some (a', s')" by auto
        then have "0 < s'" using inv mm unfolding heap_inv_def mmap_ok_def by fastforce
        then show False using a False mm q \<open>sz = 0\<close> by (simp add: heap_alloc_def Let_def)
      qed
      then have h1: "h1 = h\<lparr>hmm := m'\<rparr>" using a False mm by (simp add: heap_alloc_def Let_def)
      have "minv m' (U \<union> heap_free h \<union> pregrown h)"
        using inv mm \<open>q = None\<close> unfolding heap_inv_def mmap_ok_def by fastforce
      then show ?thesis using inv h1 by (auto simp: heap_inv_def lists_ok_def heap_free_def pregrown_def)
    qed
  qed
  show "sz \<noteq> 0 \<Longrightarrow> n \<le> sz \<and> sz < n + pagesize \<and> 0 < a \<and> 8 dvd a \<and> 8 dvd sz \<and> a + sz < 2 ^ 64
       \<and> block a sz \<inter> U = {} \<and> heap_inv mmap minv h1 (U \<union> block a sz)"
  proof -
    assume sz: "sz \<noteq> 0"
    let ?R = "U \<union> heap_free h \<union> pregrown h"
    show ?thesis
    proof (cases "roundup_page n \<le> pregrow_size h")
      case True
      then have e: "sz = roundup_page n" "a = pregrow_start h"
        "h1 = h\<lparr>pregrow_size := pregrow_size h - sz, pregrow_start := wadd (pregrow_start h) sz\<rparr>"
        using a by (auto simp: heap_alloc_def Let_def)
      have w: "wadd (pregrow_start h) sz = pregrow_start h + sz"
        using inv True e by (simp add: heap_inv_def wadd_exact)
      have p: "pregrown h = block a sz \<union> pregrown h1" "block a sz \<inter> pregrown h1 = {}"
        using e w True by (auto simp: pregrown_def block_def)
      have f: "heap_free h1 = heap_free h" "lists_ok h1 = lists_ok h"
        using e by (auto simp: heap_free_def lists_ok_def)
      have "heap_inv mmap minv h1 (U \<union> block a sz)"
      proof -
        have "U \<union> block a sz \<union> heap_free h1 \<union> pregrown h1 = ?R" using p f by auto
        moreover have "pagesize dvd pregrow_start h1 \<and> pagesize dvd pregrow_size h1"
          using inv e w r by (auto simp: heap_inv_def)
        moreover have "pregrow_start h1 + pregrow_size h1 < 2 ^ 64" "0 < pregrow_size h1 \<longrightarrow> 0 < pregrow_start h1"
          using inv e w True by (auto simp: heap_inv_def)
        ultimately show ?thesis using inv e f p by (auto simp: heap_inv_def)
      qed
      moreover have "n \<le> sz" "sz < n + pagesize" "0 < a" "8 dvd a" "8 dvd sz" "a + sz < 2 ^ 64" "block a sz \<inter> U = {}"
        using inv e r True p sz by (auto simp: heap_inv_def intro: pagesize_dvd)
      ultimately show ?thesis by simp
    next
      case False
      obtain m' q where mm: "mmap (hmm h) (roundup_page n) = (m', q)" by (cases "mmap (hmm h) (roundup_page n)")
      have q: "q = Some (a, sz)" "h1 = h\<lparr>hmm := m'\<rparr>"
        using a False mm sz by (auto simp: heap_alloc_def Let_def split: option.splits)
      have k: "sz = roundup_page n" "0 < a" "pagesize dvd a" "pagesize dvd sz" "a + sz < 2 ^ 64"
         "block a sz \<inter> ?R = {}" "minv m' (?R \<union> block a sz)"
        using inv mm q unfolding heap_inv_def mmap_ok_def by fastforce+
      have f: "heap_free h1 = heap_free h" "lists_ok h1 = lists_ok h" "pregrown h1 = pregrown h"
        using q by (auto simp: heap_free_def lists_ok_def pregrown_def)
      have "U \<union> block a sz \<union> heap_free h1 \<union> pregrown h1 = ?R \<union> block a sz" using f by auto
      then have "heap_inv mmap minv h1 (U \<union> block a sz)"
        using inv q k f by (auto simp: heap_inv_def)
      then show ?thesis using k r by (auto intro: pagesize_dvd)
    qed
  qed
qed

section \<open>One pass\<close>

lemma scan_no_fit:
  "scan data ns fl n fit = Some (pp, None) \<Longrightarrow> ns \<noteq> 0 \<Longrightarrow>
     fit = None \<and> (\<forall>i < length fl. n + i < pp \<longrightarrow> \<not> fits ns (snd (fl ! i)))"
proof (induction data ns fl n fit rule: scan.induct)
  case (1 data ns pp' fit)
  then show ?case by simp
next
  case (2 data ns p sz rest n fit)
  have b: "better_fit ns sz n fit = None \<Longrightarrow> fit = None \<and> \<not> fits ns sz"
    using "2.prems"(2) by (auto simp: better_fit_def fits_def split: if_splits)
  show ?case
  proof (cases "data \<noteq> 0 \<and> data < p")
    case True
    then show ?thesis using "2.prems" b by (auto split: if_splits)
  next
    case False
    then have s: "scan data ns rest (Suc n) (better_fit ns sz n fit) = Some (pp, None)"
      and nc: "\<not> (data \<noteq> 0 \<and> p \<le> data \<and> data < wadd p sz)"
      using "2.prems" by (auto split: if_splits)
    from "2.IH"[OF nc False s "2.prems"(2)] b show ?thesis
      by (auto simp: nth_Cons split: nat.splits)
  qed
qed

lemma fl_set_block_entry:
  assumes ok: "fl_ok fl" and sub: "block a n \<subseteq> fl_set fl" and n: "0 < n"
  shows "\<exists>e \<in> set fl. n \<le> snd e"
proof -
  have "a \<in> fl_set fl" using sub n by (auto simp: block_def)
  then obtain e where e: "e \<in> set fl" "fst e \<le> a" "a < fe_end e" by (auto simp: in_fl_set)
  have "a + n \<le> fe_end e"
  proof (rule ccontr)
    assume "\<not> a + n \<le> fe_end e"
    then have "fe_end e \<in> fl_set fl" using sub e by (auto simp: block_def)
    then obtain e' where e': "e' \<in> set fl" "fst e' \<le> fe_end e" "fe_end e < fe_end e'"
      by (auto simp: in_fl_set)
    obtain us vs where fl: "fl = us @ e # vs" using e(1) by (auto simp: in_set_conv_decomp)
    have "e' \<in> set us \<or> e' = e \<or> e' \<in> set vs" using e' fl by auto
    then show False using ok fl e' by (auto simp: fe_ok_def)
  qed
  then show ?thesis using e by (intro bexI[of _ e]) auto
qed

definition pass_ok :: "nat \<Rightarrow> 'm heap \<Rightarrow> addr set \<Rightarrow> pass \<Rightarrow> bool" where
  "pass_ok ker h U b \<longleftrightarrow>
     (if bdata b \<noteq> 0 then fe_ok (bdata b, bosz b) \<and> block (bdata b) (bosz b) \<subseteq> U
        \<and> pos_ok (heap_list ker h) (bpp b) (bprev b) (bdata b)
      else bosz b = 0)
     \<and> (bns b \<noteq> 0 \<longrightarrow> size_ok (bns b))"

text \<open>
  What a call promises: the block \<open>data\<close> of \<open>os\<close> bytes leaves the memory in use and a block
  of \<open>ns\<close> bytes enters it, with the contents they share; a failed call changes nothing.
\<close>

definition moved :: "'m mmap_fun \<Rightarrow> ('m \<Rightarrow> addr set \<Rightarrow> bool) \<Rightarrow> 'm heap \<Rightarrow> addr set \<Rightarrow> addr \<Rightarrow> nat
    \<Rightarrow> nat \<Rightarrow> 'm heap \<Rightarrow> addr \<Rightarrow> bool" where
  "moved mmap minv h U data os ns h' q \<longleftrightarrow>
     (if q = 0 then heap_inv mmap minv h' U \<and> hmem h' = hmem h
      else fe_ok (q, ns) \<and> block q ns \<inter> (U - block data os) = {}
        \<and> heap_inv mmap minv h' ((U - block data os) \<union> block q ns)
        \<and> (\<forall>i < min ns os. hmem h' (q + i) = hmem h (data + i))
        \<and> (\<forall>a. a \<notin> block q ns \<longrightarrow> hmem h' a = hmem h a))"

lemma IS_CRIT_set_heap_list [simp]: "IS_CRIT (set_heap_list ker fl h) p = IS_CRIT h p"
  by (simp add: IS_CRIT_def)

lemma memcpy_simps [simp]:
  "heap_list ker (memcpy d s n h) = heap_list ker h"
  "alloc_critical (memcpy d s n h) = alloc_critical h"
  "crit_start (memcpy d s n h) = crit_start h"
  "crit_end (memcpy d s n h) = crit_end h"
  "heap_inv mmap minv (memcpy d s n h) U = heap_inv mmap minv h U"
  "hmem (memcpy d s n h) = (\<lambda>a. if d \<le> a \<and> a < d + n then hmem h (s + (a - d)) else hmem h a)"
  by (simp_all add: memcpy_def heap_list_def)

lemma pass_tail_ok:
  assumes inv: "heap_inv mmap minv h U" and p: "pass_ok ker h U b"
  shows "\<exists>h1. pass_tail ker h b = Some h1
     \<and> heap_inv mmap minv h1 (U - block (bdata b) (bosz b))
     \<and> (bdata b \<noteq> 0 \<longrightarrow> fl_set (heap_list ker h1) = fl_set (heap_list ker h) \<union> block (bdata b) (bosz b))
     \<and> alloc_critical h1 = alloc_critical h \<and> crit_start h1 = crit_start h \<and> crit_end h1 = crit_end h
     \<and> hmem h1 = (if bns b \<noteq> 0 \<and> bdata b \<noteq> 0 \<and> bnew b \<noteq> 0
         then hmem (memcpy (bnew b) (bdata b) (min (bns b) (bosz b)) h) else hmem h)"
proof -
  let ?h = "if bns b \<noteq> 0 \<and> bdata b \<noteq> 0 \<and> bnew b \<noteq> 0
                then memcpy (bnew b) (bdata b) (min (bns b) (bosz b)) h else h"
  have inv': "heap_inv mmap minv ?h U" and l: "heap_list ker ?h = heap_list ker h" using inv by auto
  show ?thesis
  proof (cases "bdata b = 0")
    case True
    then show ?thesis using p inv by (simp add: pass_tail_def pass_ok_def block_def)
  next
    case False
    have ok: "fl_ok (heap_list ker h)" using inv by (rule heap_inv_list)
    have "block (bdata b) (bosz b) \<inter> fl_set (heap_list ker h) = {}"
      using p False heap_inv_disj[OF inv, of ker] by (auto simp: pass_ok_def)
    then obtain fl1 where f: "free_insert (heap_list ker h) (bpp b) (bprev b) (bdata b) (bosz b) = Some fl1"
      "fl_ok fl1" "fl_set fl1 = fl_set (heap_list ker h) \<union> block (bdata b) (bosz b)"
      using free_insert_ok[OF ok] p False by (metis pass_ok_def)
    have t: "pass_tail ker h b = Some (set_heap_list ker fl1 ?h)"
      using False f(1) l by (simp add: pass_tail_def Let_def)
    have "heap_inv mmap minv (set_heap_list ker fl1 ?h) (U - block (bdata b) (bosz b))"
    proof (rule heap_inv_upd[OF inv' f(2)])
      show "fl_set fl1 \<inter> (U - block (bdata b) (bosz b)) = {}"
        using f(3) heap_inv_disj[OF inv, of ker] by auto
      show "fl_set fl1 \<union> (U - block (bdata b) (bosz b)) = fl_set (heap_list ker ?h) \<union> U"
        using f(3) l p False by (auto simp: pass_ok_def)
    qed
    then show ?thesis using t f(3) by simp
  qed
qed

lemma pass_head_ok:
  assumes inv: "heap_inv mmap minv h U"
    and d: "if data \<noteq> 0 then osz \<noteq> 0 \<and> fe_ok (data, os) \<and> block data os \<subseteq> U \<and> os = round_old osz
            else osz = 0 \<and> os = 0"
    and ns: "ns = 0 \<or> size_ok ns"
  shows "(data \<noteq> 0 \<and> ns = os \<and> pass_head (heap_list ker h) data osz ns = Some Head_Done)
    \<or> (\<exists>b. pass_head (heap_list ker h) data osz ns = Some (Head_Go b) \<and> pass_ok ker h U b
        \<and> (data \<noteq> 0 \<longrightarrow> bscan b)
        \<and> (if data \<noteq> 0 \<and> ns \<noteq> 0 \<and> ns + 16 \<le> os
           then bnew b = data \<and> bdata b = data + ns \<and> bosz b = os - ns \<and> bns b = 0
           else bnew b = 0 \<and> bdata b = data \<and> bosz b = os \<and> bns b = ns
             \<and> (ns \<noteq> 0 \<longrightarrow> (let start = (case bfit b of Some j \<Rightarrow> j | None \<Rightarrow> bpp b)
                 in find_fit ns (drop start (heap_list ker h)) start = None
                     \<longleftrightarrow> (\<forall>e \<in> set (heap_list ker h). \<not> fits ns (snd e))))))"
proof (cases "data = 0")
  case True
  then show ?thesis using d ns
    by (auto simp: pass_head_def pass_ok_def find_fit_None Let_def)
next
  case False
  let ?fl = "heap_list ker h"
  have ok: "fl_ok ?fl" using inv by (rule heap_inv_list)
  have blk: "fe_ok (data, os)" "block data os \<subseteq> U" "os = round_old osz" "osz \<noteq> 0" using d False by auto
  have dis: "block data os \<inter> fl_set ?fl = {}" using blk heap_inv_disj[OF inv, of ker] by auto
  have wns: "ns \<noteq> 0 \<Longrightarrow> wadd ns sizeof_free_entry = ns + 16"
    using ns by (auto simp: size_ok_def wadd_exact sizeof_free_entry_def)
  show ?thesis
  proof (cases "ns = os")
    case True
    then show ?thesis using False blk by (simp add: pass_head_def)
  next
    case ne: False
    show ?thesis
    proof (cases "ns \<noteq> 0 \<and> ns + 16 \<le> os")
      case True
      have w: "wadd data ns = data + ns" "wsub os ns = os - ns"
        using True blk by (auto simp: wadd_exact wsub_exact fe_ok_def)
      have e: "fe_ok (data + ns, os - ns)" using blk ns True by (auto simp: fe_ok_def size_ok_def)
      have sub: "block (data + ns) (os - ns) \<subseteq> block data os" using True by (auto simp: block_def)
      have "data + ns \<in> block data os" using True by (simp add: block_def)
      then have nin: "data + ns \<notin> fl_set ?fl" using dis by blast
      obtain fit' where s: "scan (data + ns) 0 ?fl 0 None =
          Some (length (filter (\<lambda>e. fe_end e \<le> data + ns) ?fl), fit')"
        using scan_Some[OF ok _ nin, of 0 0 None] False by auto
      note ps = pos_filter[OF ok nin]
      show ?thesis using False ne blk wns True w s ps e sub
        by (auto simp: pass_head_def pass_ok_def Let_def)
    next
      case nsh: False
      have "data \<in> block data os" using blk by (simp add: block_def fe_ok_def)
      then have nin: "data \<notin> fl_set ?fl" using dis by blast
      obtain fit' where s: "scan data ns ?fl 0 None =
          Some (length (filter (\<lambda>e. fe_end e \<le> data) ?fl), fit')"
        using scan_Some[OF ok _ nin, of ns 0 None] False by auto
      note ps = pos_filter[OF ok nin]
      let ?pp = "length (filter (\<lambda>e. fe_end e \<le> data) ?fl)"
      let ?st = "case fit' of Some j \<Rightarrow> j | None \<Rightarrow> ?pp"
      have ff: "find_fit ns (drop ?st ?fl) ?st = None \<longleftrightarrow> (\<forall>e \<in> set ?fl. \<not> fits ns (snd e))"
        if nz: "ns \<noteq> 0"
      proof (cases fit')
        case None
        then have "\<forall>i < length ?fl. i < ?pp \<longrightarrow> \<not> fits ns (snd (?fl ! i))"
          using scan_no_fit[of data ns ?fl 0 None] s nz by auto
        then have "\<forall>e \<in> set (take ?pp ?fl). \<not> fits ns (snd e)"
          by (rule ball_take_nth)
        moreover have "\<forall>e \<in> set ?fl. e \<in> set (take ?pp ?fl) \<or> e \<in> set (drop ?pp ?fl)"
          by (metis append_take_drop_id Un_iff set_append)
        ultimately show ?thesis using None by (auto simp: find_fit_None dest: in_set_dropD)
      next
        case (Some j)
        then obtain i where "i < length ?fl" "j = i" and f: "fits ns (snd (?fl ! i))"
          using scan_fit[of data ns ?fl 0 None ?pp j] s nz by auto
        then have m: "?fl ! j \<in> set (drop j ?fl)"
          by (metis Cons_nth_drop_Suc list.set_intros(1))
        then have "?fl ! j \<in> set ?fl" by (rule in_set_dropD)
        moreover have "find_fit ns (drop j ?fl) j \<noteq> None"
          using m f \<open>j = i\<close> unfolding find_fit_None by blast
        ultimately show ?thesis using Some f \<open>j = i\<close> by (simp only: option.case) blast
      qed
      define b where "b = \<lparr>bdata = data, bosz = os, bns = ns, bnew = 0, bpp = ?pp,
        bprev = (0 < ?pp), bfit = fit', bscan = True\<rparr>"
      have nc: "(0 < ns \<and> wadd ns sizeof_free_entry \<le> os) = False" using nsh wns by auto
      have "pass_head ?fl data osz ns = Some (Head_Go b)"
        using False ne blk(4) nc s by (auto simp: pass_head_def b_def Let_def simp flip: blk(3))
      moreover have "pass_ok ker h U b"
        using False blk(1,2) ps ns by (auto simp: pass_ok_def b_def)
      moreover have "bscan b" "bnew b = 0" "bdata b = data" "bosz b = os" "bns b = ns"
        "bfit b = fit'" "bpp b = ?pp" by (simp_all add: b_def)
      ultimately show ?thesis using nsh ff by (intro disjI2 exI[of _ b]) (simp add: Let_def cong: option.case_cong)
    qed
  qed
qed

abbreviation pass_ker :: "bool \<Rightarrow> nat \<Rightarrow> 'm heap \<Rightarrow> addr \<Rightarrow> nat" where
  "pass_ker ink ker h data \<equiv> (if \<not> ink then 0 else if ker \<le> 1 \<and> \<not> IS_CRIT h data then 1 else 2)"

lemma free_pass:
  assumes inv: "heap_inv mmap minv h U" and blk: "data \<noteq> 0" "fe_ok (data, os)" "block data os \<subseteq> U"
    and os: "os = round_old osz" "osz \<noteq> 0"
  shows "\<exists>h1. addmem_pass ink alloc ker h data osz 0 = Some (Ret h1 0)
    \<and> heap_inv mmap minv h1 (U - block data os) \<and> hmem h1 = hmem h
    \<and> crit_start h1 = crit_start h \<and> crit_end h1 = crit_end h
    \<and> fl_set (heap_list (pass_ker ink ker h data) h1) =
        fl_set (heap_list (pass_ker ink ker h data) h) \<union> block data os"
proof -
  let ?k = "pass_ker ink ker h data"
  have os16: "os \<noteq> 0" using blk by (simp add: fe_ok_def)
  obtain b where hd: "pass_head (heap_list ?k h) data osz 0 = Some (Head_Go b)" and p: "pass_ok ?k h U b"
    and b: "bnew b = 0" "bdata b = data" "bosz b = os" "bns b = 0"
    using pass_head_ok[OF inv, of data osz os 0 ?k] blk os os16 by auto
  obtain h1 where t: "pass_tail ?k h b = Some h1" and i: "heap_inv mmap minv h1 (U - block data os)"
    and l: "fl_set (heap_list ?k h1) = fl_set (heap_list ?k h) \<union> block data os" and m: "hmem h1 = hmem h"
    and c: "crit_start h1 = crit_start h" "crit_end h1 = crit_end h"
    using pass_tail_ok[OF inv p] b blk by auto
  have "addmem_pass ink alloc ker h data osz 0 = Some (Ret h1 0)"
    unfolding addmem_pass_def Let_def using hd b t by (simp add: pass_ret_def)
  then show ?thesis using i l m c by blast
qed

lemma copied_moved:
  assumes p: "pass_ok ker h U b" and q: "fe_ok (q, bns b)"
    and dis: "block q (bns b) \<inter> U = {}"
    and inv: "heap_inv mmap minv h1 ((U - block (bdata b) (bosz b)) \<union> block q (bns b))"
    and m: "hmem h1 = (if bdata b \<noteq> 0 then hmem (memcpy q (bdata b) (min (bns b) (bosz b)) h) else hmem h)"
  shows "moved mmap minv h U (bdata b) (bosz b) (bns b) h1 q"
proof -
  have "\<forall>i < min (bns b) (bosz b). hmem h1 (q + i) = hmem h (bdata b + i)"
    using m p by (auto simp: pass_ok_def)
  moreover have "\<forall>a. a \<notin> block q (bns b) \<longrightarrow> hmem h1 a = hmem h a"
    using m by (auto simp: block_def)
  ultimately show ?thesis using q dis inv by (auto simp: moved_def fe_ok_def)
qed

definition refused :: "'m mmap_fun \<Rightarrow> 'm heap \<Rightarrow> nat \<Rightarrow> bool" where
  "refused mmap h ns \<longleftrightarrow> fst (snd (heap_alloc mmap h (ns + sizeof_free_entry))) = 0"

definition end_ok :: "'m mmap_fun \<Rightarrow> ('m \<Rightarrow> addr set \<Rightarrow> bool) \<Rightarrow> nat \<Rightarrow> 'm heap \<Rightarrow> addr set
    \<Rightarrow> addr \<Rightarrow> nat \<Rightarrow> nat \<Rightarrow> 'm pass_end \<Rightarrow> bool" where
  "end_ok mmap minv ker h U data os ns r =
     (case r of
        Ret h1 q \<Rightarrow> moved mmap minv h U data os ns h1 q \<and> (q = 0 \<longrightarrow> ker \<noteq> 2 \<longrightarrow> refused mmap h ns)
      | Excess h1 q add sz \<Rightarrow> ker = 1 \<and> q \<noteq> 0 \<and> add \<noteq> 0 \<and> fe_ok (add, sz) \<and> sz + 7 < 2 ^ 32
          \<and> (\<forall>h2. heap_inv mmap minv h2 ((U - block data os) \<union> block q ns)
                \<longrightarrow> hmem h2 = hmem h1 \<longrightarrow> moved mmap minv h U data os ns h2 q)
          \<and> block add sz \<inter> ((U - block data os) \<union> block q ns) = {}
          \<and> heap_inv mmap minv h1 ((U - block data os) \<union> block q ns \<union> block add sz)
      | Retry_Crit h1 d os' n \<Rightarrow> ker = 1 \<and> refused mmap h ns \<and> d = data \<and> os' = os \<and> n = ns
          \<and> heap_inv mmap minv h1 U \<and> hmem h1 = hmem h
      | Refill h1 q sz d os' n \<Rightarrow> ker = 0 \<and> d = data \<and> os' = os \<and> n = ns
          \<and> q \<noteq> 0 \<and> fe_ok (q, sz) \<and> sz + 7 < 2 ^ 32 \<and> n + 16 \<le> sz \<and> block q sz \<inter> U = {}
          \<and> heap_inv mmap minv h1 (U \<union> block q sz) \<and> hmem h1 = hmem h)"

lemma pass_refill_ok:
  assumes inv: "heap_inv mmap minv h U" and p: "pass_ok ker h U b" and ns: "bns b \<noteq> 0" "bns b < 2 ^ 31"
    and ker: "ker \<le> 2"
  shows "\<exists>r. pass_refill (heap_alloc mmap) ker h b = Some r \<and> end_ok mmap minv ker h U (bdata b) (bosz b) (bns b) r"
proof (cases "ker = 2")
  case True
  then show ?thesis using inv by (simp add: pass_refill_def end_ok_def moved_def)
next
  case False
  let ?n = "bns b" let ?D = "block (bdata b) (bosz b)"
  have n: "size_ok ?n" using p ns by (simp add: pass_ok_def)
  have w: "wadd ?n sizeof_free_entry = ?n + 16" using n by (simp add: size_ok_def wadd_exact sizeof_free_entry_def)
  obtain h1 sz q where a: "heap_alloc mmap h (?n + 16) = (h1, sz, q)" by (metis prod_cases3)
  have bnd: "0 < ?n + 16" "?n + 16 + pagesize \<le> 2 ^ 64" using ns by (auto simp: pagesize_def)
  note ha = heap_alloc_ok[OF inv bnd a]
  show ?thesis
  proof (cases "sz = 0")
    case True
    then show ?thesis using False a w ha(3,4,7) ker
      by (auto simp: pass_refill_def end_ok_def moved_def refused_def sizeof_free_entry_def)
  next
    case sz: False
    note g = ha(8)[OF sz]
    have fe: "fe_ok (q, sz)" using g n by (auto simp: fe_ok_def size_ok_def)
    have szb: "sz + 7 < 2 ^ 32" using g ns by (auto simp: pagesize_def)
    show ?thesis
    proof (cases "ker = 0")
      case True
      then show ?thesis using a w sz g ha(3) fe szb by (simp add: pass_refill_def end_ok_def)
    next
      case k: False
      then have k1: "ker = 1" using False ker by simp
      let ?b = "b\<lparr>bnew := q\<rparr>"
      have inv1: "heap_inv mmap minv h1 (U \<union> block q sz)" using g by simp
      have p1: "pass_ok ker h1 (U \<union> block q sz) ?b"
        using p ha(2)[of ker] by (auto simp: pass_ok_def)
      obtain h2 where t: "pass_tail ker h1 ?b = Some h2"
        and i2: "heap_inv mmap minv h2 (U \<union> block q sz - ?D)"
        and m2: "hmem h2 = (if ?n \<noteq> 0 \<and> bdata b \<noteq> 0 \<and> q \<noteq> 0
            then hmem (memcpy q (bdata b) (min ?n (bosz b)) h1) else hmem h1)"
        using pass_tail_ok[OF inv1 p1] by auto
      have dsub: "?D \<subseteq> U" using p by (auto simp: pass_ok_def block_def split: if_splits)
      have ws: "wsub sz ?n = sz - ?n" "wadd q ?n = q + ?n"
        using g by (auto simp: wsub_exact wadd_exact)
      have spl: "block q sz = block q ?n \<union> block (q + ?n) (sz - ?n)"
        "block q ?n \<inter> block (q + ?n) (sz - ?n) = {}" using g by (auto simp: block_def)
      have u: "U \<union> block q sz - ?D = (U - ?D) \<union> block q ?n \<union> block (q + ?n) (sz - ?n)"
        using spl dsub g by auto
      have "fe_ok (q + ?n, sz - ?n)" using fe g n by (auto simp: fe_ok_def size_ok_def)
      moreover have "block (q + ?n) (sz - ?n) \<inter> ((U - ?D) \<union> block q ?n) = {}"
        using spl g by auto
      moreover have "moved mmap minv h U (bdata b) (bosz b) ?n h3 q"
        if "heap_inv mmap minv h3 ((U - ?D) \<union> block q ?n)" "hmem h3 = hmem h2" for h3
      proof (rule copied_moved[OF p])
        show "block q ?n \<inter> U = {}" using g spl by auto
        show "hmem h3 = (if bdata b \<noteq> 0 then hmem (memcpy q (bdata b) (min ?n (bosz b)) h) else hmem h)"
          using that(2) m2 ha(3) ns g by auto
        show "fe_ok (q, ?n)" using g n by (auto simp: fe_ok_def size_ok_def)
      qed (use that in auto)
      ultimately show ?thesis
        using k1 a w sz t ws i2 u g szb
        by (simp add: pass_refill_def end_ok_def)
    qed
  qed
qed

lemma pass_alloc_ok:
  assumes inv: "heap_inv mmap minv h U" and p: "pass_ok ker h U b" and ns: "bns b \<noteq> 0" "bns b < 2 ^ 31"
    and ker: "ker \<le> 2"
  shows "\<exists>r. pass_alloc (Some (heap_alloc mmap)) ker h b = Some r
    \<and> end_ok mmap minv ker h U (bdata b) (bosz b) (bns b) r
    \<and> ((let start = (case bfit b of Some j \<Rightarrow> j | None \<Rightarrow> bpp b)
         in find_fit (bns b) (drop start (heap_list ker h)) start \<noteq> None)
        \<longrightarrow> (\<exists>h1 q. r = Ret h1 q \<and> q \<noteq> 0))"
proof -
  let ?fl = "heap_list ker h" let ?st = "case bfit b of Some j \<Rightarrow> j | None \<Rightarrow> bpp b"
  let ?D = "block (bdata b) (bosz b)"
  show ?thesis
  proof (cases "find_fit (bns b) (drop ?st ?fl) ?st")
    case None
    then show ?thesis using pass_refill_ok[OF inv p ns ker]
      by (simp add: pass_alloc_def Let_def)
  next
    case (Some j)
    then obtain i where i: "i < length (drop ?st ?fl)" "j = ?st + i" "fits (bns b) (snd (drop ?st ?fl ! i))"
      using find_fit_Some by blast
    then have j: "j < length ?fl" and fit: "fits (bns b) (snd (?fl ! j))" by auto
    have ok: "fl_ok ?fl" using inv by (rule heap_inv_list)
    have so: "size_ok (bns b)" using p ns by (simp add: pass_ok_def)
    let ?q = "fst (?fl ! j)"
    obtain fl1 pp1 prev1 where tf: "take_fit (bns b) ?fl j (bpp b) (bprev b) = (fl1, pp1, prev1)"
      by (metis prod_cases3)
    have t: "fl_ok fl1" "fl_set fl1 = fl_set ?fl - block ?q (bns b)" "block ?q (bns b) \<subseteq> fl_set ?fl"
      using take_fit_ok[OF ok j fit so tf] by auto
    have qok: "fe_ok (?fl ! j)" using ok j by (auto intro: fl_ok_entry)
    let ?h1 = "set_heap_list ker fl1 h" let ?U1 = "U \<union> block ?q (bns b)"
    let ?b = "b\<lparr>bnew := ?q, bpp := pp1, bprev := prev1\<rparr>"
    have dis: "block ?q (bns b) \<inter> U = {}" using t(3) heap_inv_disj[OF inv, of ker] by auto
    have inv1: "heap_inv mmap minv ?h1 ?U1"
      by (rule heap_inv_upd[OF inv t(1)]) (use t(2,3) heap_inv_disj[OF inv, of ker] in auto)
    have p1: "pass_ok ker ?h1 ?U1 ?b"
      using p take_fit_pos[OF ok j fit so tf] by (auto simp: pass_ok_def)
    obtain h2 where pt: "pass_tail ker ?h1 ?b = Some h2"
      and i2: "heap_inv mmap minv h2 (?U1 - ?D)"
      and m2: "hmem h2 = (if bns b \<noteq> 0 \<and> bdata b \<noteq> 0 \<and> ?q \<noteq> 0
          then hmem (memcpy ?q (bdata b) (min (bns b) (bosz b)) ?h1) else hmem ?h1)"
      using pass_tail_ok[OF inv1 p1] by auto
    have dsub: "?D \<subseteq> U" using p by (auto simp: pass_ok_def block_def split: if_splits)
    have u: "?U1 - ?D = (U - ?D) \<union> block ?q (bns b)" using dsub dis by auto
    have "moved mmap minv h U (bdata b) (bosz b) (bns b) h2 ?q"
    proof (rule copied_moved[OF p])
      show "hmem h2 = (if bdata b \<noteq> 0 then hmem (memcpy ?q (bdata b) (min (bns b) (bosz b)) h) else hmem h)"
        using m2 ns qok by (auto simp: fe_ok_def)
      show "fe_ok (?q, bns b)" using qok fit so by (auto simp: fe_ok_def size_ok_def fits_iff)
    qed (use dis i2 u in auto)
    then show ?thesis using Some tf pt qok
      by (simp add: pass_alloc_def Let_def pass_ret_def end_ok_def fe_ok_def)
  qed
qed

definition data_ok :: "addr set \<Rightarrow> addr \<Rightarrow> nat \<Rightarrow> nat \<Rightarrow> bool" where
  "data_ok U data osz os \<longleftrightarrow>
     (if data \<noteq> 0 then osz \<noteq> 0 \<and> fe_ok (data, os) \<and> block data os \<subseteq> U \<and> os = round_old osz
      else osz = 0 \<and> os = 0)"

lemma grow_fe_ok:
  assumes ok: "fl_ok fl" and d: "fe_ok (data, os)" and ns: "size_ok ns"
    and sub: "block data ns \<subseteq> fl_set fl \<union> block data os"
  shows "fe_ok (data, ns)"
proof -
  have "data + ns - 1 \<in> fl_set fl \<union> block data os"
    by (rule subsetD[OF sub]) (use ns in \<open>auto simp: block_def size_ok_def\<close>)
  then have "data + ns < 2 ^ 64"
    using ok d by (fastforce simp: in_fl_set block_def fe_ok_def dest: fl_ok_entry)
  then show ?thesis using d ns by (simp add: fe_ok_def size_ok_def)
qed

lemma addmem_pass_ok:
  fixes ink :: bool and ker :: nat and h :: "'m heap"
  assumes inv: "heap_inv mmap minv h U" and d: "data_ok U data osz os"
    and ns: "size_ok ns" "ns < 2 ^ 31"
  defines "k \<equiv> pass_ker ink ker h data"
  shows "\<exists>r. addmem_pass ink (Some (heap_alloc mmap)) ker h data osz ns = Some r
    \<and> end_ok mmap minv k h U data os ns r
    \<and> ((\<exists>e \<in> set (heap_list k h). fits ns (snd e)) \<longrightarrow> (\<exists>h1 q. r = Ret h1 q \<and> q \<noteq> 0))"
proof -
  have ns0: "ns \<noteq> 0" using ns by (simp add: size_ok_def)
  have k2: "k \<le> 2" by (simp add: k_def)
  have unf: "addmem_pass ink (Some (heap_alloc mmap)) ker h data osz ns =
     (case pass_head (heap_list k h) data osz ns of
          None \<Rightarrow> None
        | Some Head_Done \<Rightarrow> Some (Ret h data)
        | Some (Head_Go b) \<Rightarrow>
            if bns b = 0 then pass_ret k h b (bnew b)
            else if null_next (heap_list k h) b then None
            else
              (case (if bdata b \<noteq> 0 \<and> bscan b
                     then grow_in_place (heap_list k h) (bpp b) (bdata b) (bosz b) (bns b) else None) of
                 Some fl1 \<Rightarrow> Some (Ret (set_heap_list k fl1 h) (bdata b))
               | None \<Rightarrow> pass_alloc (Some (heap_alloc mmap)) k h b))"
    by (simp only: addmem_pass_def Let_def k_def)
  have dd: "if data \<noteq> 0 then osz \<noteq> 0 \<and> fe_ok (data, os) \<and> block data os \<subseteq> U \<and> os = round_old osz
            else osz = 0 \<and> os = 0" using d by (simp add: data_ok_def)
  from pass_head_ok[OF inv dd, of ns k] ns(1)
  consider (same) "data \<noteq> 0" "ns = os" "pass_head (heap_list k h) data osz ns = Some Head_Done"
    | (shrink) b where "pass_head (heap_list k h) data osz ns = Some (Head_Go b)" "pass_ok k h U b"
        "data \<noteq> 0" "ns + 16 \<le> os" "bnew b = data" "bdata b = data + ns" "bosz b = os - ns" "bns b = 0"
    | (go) b where "pass_head (heap_list k h) data osz ns = Some (Head_Go b)" "pass_ok k h U b"
        "data \<noteq> 0 \<longrightarrow> bscan b" "bdata b = data" "bosz b = os" "bns b = ns"
        "(let start = (case bfit b of Some j \<Rightarrow> j | None \<Rightarrow> bpp b)
                 in find_fit ns (drop start (heap_list k h)) start = None
                     \<longleftrightarrow> (\<forall>e \<in> set (heap_list k h). \<not> fits ns (snd e)))"
    using ns0 by (fastforce split: if_splits)
  then show ?thesis
  proof cases
    case same
    have "U - block data os \<union> block data os = U" using dd same by auto
    then have "moved mmap minv h U data os ns h data"
      using same dd inv by (auto simp: moved_def fe_ok_def)
    then show ?thesis using unf same by (simp add: end_ok_def)
  next
    case shrink
    obtain h1 where t: "pass_tail k h b = Some h1"
      and i: "heap_inv mmap minv h1 (U - block (data + ns) (os - ns))" and m: "hmem h1 = hmem h"
      using pass_tail_ok[OF inv shrink(2)] shrink by auto
    have "block data os = block data ns \<union> block (data + ns) (os - ns)"
      "block data ns \<inter> block (data + ns) (os - ns) = {}" "block data ns \<subseteq> block data os"
      using shrink by (auto simp: block_def)
    moreover have "block data os \<subseteq> U" and fe: "fe_ok (data, ns)"
      using dd shrink ns by (auto simp: fe_ok_def size_ok_def)
    ultimately have "U - block (data + ns) (os - ns) = (U - block data os) \<union> block data ns"
      "block data ns \<inter> (U - block data os) = {}" by auto
    then have "moved mmap minv h U data os ns h1 data"
      using shrink i m fe by (simp add: moved_def)
    then show ?thesis using unf shrink t by (simp add: end_ok_def pass_ret_def)
  next
    case go
    have nn: "\<not> null_next (heap_list k h) b"
      using dd go(4,5) by (auto simp: null_next_def fe_ok_def wadd_exact split: if_splits)
    show ?thesis
    proof (cases "if bdata b \<noteq> 0 \<and> bscan b
         then grow_in_place (heap_list k h) (bpp b) (bdata b) (bosz b) (bns b) else None")
      case None
      obtain r where r: "pass_alloc (Some (heap_alloc mmap)) k h b = Some r"
        "end_ok mmap minv k h U data os ns r"
        "(let start = (case bfit b of Some j \<Rightarrow> j | None \<Rightarrow> bpp b)
         in find_fit ns (drop start (heap_list k h)) start \<noteq> None) \<longrightarrow> (\<exists>h1 q. r = Ret h1 q \<and> q \<noteq> 0)"
        using pass_alloc_ok[OF inv go(2) _ _ k2] go ns0 ns(2) by auto
      then show ?thesis using unf go None ns0 nn by (auto simp: Let_def)
    next
      case (Some fl1)
      then have d0: "data \<noteq> 0" and g: "grow_in_place (heap_list k h) (bpp b) data os ns = Some fl1"
        using go by (auto split: if_splits)
      have ok: "fl_ok (heap_list k h)" using inv by (rule heap_inv_list)
      have blk: "fe_ok (data, os)" "block data os \<subseteq> U" using dd d0 by auto
      have pos: "pos_ok (heap_list k h) (bpp b) (bprev b) data" using go d0 by (auto simp: pass_ok_def)
      have dis: "block data os \<inter> fl_set (heap_list k h) = {}" using blk heap_inv_disj[OF inv, of k] by auto
      have gi: "fl_ok fl1" "block data ns \<inter> fl_set fl1 = {}"
        "fl_set fl1 \<union> block data ns = fl_set (heap_list k h) \<union> block data os"
        using grow_in_place_ok[OF ok pos ns(1) blk(1) dis g] by auto
      let ?U = "(U - block data os) \<union> block data ns"
      have disU: "block data ns \<inter> (U - block data os) = {}" "fl_set fl1 \<inter> (U - block data os) = {}"
        using gi(3) heap_inv_disj[OF inv, of k] by blast+
      have "heap_inv mmap minv (set_heap_list k fl1 h) ?U"
        by (rule heap_inv_upd[OF inv gi(1)]) (use gi disU blk in blast)+
      then have "moved mmap minv h U data os ns (set_heap_list k fl1 h) data"
        using disU d0 grow_fe_ok[OF ok blk(1) ns(1)] gi(3) by (auto simp: moved_def)
      then show ?thesis using unf go Some d0 ns0 nn by (simp add: end_ok_def)
    qed
  qed
qed

lemma moved_frame:
  "moved mmap minv h U data os ns h2 q \<Longrightarrow> hmem h = hmem h0 \<Longrightarrow> moved mmap minv h0 U data os ns h2 q"
  by (simp add: moved_def)

lemma data_ok_again: "data_ok U data osz os \<Longrightarrow> os + 7 < 2 ^ 32 \<Longrightarrow> data_ok U data os os"
  by (auto simp: data_ok_def fe_ok_def round_idem)

lemma and_7_mod: "(x::nat) AND 7 = x mod 8"
  using take_bit_eq_mask[of 3 x] by (simp add: take_bit_eq_mod mask_eq_exp_minus_1)

lemma addmem_ok:
  assumes inv: "heap_inv mmap minv h U" and d: "data_ok U data osz os" and os: "os + 7 < 2 ^ 32"
    and ns: "size_ok ns" "ns < 2 ^ 31"
  shows "\<exists>h' q. addmem 3 ink (Some (heap_alloc mmap)) 0 h data osz ns = Some (h', q)
     \<and> moved mmap minv h U data os ns h' q
     \<and> (q = 0 \<longrightarrow> (\<forall>e \<in> set (heap_list (pass_ker ink 0 h data) h). \<not> fits ns (snd e))
           \<and> (pass_ker ink 0 h data \<noteq> 2 \<longrightarrow> refused mmap h ns))"
proof -
  let ?k = "pass_ker ink 0 h data" let ?al = "Some (heap_alloc mmap)"
  have a3: "addmem 3 = addmem (Suc (Suc (Suc 0)))" by (simp add: numeral_3_eq_3)
  obtain r where r: "addmem_pass ink ?al 0 h data osz ns = Some r" "end_ok mmap minv ?k h U data os ns r"
    and fit: "(\<exists>e \<in> set (heap_list ?k h). fits ns (snd e)) \<longrightarrow> (\<exists>h1 q. r = Ret h1 q \<and> q \<noteq> 0)"
    using addmem_pass_ok[OF inv d ns, of ink 0] by blast
  show ?thesis
  proof (cases r)
    case (Ret h1 q)
    then show ?thesis using r fit by (auto simp: a3 end_ok_def)
  next
    case (Excess h1 q add sz)
    let ?U = "(U - block data os) \<union> block q ns"
    have q: "q \<noteq> 0" and e: "add \<noteq> 0" "fe_ok (add, sz)" "sz + 7 < 2 ^ 32" "block add sz \<inter> ?U = {}"
      "heap_inv mmap minv h1 (?U \<union> block add sz)"
      and mv: "\<And>h2. heap_inv mmap minv h2 ?U \<Longrightarrow> hmem h2 = hmem h1 \<Longrightarrow> moved mmap minv h U data os ns h2 q"
      using r Excess by (auto simp: end_ok_def)
    have rs: "sz = round_old sz" "sz \<noteq> 0" using e by (auto simp: fe_ok_def round_idem)
    obtain h2 where h2: "addmem_pass ink None 1 h1 add sz 0 = Some (Ret h2 0)"
      "heap_inv mmap minv h2 (?U \<union> block add sz - block add sz)" "hmem h2 = hmem h1"
      using free_pass[OF e(5) e(1,2) _ rs, of ink None 1] by auto
    have "?U \<union> block add sz - block add sz = ?U" using e(4) by auto
    then have "moved mmap minv h U data os ns h2 q" using mv h2 by simp
    then show ?thesis using r Excess h2 q by (simp add: a3)
  next
    case (Retry_Crit h1 d' os' n)
    then have e: "?k = 1" "d' = data" "os' = os" "n = ns" "heap_inv mmap minv h1 U" "hmem h1 = hmem h"
      and ref: "refused mmap h ns"
      using r by (auto simp: end_ok_def)
    then have ink: "ink" by (auto split: if_splits)
    obtain r2 where r2: "addmem_pass ink ?al 2 h1 data os ns = Some r2" "end_ok mmap minv 2 h1 U data os ns r2"
      using addmem_pass_ok[OF e(5) data_ok_again[OF d os] ns, of ink 2] ink by auto
    then obtain h2 q where "r2 = Ret h2 q" by (cases r2) (auto simp: end_ok_def)
    moreover have "\<forall>e \<in> set (heap_list ?k h). \<not> fits ns (snd e)" using fit Retry_Crit by auto
    ultimately show ?thesis using r(1) r2 Retry_Crit e ref by (auto simp: a3 end_ok_def intro: moved_frame)
  next
    case (Refill h1 q sz d' os' n)
    then have e: "?k = 0" "d' = data" "os' = os" "n = ns" "q \<noteq> 0" "fe_ok (q, sz)" "sz + 7 < 2 ^ 32"
      "ns + 16 \<le> sz" "block q sz \<inter> U = {}" "heap_inv mmap minv h1 (U \<union> block q sz)" "hmem h1 = hmem h"
      using r by (auto simp: end_ok_def)
    then have ink: "\<not> ink" by (auto split: if_splits)
    have rs: "sz = round_old sz" "sz \<noteq> 0" using e by (auto simp: fe_ok_def round_idem)
    obtain h2 where h2: "addmem_pass ink None 0 h1 q sz 0 = Some (Ret h2 0)"
      "heap_inv mmap minv h2 (U \<union> block q sz - block q sz)" "hmem h2 = hmem h1"
      "fl_set (heap_list 0 h2) = fl_set (heap_list 0 h1) \<union> block q sz"
      using free_pass[OF e(10) e(5,6) _ rs, of ink None 0] ink by auto
    have inv2: "heap_inv mmap minv h2 U"
      using h2(2) e(9) by (metis Diff_cancel Diff_triv Un_Diff Un_empty_right inf_commute)
    have "\<exists>f \<in> set (heap_list 0 h2). sz \<le> snd f"
      using fl_set_block_entry[OF heap_inv_list[OF inv2, of 0], of q sz] h2(4) rs by auto
    then have "\<exists>f \<in> set (heap_list 0 h2). fits ns (snd f)"
      using e(8) fits_iff[OF ns(1)] by (metis order_trans)
    then obtain h3 q' where h3: "addmem_pass ink ?al 0 h2 data os ns = Some (Ret h3 q')"
      "moved mmap minv h2 U data os ns h3 q'" "q' \<noteq> 0"
      using addmem_pass_ok[OF inv2 data_ok_again[OF d os] ns, of ink 0] ink by (auto simp: end_ok_def)
    have "q AND (malloc_align - 1) = 0" using e by (auto simp: malloc_align_def and_7_mod fe_ok_def)
    then show ?thesis using r Refill e h2 h3 by (auto simp: a3 intro: moved_frame)
  qed
qed

section \<open>The entry points keep their contracts\<close>

lemma align_ok: "8 dvd p \<Longrightarrow> p AND (malloc_align - Suc 0) = 0"
  by (auto simp: malloc_align_def and_7_mod)

lemma round_new_bound: "0 < n \<Longrightarrow> n < 2 ^ 30 \<Longrightarrow> round_new n < 2 ^ 31"
  using round_new_ok(3)[of n] by simp

lemma sreallocfunc_ok:
  assumes inv: "heap_inv mmap minv h U" and d: "data_ok U data osz os" and os: "os + 7 < 2 ^ 32"
    and n: "0 < n" "n < 2 ^ 30"
  shows "\<exists>h' q. sreallocfunc ink (Some (heap_alloc mmap)) h data osz n = Some (h', q)
     \<and> moved mmap minv h U data os (round_new n) h' q
     \<and> (q = 0 \<longrightarrow> (\<forall>e \<in> set (heap_list (pass_ker ink 0 h data) h). \<not> fits (round_new n) (snd e))
           \<and> (pass_ker ink 0 h data \<noteq> 2 \<longrightarrow> refused mmap h (round_new n)))"
proof -
  have "size_ok (round_new n)" "round_new n < 2 ^ 31"
    using round_new_ok(1)[of n] round_new_bound n by auto
  from addmem_ok[OF inv d os this, of ink] obtain h' q where
    r: "addmem 3 ink (Some (heap_alloc mmap)) 0 h data osz (round_new n) = Some (h', q)"
      "moved mmap minv h U data os (round_new n) h' q"
      "q = 0 \<longrightarrow> (\<forall>e \<in> set (heap_list (pass_ker ink 0 h data) h). \<not> fits (round_new n) (snd e))
           \<and> (pass_ker ink 0 h data \<noteq> 2 \<longrightarrow> refused mmap h (round_new n))" by blast
  have "data AND (malloc_align - 1) = 0"
    using d by (cases "data = 0") (auto simp: data_ok_def fe_ok_def intro: align_ok)
  moreover have "q AND (malloc_align - 1) = 0"
    using r(2) by (cases "q = 0") (auto simp: moved_def fe_ok_def intro: align_ok)
  ultimately have "sreallocfunc ink (Some (heap_alloc mmap)) h data osz n = Some (h', q)"
    using r(1) by (simp add: sreallocfunc_def)
  then show ?thesis using r(2,3) by blast
qed

lemma sreallocfunc_free:
  assumes inv: "heap_inv mmap minv h U" and d: "data_ok U data osz os" and nz: "data \<noteq> 0"
  shows "\<exists>h'. sreallocfunc ink alloc h data osz 0 = Some (h', 0)
     \<and> heap_inv mmap minv h' (U - block data os) \<and> hmem h' = hmem h
     \<and> crit_start h' = crit_start h \<and> crit_end h' = crit_end h
     \<and> fl_set (heap_list (pass_ker ink 0 h data) h')
         = fl_set (heap_list (pass_ker ink 0 h data) h) \<union> block data os"
proof -
  have b: "fe_ok (data, os)" "block data os \<subseteq> U" "os = round_old osz" "osz \<noteq> 0"
    using d nz by (auto simp: data_ok_def)
  have al: "data AND (malloc_align - 1) = 0" using b by (auto simp: fe_ok_def intro: align_ok)
  from free_pass[OF inv nz b, of ink alloc 0] obtain h' where
    h: "addmem_pass ink alloc 0 h data osz 0 = Some (Ret h' 0)"
      "heap_inv mmap minv h' (U - block data os) \<and> hmem h' = hmem h
       \<and> crit_start h' = crit_start h \<and> crit_end h' = crit_end h
       \<and> fl_set (heap_list (pass_ker ink 0 h data) h')
         = fl_set (heap_list (pass_ker ink 0 h data) h) \<union> block data os" by blast
  have "sreallocfunc ink alloc h data osz 0 = Some (h', 0)"
    using h(1) al by (simp add: sreallocfunc_def round_new_def numeral_3_eq_3)
  then show ?thesis using h(2) by blast
qed

text \<open>A block that overlaps the free list at its first byte is caught by the scan.\<close>

lemma sreallocfunc_crash:
  assumes inv: "heap_inv mmap minv h U" and d: "data \<noteq> 0" "osz \<noteq> 0"
    and os: "round_old osz \<noteq> 0"
    and f: "data \<in> fl_set (heap_list (pass_ker ink 0 h data) h)"
  shows "sreallocfunc ink alloc h data osz 0 = None"
proof -
  have "scan data 0 (heap_list (pass_ker ink 0 h data) h) 0 None = None"
    by (rule scan_crash[OF heap_inv_list[OF inv] d(1) f])
  then have "pass_head (heap_list (pass_ker ink 0 h data) h) data osz 0 = None"
    using d os by (simp add: pass_head_def Let_def)
  then have "addmem_pass ink alloc 0 h data osz 0 = None"
    unfolding addmem_pass_def Let_def by simp
  then show ?thesis by (simp add: sreallocfunc_def round_new_def numeral_3_eq_3)
qed

section \<open>The sized entry points\<close>

lemma block_ok_data:
  assumes "0 < n" "n < 2 ^ 30" "0 < p" "8 dvd p" "p + round_new n < 2 ^ 64" "block p (round_new n) \<subseteq> U"
  shows "data_ok U p n (round_new n)"
  using assms round_new_ok(1)[of n] round_old_eq[of n]
  by (auto simp: data_ok_def fe_ok_def size_ok_def)

lemma sfree_aligned: "8 dvd p \<Longrightarrow>
    sfree ink mmap h p n = map_option fst (sreallocfunc ink (Some (heap_alloc mmap)) h p n 0)"
  using align_ok[of p] by (simp add: sfree_def)

lemma data_ok_null: "data_ok U 0 0 0"
  by (simp add: data_ok_def)

lemma smalloc_ok:
  assumes "heap_inv mmap minv h U" "0 < n" "n < 2 ^ 30"
  shows "\<exists>h' q. smalloc ink mmap h n = Some (h', q) \<and> moved mmap minv h U 0 0 (round_new n) h' q
     \<and> (q = 0 \<longrightarrow> (\<forall>e \<in> set (heap_list (pass_ker ink 0 h 0) h). \<not> fits (round_new n) (snd e))
           \<and> (pass_ker ink 0 h 0 \<noteq> 2 \<longrightarrow> refused mmap h (round_new n)))"
  using sreallocfunc_ok[OF assms(1) data_ok_null _ assms(2,3), of ink] by (simp add: smalloc_def)

lemma memset_simps [simp]:
  "heap_inv mmap minv (memset p v n h) U = heap_inv mmap minv h U"
  "hmem (memset p v n h) = (\<lambda>a. if p \<le> a \<and> a < p + n then v else hmem h a)"
  by (simp_all add: memset_def)

lemma scalloc_law:
  assumes inv: "heap_inv mmap minv h U" and n: "0 < n" "n < max_request"
  shows "\<exists>h' p. scalloc ink mmap h n = Some (h', p)
        \<and> (if p = 0 then heap_inv mmap minv h' U
           else 8 dvd p \<and> p + round_new n < 2 ^ 64 \<and> block p (round_new n) \<inter> U = {}
             \<and> heap_inv mmap minv h' (U \<union> block p (round_new n)) \<and> (\<forall>i < n. hmem h' (p + i) = 0))
        \<and> (\<forall>a \<in> U. hmem h' a = hmem h a)"
proof -
  have n30: "n < 2 ^ 30" using n by (simp add: max_request_def)
  from smalloc_ok[OF inv n(1) n30, of ink] obtain h1 p where
    s: "smalloc ink mmap h n = Some (h1, p)" "moved mmap minv h U 0 0 (round_new n) h1 p" by blast
  have r: "n \<le> round_new n" using round_new_ok(2)[of n] n n30 by simp
  have sc: "scalloc ink mmap h n = Some (if p \<noteq> 0 then memset p 0 n h1 else h1, p)"
    using s by (simp add: scalloc_def smalloc_def)
  show ?thesis
  proof (cases "p = 0")
    case True
    then show ?thesis using sc s by (simp add: moved_def)
  next
    case False
    then have m: "fe_ok (p, round_new n)" "block p (round_new n) \<inter> U = {}"
      "heap_inv mmap minv h1 (U \<union> block p (round_new n))" "\<forall>a. a \<notin> block p (round_new n) \<longrightarrow> hmem h1 a = hmem h a"
      using s by (auto simp: moved_def block_def)
    have nb: "a \<notin> block p (round_new n)" "\<not> (p \<le> a \<and> a < p + n)" if "a \<in> U" for a
      using m(2) that r by (auto simp: block_def disjoint_iff)
    then have "\<forall>a \<in> U. hmem (memset p 0 n h1) a = hmem h a"
      using m(4) by fastforce
    then show ?thesis using sc m False by (simp add: fe_ok_def)
  qed
qed

lemma sfree_law:
  assumes inv: "heap_inv mmap minv h U" and n: "0 < n" "n < max_request"
    and p: "0 < p" "8 dvd p" "p + round_new n < 2 ^ 64" "block p (round_new n) \<subseteq> U"
  shows "\<exists>h'. sfree ink mmap h p n = Some h' \<and> heap_inv mmap minv h' (U - block p (round_new n))
     \<and> (\<forall>a \<in> U - block p (round_new n). hmem h' a = hmem h a)"
proof -
  have "data_ok U p n (round_new n)" using n p by (intro block_ok_data) (auto simp: max_request_def)
  from sreallocfunc_free[OF inv this, of ink "Some (heap_alloc mmap)"] p
  show ?thesis by (auto simp: sfree_aligned)
qed

lemma sfree_null: "sfree ink mmap h 0 0 = Some h"
  by (auto simp: sfree_def sreallocfunc_def round_new_def numeral_3_eq_3 addmem_pass_def Let_def
      pass_head_def pass_ret_def pass_tail_def)

lemma round_new_le: "0 < n \<Longrightarrow> n < max_request \<Longrightarrow> n \<le> round_new n"
  using round_new_ok(2)[of n] by (simp add: max_request_def)

interpretation nano: sized_allocator "heap_inv mmap minv" hmem "scalloc ink mmap" "sfree ink mmap" round_new
  for mmap minv ink
  by unfold_locales (rule scalloc_law sfree_law sfree_null round_new_le; assumption)+

section \<open>The block header of \<open>malloc\<close>\<close>

lemma base256_sum: "(\<Sum>i<k. v div 256 ^ i mod 256 * 256 ^ i) = v mod 256 ^ k" for v :: nat
proof (induction k)
  case (Suc k)
  have "v mod 256 ^ Suc k = 256 ^ k * (v div 256 ^ k mod 256) + v mod 256 ^ k"
    by (metis mod_mult2_eq power_Suc2)
  then show ?case using Suc by simp
qed simp

lemma load_store64: "v < 2 ^ 64 \<Longrightarrow> \<forall>a \<in> block p 8. hmem h' a = hmem (store64 p v h) a \<Longrightarrow> load64 p h' = v"
  using base256_sum[of v 8] by (simp add: load64_def store64_def block_def)

lemma store64_inv [simp]: "heap_inv mmap minv (store64 p v h) U = heap_inv mmap minv h U"
  by (simp add: store64_def)

lemma free_ok:
  assumes inv: "heap_inv mmap minv h U" and p: "8 dvd p" "8 < p" "p - 8 + round_new n < 2 ^ 64"
    and n: "0 < n" "n < 2 ^ 30" and hd: "load64 (p - 8) h = n" and b: "block (p - 8) (round_new n) \<subseteq> U"
  shows "\<exists>h'. free ink mmap h p = Some h' \<and> heap_inv mmap minv h' (U - block (p - 8) (round_new n))
     \<and> hmem h' = hmem h"
proof -
  have "16 \<le> round_new n" using round_new_ok(1)[of n] n by (simp add: size_ok_def)
  then have "wsub p malloc_align = p - 8" using p by (simp add: wsub_exact malloc_align_def)
  moreover have "data_ok U (p - 8) n (round_new n)"
    using p n b by (intro block_ok_data) auto
  ultimately show ?thesis
    using sreallocfunc_free[OF inv, of "p - 8" n "round_new n" ink "Some (heap_alloc mmap)"] p hd
    by (auto simp: free_def)
qed

end
