(* ===== verification/Heap_Props.thy ===== *)
theory Heap_Props
  imports Heap_Proofs
begin

text \<open>
  The properties of the nanokernel heap: the contract of reallocation, completeness of the
  search, detection of a double free, the round trip of \<open>malloc\<close> and \<open>free\<close>, initialisation,
  and the truncation of requests of 4 GiB and more.
\<close>

lemmas heap_eval =
  smalloc_def sreallocfunc_def addmem_pass_def pass_head_def pass_alloc_def pass_refill_def pass_ret_def
  pass_tail_def heap_alloc_def heap_list_def set_heap_list_def round_new_def round_old_def roundup_page_def
  pagesize_def ALIGN_def IS_CRIT_def malloc_align_def sizeof_free_entry_def wadd_def wsub_def
  free_insert_def free_place_def join_next_def take_fit_def better_fit_def grow_in_place_def null_next_def
  memcpy_def memset_def numeral_3_eq_3 Let_def and_7_mod

lemma moved_bytes:
  "moved mmap minv h U data os ns h' q \<Longrightarrow> a \<in> U - block data os \<Longrightarrow> hmem h' a = hmem h a"
  by (auto simp: moved_def disjoint_iff split: if_splits)

text \<open>
  (C1) Reallocation, allocation (\<open>data = 0\<close>) included. From a heap that satisfies the invariant
  for the memory \<open>U\<close> in use, a call with a block the caller owns always returns. If it returns
  NULL, the caller still owns everything it owned. Otherwise the old block leaves the memory
  in use and an aligned block of the rounded size, disjoint from everything else in use, enters
  it; the common prefix of the contents is carried over and no other byte in use changes.
\<close>

theorem srealloc_contract:
  assumes inv: "heap_inv mmap minv h U" and d: "data_ok U data osz os" "os + 7 < 2 ^ 32"
    and n: "0 < n" "n < 2 ^ 30"
  shows "\<exists>h' q. srealloc ink mmap h data osz n = Some (h', q)
    \<and> (if q = 0 then heap_inv mmap minv h' U \<and> (\<forall>a \<in> U. hmem h' a = hmem h a)
       else 8 dvd q \<and> n \<le> round_new n \<and> block q (round_new n) \<inter> (U - block data os) = {}
         \<and> heap_inv mmap minv h' ((U - block data os) \<union> block q (round_new n))
         \<and> (\<forall>i < min n os. hmem h' (q + i) = hmem h (data + i))
         \<and> (\<forall>a \<in> U - block data os. hmem h' a = hmem h a))"
proof -
  from sreallocfunc_ok[OF inv d n, of ink] obtain h' q where
    r: "srealloc ink mmap h data osz n = Some (h', q)" "moved mmap minv h U data os (round_new n) h' q"
    by (auto simp: srealloc_def)
  have "n \<le> round_new n" using round_new_ok(2)[of n] n by simp
  moreover have "\<forall>a \<in> U - block data os. hmem h' a = hmem h a" using moved_bytes[OF r(2)] by blast
  ultimately show ?thesis using r
    by (intro exI[of _ h'] exI[of _ q]) (auto simp: moved_def fe_ok_def)
qed

text \<open>
  A memory manager that hands out ascending pages, and an empty heap on it: the hypotheses of
  the heap theorems hold there.
\<close>

definition bump_mmap :: "nat mmap_fun" where
  "bump_mmap m n = (if 0 < n \<and> pagesize dvd n \<and> m + n < 2 ^ 64 then (m + n, Some (m, n)) else (m, None))"

definition bump_inv :: "nat \<Rightarrow> addr set \<Rightarrow> bool" where
  "bump_inv m R \<longleftrightarrow> 0 < m \<and> pagesize dvd m \<and> (\<forall>a \<in> R. a < m)"

definition heap0 :: "nat heap" where
  "heap0 = heap_boot 0x100000"

lemma bump_ok: "mmap_ok bump_mmap bump_inv"
  by (auto simp: mmap_ok_def bump_mmap_def bump_inv_def block_def split: option.splits if_splits)

lemma heap0_inv: "heap_inv bump_mmap bump_inv heap0 {}"
  using bump_ok by (simp add: heap_inv_def lists_ok_def heap_free_def pregrown_def heap0_def heap_boot_def bump_inv_def
      block_def pagesize_def)

theorem srealloc_contract_witness:
  "\<exists>h' q. srealloc False bump_mmap heap0 0 0 100 = Some (h', q)
    \<and> (if q = 0 then heap_inv bump_mmap bump_inv h' {}
       else 8 dvd q \<and> heap_inv bump_mmap bump_inv h' (block q (round_new 100)))"
proof -
  have e: "block 0 0 = {}" by (simp add: block_def)
  from srealloc_contract[OF heap0_inv data_ok_null, of 100 False] obtain h' q where
    "srealloc False bump_mmap heap0 0 0 100 = Some (h', q)"
    "if q = 0 then heap_inv bump_mmap bump_inv h' {}
     else 8 dvd q \<and> heap_inv bump_mmap bump_inv h' (block q (round_new 100))"
    by (auto simp: e split: if_splits)
  then show ?thesis by blast
qed

text \<open>
  (C14) Allocation fails only when it must: when \<open>_smalloc\<close> returns NULL, no entry of the free
  list it searched can hold the request (exactly, or leaving room for a free entry), and,
  outside the critical list, the memory manager gave no memory for it either.
\<close>

theorem smalloc_fails_only_if_exhausted:
  assumes "heap_inv mmap minv h U" "0 < n" "n < 2 ^ 30"
    and "smalloc ink mmap h n = Some (h', 0)"
  shows "(\<forall>e \<in> set (heap_list (pass_ker ink 0 h 0) h). snd e \<noteq> round_new n \<and> snd e < round_new n + 16)
     \<and> (\<not> (ink \<and> IS_CRIT h 0) \<longrightarrow> refused mmap h (round_new n))"
proof -
  have "size_ok (round_new n)" using round_new_ok(1)[of n] assms by simp
  then show ?thesis using smalloc_ok[OF assms(1-3), of ink] assms(4)
    by (auto simp: fits_iff not_le split: if_splits)
qed

definition no_mmap :: "nat mmap_fun" where
  "no_mmap m n = (m, None)"

lemma no_mmap_inv: "heap_inv no_mmap (\<lambda>_ _. True) heap0 {}"
  by (simp add: heap_inv_def lists_ok_def heap_free_def pregrown_def heap0_def heap_boot_def block_def pagesize_def
      mmap_ok_def no_mmap_def split: option.splits)

theorem smalloc_exhausted_witness:
  "refused no_mmap heap0 (round_new 100)"
proof -
  have "map_option snd (smalloc False no_mmap heap0 100) = Some 0"
    by (simp add: heap_eval no_mmap_def heap0_def heap_boot_def)
  then obtain h' where "smalloc False no_mmap heap0 100 = Some (h', 0)" by auto
  from smalloc_fails_only_if_exhausted[OF no_mmap_inv _ _ this] show ?thesis by simp
qed

text \<open>
  (C27) A double free is caught: once a block has been released, releasing any aligned address
  in it again (from the same side of the kernel/process boundary and of the critical area)
  reaches \<open>crash()\<close>, whatever size is passed.
\<close>

theorem double_free_crashes:
  assumes inv: "heap_inv mmap minv h U" and n: "0 < n" "n < 2 ^ 30"
    and p: "0 < p" "8 dvd p" "p + round_new n < 2 ^ 64" "block p (round_new n) \<subseteq> U"
    and q: "q \<in> block p (round_new n)" "8 dvd q" "IS_CRIT h q = IS_CRIT h p" "0 < m" "m + 7 < 2 ^ 32"
  shows "\<exists>h1. sfree ink mmap h p n = Some h1 \<and> heap_inv mmap minv h1 (U - block p (round_new n))
     \<and> sfree ink mmap h1 q m = None"
proof -
  let ?k = "pass_ker ink 0 h p"
  from sreallocfunc_free[OF inv block_ok_data[OF n p], of ink "Some (heap_alloc mmap)"] p
  obtain h1 where f: "sfree ink mmap h p n = Some h1" "heap_inv mmap minv h1 (U - block p (round_new n))"
    "crit_start h1 = crit_start h" "crit_end h1 = crit_end h"
    "fl_set (heap_list ?k h1) = fl_set (heap_list ?k h) \<union> block p (round_new n)"
    by (auto simp: sfree_aligned)
  have k: "pass_ker ink 0 h1 q = ?k" using f(3,4) q(3) by (simp add: IS_CRIT_def)
  have "q \<in> fl_set (heap_list (pass_ker ink 0 h1 q) h1)" unfolding k f(5) using q(1) by (rule UnI2)
  moreover have "round_old m \<noteq> 0" using q(4,5) round_new_ok(4)[of m] by (simp add: round_old_eq)
  moreover have "q \<noteq> 0" "m \<noteq> 0" using q p by (auto simp: block_def)
  ultimately have "sfree ink mmap h1 q m = None"
    using sreallocfunc_crash[OF f(2), of q m ink "Some (heap_alloc mmap)"] q(2)
    by (simp add: sfree_aligned)
  then show ?thesis using f(1,2) by blast
qed

definition heap1 :: "nat heap" where
  "heap1 = heap0\<lparr>hmm := 0x200000\<rparr>"

lemma heap1_inv: "heap_inv bump_mmap bump_inv heap1 (block 0x100000 64)"
  using bump_ok by (simp add: heap_inv_def lists_ok_def heap_free_def pregrown_def heap0_def heap_boot_def heap1_def
      bump_inv_def block_def pagesize_def)

theorem double_free_witness:
  "\<exists>h1. sfree True bump_mmap heap1 0x100000 64 = Some h1 \<and> sfree True bump_mmap h1 0x100008 8 = None"
proof -
  have r: "round_new 64 = 64" by (simp add: round_new_def sizeof_free_entry_def ALIGN_eq)
  show ?thesis
    using double_free_crashes[OF heap1_inv, of 64 "0x100000" "0x100008" 8 True]
    by (auto simp: r block_def heap1_def heap0_def heap_boot_def IS_CRIT_def)
qed

text \<open>
  (C28) \<open>malloc\<close> and \<open>free\<close> are a round trip. \<open>malloc\<close> always returns; a block it returns is
  aligned, its \<open>n\<close> bytes were not in use before, and after any writes that leave the eight
  header bytes in front of it alone, \<open>free\<close> of the pointer succeeds and gives back a heap with
  exactly the old memory in use.
\<close>

theorem malloc_free_roundtrip:
  assumes inv: "heap_inv mmap minv h U" and n: "n + 8 < 2 ^ 30"
  shows "\<exists>h1 p. malloc ink mmap h n = Some (h1, p)
    \<and> (p = 0 \<longrightarrow> heap_inv mmap minv h1 U)
    \<and> (p \<noteq> 0 \<longrightarrow> 8 dvd p \<and> block (p - 8) (n + 8) \<inter> U = {}
         \<and> (\<forall>m. (\<forall>a \<in> block (p - 8) 8. m a = hmem h1 a) \<longrightarrow>
              (\<exists>h2. free ink mmap (h1\<lparr>hmem := m\<rparr>) p = Some h2
                   \<and> heap_inv mmap minv h2 U \<and> hmem h2 = m)))"
proof -
  let ?n = "n + 8"
  have w: "wadd n malloc_align = ?n" using n by (simp add: wadd_exact malloc_align_def)
  from smalloc_ok[OF inv _ n, of ink] obtain h' q where
    s: "smalloc ink mmap h ?n = Some (h', q)" "moved mmap minv h U 0 0 (round_new ?n) h' q" by auto
  show ?thesis
  proof (cases "q = 0")
    case True
    then show ?thesis using s w by (simp add: malloc_def smalloc_def moved_def)
  next
    case False
    have e: "block 0 0 = {}" by (simp add: block_def)
    have m: "fe_ok (q, round_new ?n)" "block q (round_new ?n) \<inter> U = {}"
      "heap_inv mmap minv h' (U \<union> block q (round_new ?n))" using s False by (auto simp: moved_def e)
    have r: "?n \<le> round_new ?n" using round_new_ok(2)[of ?n] n by simp
    have wq: "wadd q malloc_align = q + 8" using m(1) r by (simp add: wadd_exact malloc_align_def fe_ok_def)
    have ma: "malloc ink mmap h n = Some (store64 q ?n h', q + 8)"
      using s w wq False by (simp add: malloc_def smalloc_def Let_def)
    have fr: "\<exists>h2. free ink mmap ((store64 q ?n h')\<lparr>hmem := g\<rparr>) (q + 8) = Some h2
        \<and> heap_inv mmap minv h2 U \<and> hmem h2 = g"
      if g: "\<forall>a \<in> block q 8. g a = hmem (store64 q ?n h') a" for g
    proof -
      let ?h = "(store64 q ?n h')\<lparr>hmem := g\<rparr>"
      have "load64 q ?h = ?n" by (rule load_store64[where h = h']) (use n g in auto)
      then obtain h2 where "free ink mmap ?h (q + 8) = Some h2" "hmem h2 = hmem ?h"
        "heap_inv mmap minv h2 (U \<union> block q (round_new ?n) - block q (round_new ?n))"
        using free_ok[of mmap minv ?h "U \<union> block q (round_new ?n)" "q + 8" ?n ink] m n False
        by (auto simp: fe_ok_def)
      moreover have "U \<union> block q (round_new ?n) - block q (round_new ?n) = U" using m(2) by auto
      ultimately show ?thesis by auto
    qed
    have "block q ?n \<inter> U = {}" using m(2) r by (auto simp: block_def disjoint_iff)
    moreover have "8 dvd q + 8" using m(1) by (simp add: fe_ok_def)
    ultimately show ?thesis using ma fr by simp
  qed
qed

theorem malloc_free_witness:
  "\<exists>h1 p. malloc False bump_mmap heap0 40 = Some (h1, p) \<and> (p \<noteq> 0 \<longrightarrow> 8 dvd p)"
  using malloc_free_roundtrip[OF heap0_inv, of 40 False] by auto

text \<open>
  \<open>ALIGN\<close> masks with a 32-bit constant, so a request loses its high half: asking
  \<open>_smalloc\<close> for \<open>n\<close> bytes plus any multiple of 4 GiB is the same call as asking for \<open>n\<close>
  bytes, and returns a block of \<open>n\<close> bytes as a success.
\<close>

lemma ALIGN_mod: "wadd x 7 mod 2 ^ 32 = wadd y 7 mod 2 ^ 32 \<Longrightarrow> ALIGN x = ALIGN y"
proof -
  have "z AND 0xFFFFFFF8 = z mod 2 ^ 32 AND 0xFFFFFFF8" for z :: nat
  proof -
    have "z AND 0xFFFFFFF8 = z AND (mask 32 AND 0xFFFFFFF8)" by (simp add: mask_eq_exp_minus_1)
    also have "\<dots> = take_bit 32 z AND 0xFFFFFFF8" by (simp add: take_bit_eq_mask and.assoc)
    finally show ?thesis by (simp add: take_bit_eq_mod)
  qed
  then show "wadd x 7 mod 2 ^ 32 = wadd y 7 mod 2 ^ 32 \<Longrightarrow> ALIGN x = ALIGN y"
    unfolding ALIGN_def by metis
qed

theorem smalloc_truncates_request:
  assumes "16 < n" "k * 2 ^ 32 + n + 7 < 2 ^ 64"
  shows "smalloc ink mmap h (k * 2 ^ 32 + n) = smalloc ink mmap h n"
proof -
  have "ALIGN (k * 2 ^ 32 + n) = ALIGN n"
    by (rule ALIGN_mod) (use assms in \<open>simp add: wadd_exact add.assoc\<close>)
  then have "round_new (k * 2 ^ 32 + n) = round_new n"
    using assms by (simp add: round_new_def sizeof_free_entry_def)
  then show ?thesis by (simp add: smalloc_def sreallocfunc_def)
qed

theorem smalloc_truncates_witness:
  "smalloc True bump_mmap heap0 (1 * 2 ^ 32 + 24) = smalloc True bump_mmap heap0 24"
  by (rule smalloc_truncates_request) simp_all

lemma calloc_product_wraps: "calloc ink mmap h (2 ^ 32) (2 ^ 32) = calloc ink mmap h 0 0"
  by (simp add: calloc_def)

lemma pregrow_heap_ok:
  assumes inv: "heap_inv mmap minv h U" and z: "pregrow_size h = 0" and n: "pregrow < 2 ^ 30"
  shows "heap_inv mmap minv (pregrow_heap mmap h pregrow) U
    \<and> ker_crit_list (pregrow_heap mmap h pregrow) = ker_crit_list h"
proof (cases "pregrow = 0")
  case True
  then show ?thesis using inv by (simp add: pregrow_heap_def)
next
  case False
  obtain h1 sz a where al: "heap_alloc mmap h pregrow = (h1, sz, a)" by (metis prod_cases3)
  have b: "0 < pregrow" "pregrow + pagesize \<le> 2 ^ 64" using False n by (auto simp: pagesize_def)
  note ha = heap_alloc_ok[OF inv b al]
  have crit: "ker_crit_list h1 = ker_crit_list h" using ha(2)[of 2] by (simp add: heap_list_def)
  have r: "\<not> roundup_page pregrow \<le> pregrow_size h" using z roundup_page_ok(3)[OF b(2,1)] by simp
  have p0: "pregrow_size h1 = 0" "pregrow_start h1 = pregrow_start h"
    using al r z by (auto simp: heap_alloc_def Let_def split: option.splits prod.splits)
  show ?thesis
  proof (cases "sz = 0")
    case True
    have "h1\<lparr>pregrow_start := pregrow_start h1, pregrow_size := 0\<rparr> = h1" using p0 by simp
    then show ?thesis using True ha(7) al crit r False by (simp add: pregrow_heap_def)
  next
    case sz: False
    note g = ha(8)[OF sz]
    let ?h = "h1\<lparr>pregrow_start := a, pregrow_size := sz\<rparr>"
    have eq: "pregrow_heap mmap h pregrow = ?h" using al r False sz by (simp add: pregrow_heap_def)
    have pg: "pagesize dvd a" "pagesize dvd sz"
      using al r inv sz
      by (auto simp: heap_alloc_def Let_def heap_inv_def mmap_ok_def split: option.splits prod.splits)
    have "heap_inv mmap minv h1 (U \<union> block a sz)" using g by simp
    then have "heap_inv mmap minv ?h U"
      using p0 g pg by (auto simp: heap_inv_def lists_ok_def heap_free_def pregrown_def block_def Un_ac)
    then show ?thesis using eq crit by simp
  qed
qed

text \<open>Before the critical area exists, no pass touches the critical list.\<close>

definition crit_view :: "'m heap \<Rightarrow> free_entry list \<times> nat \<times> nat \<times> nat" where
  "crit_view h = (ker_crit_list h, crit_start h, crit_end h, alloc_critical h)"

definition end_heap :: "'m pass_end \<Rightarrow> 'm heap" where
  "end_heap r = (case r of Ret h _ \<Rightarrow> h | Excess h _ _ _ \<Rightarrow> h | Retry_Crit h _ _ _ \<Rightarrow> h | Refill h _ _ _ _ _ \<Rightarrow> h)"

lemma crit_view_simps [simp]:
  "ker \<noteq> 2 \<Longrightarrow> ker \<le> 2 \<Longrightarrow> crit_view (set_heap_list ker fl h) = crit_view h"
  "crit_view (memcpy d s n h) = crit_view h"
  "crit_view (fst (heap_alloc mmap h n)) = crit_view h"
  by (auto simp: crit_view_def set_heap_list_def memcpy_def heap_alloc_def Let_def split: prod.splits option.splits)

lemma pass_tail_view: "pass_tail ker h b = Some h1 \<Longrightarrow> ker \<le> 1 \<Longrightarrow> crit_view h1 = crit_view h"
  by (auto simp: pass_tail_def Let_def split: if_splits option.splits)

lemma pass_ret_view: "pass_ret ker h b q = Some r \<Longrightarrow> ker \<le> 1 \<Longrightarrow> crit_view (end_heap r) = crit_view h
    \<and> (\<forall>h d os n. r \<noteq> Retry_Crit h d os n)"
  by (auto simp: pass_ret_def end_heap_def dest: pass_tail_view split: option.splits)

lemma pass_refill_view:
  assumes "pass_refill (heap_alloc mmap) ker h b = Some r" "ker \<le> 1" "alloc_critical h = 0"
  shows "crit_view (end_heap r) = crit_view h \<and> (\<forall>h d os n. r \<noteq> Retry_Crit h d os n)"
proof -
  obtain h1 sz q where a: "heap_alloc mmap h (wadd (bns b) sizeof_free_entry) = (h1, sz, q)" by (metis prod_cases3)
  then have v: "crit_view h1 = crit_view h" using crit_view_simps(3) by (metis fst_conv)
  then have "alloc_critical h1 = 0" using assms by (simp add: crit_view_def)
  then show ?thesis using assms a v
    by (auto simp: pass_refill_def end_heap_def dest: pass_tail_view split: if_splits option.splits)
qed

lemma addmem_pass_view:
  assumes "addmem_pass ink al ker h data osz ns = Some r" "ker \<le> 1" "alloc_critical h = 0"
    "crit_end h < crit_start h" "al = None \<or> al = Some (heap_alloc mmap)"
  shows "crit_view (end_heap r) = crit_view h \<and> (\<forall>h d os n. r \<noteq> Retry_Crit h d os n)"
proof -
  let ?k = "if ink then 1 else 0 :: nat"
  have k: "pass_ker ink ker h data = ?k" using assms by (auto simp: IS_CRIT_def)
  have al: "crit_view (end_heap r) = crit_view h \<and> (\<forall>h d os n. r \<noteq> Retry_Crit h d os n)"
    if "pass_alloc al ?k h b = Some r" for b
    using that assms(3,5)
    by (auto simp: pass_alloc_def Let_def dest: pass_ret_view pass_refill_view split: option.splits prod.splits)
  from assms(1) have "(\<exists>b q. pass_ret ?k h b q = Some r) \<or> (\<exists>b. pass_alloc al ?k h b = Some r)
      \<or> (\<exists>fl q. r = Ret (set_heap_list ?k fl h) q) \<or> (\<exists>q. r = Ret h q)"
    unfolding addmem_pass_def Let_def k by (auto split: option.splits head.splits if_splits)
  then show ?thesis using al by (auto simp: end_heap_def dest: pass_ret_view)
qed

lemma addmem_view:
  "addmem f ink al ker h data osz ns = Some (h', q) \<Longrightarrow> ker \<le> 1 \<Longrightarrow> alloc_critical h = 0 \<Longrightarrow>
    crit_end h < crit_start h \<Longrightarrow> al = None \<or> al = Some (heap_alloc mmap) \<Longrightarrow> crit_view h' = crit_view h"
proof (induction f arbitrary: al ker h data osz ns h' q)
  case (Suc f)
  from Suc.prems(1) obtain r where r: "addmem_pass ink al ker h data osz ns = Some r"
    by (auto split: option.splits)
  note v = addmem_pass_view[OF r Suc.prems(2-5)]
  have cv: "crit_view h1 = crit_view h \<Longrightarrow> alloc_critical h1 = 0 \<and> crit_end h1 < crit_start h1" for h1
    using Suc.prems by (simp add: crit_view_def)
  show ?case
  proof (cases r)
    case (Ret h1 q1)
    then show ?thesis using Suc.prems(1) r v by (simp add: end_heap_def)
  next
    case (Excess h1 q1 add sz)
    then obtain q2 where "addmem f ink None 1 h1 add sz 0 = Some (h', q2)" "crit_view h1 = crit_view h"
      using Suc.prems(1) r v by (auto simp: end_heap_def)
    then show ?thesis using Suc.IH[of None 1 h1 add sz 0 h' q2] cv[of h1] by simp
  next
    case (Retry_Crit h1 d os n)
    then show ?thesis using v by blast
  next
    case (Refill h1 q1 sz d os n)
    then obtain h2 q2 where a: "addmem f ink None 0 h1 q1 sz 0 = Some (h2, q2)"
      "addmem f ink al 0 h2 d os n = Some (h', q)" and "crit_view h1 = crit_view h"
      using Suc.prems(1) r v by (auto simp: end_heap_def split: option.splits if_splits)
    then have "crit_view h2 = crit_view h" using Suc.IH[OF a(1)] cv[of h1] by simp
    then show ?thesis using Suc.IH[OF a(2)] cv[of h2] Suc.prems(5) by simp
  qed
qed simp

lemma smalloc_view:
  assumes "smalloc ink mmap h n = Some (h', q)" "alloc_critical h = 0" "crit_end h < crit_start h"
  shows "crit_view h' = crit_view h"
  using assms addmem_view[of 3 ink "Some (heap_alloc mmap)" 0 h 0 0 "round_new n" h' q mmap]
  by (auto simp: smalloc_def sreallocfunc_def split: option.splits if_splits)

lemma pregrow_heap_view: "pregrow_size h = 0 \<Longrightarrow> crit_view (pregrow_heap mmap h n) = crit_view h"
  by (auto simp: crit_view_def pregrow_heap_def heap_alloc_def Let_def split: prod.splits option.splits)

text \<open>
  (C34) Initialisation. On the boot state of the heap, \<open>heap_init\<close> either leaves a heap that
  satisfies the invariant with no memory in use, and whose critical free list covers exactly
  the addresses \<open>IS_CRIT\<close> recognises, or the memory manager refused the critical area.
\<close>

theorem heap_init_establishes:
  assumes ok: "mmap_ok mmap minv" and m: "minv m {}" and n: "pregrow < 2 ^ 30"
  shows "(\<exists>h'. heap_init ink mmap (heap_boot m) pregrow = Some h' \<and> heap_inv mmap minv h' {}
             \<and> {p. IS_CRIT h' p} = fl_set (ker_crit_list h'))
      \<or> refused mmap (pregrow_heap mmap (heap_boot m) pregrow) CRIT_SIZE"
proof -
  let ?h = "pregrow_heap mmap (heap_boot m) pregrow"
  have "heap_inv mmap minv (heap_boot m) {}"
    using ok m by (simp add: heap_inv_def lists_ok_def heap_free_def pregrown_def heap_boot_def block_def)
  from pregrow_heap_ok[OF this _ n] have i: "heap_inv mmap minv ?h {}" and c: "ker_crit_list ?h = []"
    by (simp_all add: heap_boot_def)
  have r: "round_new CRIT_SIZE = CRIT_SIZE"
    by (simp add: round_new_def CRIT_SIZE_def pagesize_def sizeof_free_entry_def ALIGN_eq)
  have k: "pass_ker ink 0 ?h 0 \<noteq> 2"
    by (auto simp: IS_CRIT_def pregrow_heap_def heap_alloc_def heap_boot_def Let_def
        split: prod.splits option.splits if_splits)
  have b: "0 < CRIT_SIZE" "CRIT_SIZE < 2 ^ 30" by (simp_all add: CRIT_SIZE_def pagesize_def)
  from smalloc_ok[OF i b, of ink] r k obtain h1 p where
    s: "smalloc ink mmap ?h CRIT_SIZE = Some (h1, p)" "moved mmap minv ?h {} 0 0 CRIT_SIZE h1 p"
      "p = 0 \<longrightarrow> refused mmap ?h CRIT_SIZE" by auto
  show ?thesis
  proof (cases "p = 0")
    case True
    then show ?thesis using s by simp
  next
    case False
    let ?h' = "h1\<lparr>ker_crit_list := [(p, CRIT_SIZE)], crit_start := p, crit_end := wadd p (CRIT_SIZE - 1)\<rparr>"
    have mv: "fe_ok (p, CRIT_SIZE)" "heap_inv mmap minv h1 (block p CRIT_SIZE)"
      using s False by (auto simp: moved_def)
    have e: "heap_init ink mmap (heap_boot m) pregrow = Some ?h'"
      using s(1) False by (simp add: heap_init_def)
    have v: "crit_view ?h = crit_view (heap_boot m)" by (rule pregrow_heap_view) (simp add: heap_boot_def)
    have "ker_crit_list h1 = []" using smalloc_view[OF s(1)] v by (simp add: crit_view_def heap_boot_def)
    then have "heap_inv mmap minv ?h' {}"
      using mv by (auto simp: heap_inv_def lists_ok_def heap_free_def pregrown_def Un_ac)
    moreover have "{q. IS_CRIT ?h' q} = fl_set (ker_crit_list ?h')"
      using mv(1) b by (auto simp: IS_CRIT_def block_def wadd_exact fe_ok_def)
    ultimately show ?thesis using e by blast
  qed
qed

theorem heap_init_witness:
  "(\<exists>h'. heap_init False bump_mmap heap0 0x10000 = Some h' \<and> heap_inv bump_mmap bump_inv h' {})"
proof -
  have "bump_inv 0x100000 {}" by (simp add: bump_inv_def pagesize_def)
  moreover have "\<not> refused bump_mmap (pregrow_heap bump_mmap (heap_boot 0x100000) 0x10000) CRIT_SIZE"
  proof -
    have "roundup_page 0x10000 = 0x10000" "roundup_page (CRIT_SIZE + sizeof_free_entry) = 0x5000"
      by (simp_all add: roundup_page_def pagesize_def CRIT_SIZE_def sizeof_free_entry_def wadd_def)
    moreover have "pregrow_size (pregrow_heap bump_mmap (heap_boot 0x100000) 0x10000) = 0x10000"
      using calculation
      by (simp add: pregrow_heap_def heap_alloc_def heap_boot_def bump_mmap_def pagesize_def)
    ultimately show ?thesis by (simp add: refused_def heap_alloc_def)
  qed
  ultimately show ?thesis
    using heap_init_establishes[OF bump_ok, of "0x100000" "0x10000" False] by (auto simp: heap0_def)
qed

end
