(* ===== verification/Vector.thy ===== *)
theory Vector
  imports Heap_Proofs
begin

text \<open>
  The object tables of the nanokernel, \<open>kernel/nano/nano_vector.c\<close>: a growable array of
  pointers indexed by small integers (thread, connection and channel ids). A free slot carries
  bit 0 and links to the next free slot, so the free list runs through the array in ascending
  order; bit 1 of a used slot is a flag of its owner.

  A pointer value is a nat below \<open>2 ^ 64\<close>. The counters \<open>nentries\<close> and \<open>nfree\<close> are 16-bit. The block \<open>vec->vector\<close> points to is the list
  \<open>slots\<close>, eight bytes per element; following a link is an access of that block and leaves
  defined behaviour (\<open>None\<close>) outside it. A \<open>void **\<close> that the code stores through is a \<open>loc\<close>.
\<close>

section \<open>Data\<close>

definition VECTOR_MAX :: nat where
  "VECTOR_MAX = 0xffff - 1"

record vec =
  nentries :: nat
  nfree :: nat
  vfree :: nat
  vector :: addr
  slots :: "nat list"

definition vec0 :: vec where
  "vec0 = \<lparr>nentries = 0, nfree = 0, vfree = 0, vector = 0, slots = []\<rparr>"

datatype loc = Free_head | Slot nat

definition NOT2 :: nat where
  "NOT2 = 0xFFFFFFFFFFFFFFFD"

definition NOT3 :: nat where
  "NOT3 = 0xFFFFFFFFFFFFFFFC"

definition VECAND :: "nat \<Rightarrow> nat \<Rightarrow> nat" where
  "VECAND p bits = bits AND p"

definition VECOR :: "nat \<Rightarrow> nat \<Rightarrow> nat" where
  "VECOR p bits = bits OR p"

definition slot_addr :: "vec \<Rightarrow> nat \<Rightarrow> addr" where
  "slot_addr v i = wadd (vector v) (8 * i)"

definition slot_at :: "vec \<Rightarrow> addr \<Rightarrow> nat option" where
  "slot_at v a = (if vector v \<le> a \<and> (a - vector v) mod 8 = 0 \<and> (a - vector v) div 8 < length (slots v)
                  then Some ((a - vector v) div 8) else None)"

fun load :: "vec \<Rightarrow> loc \<Rightarrow> nat option" where
  "load v Free_head = Some (vfree v)"
| "load v (Slot i) = (if i < length (slots v) then Some (slots v ! i) else None)"

fun store :: "vec \<Rightarrow> loc \<Rightarrow> nat \<Rightarrow> vec" where
  "store v Free_head x = v\<lparr>vfree := x\<rparr>"
| "store v (Slot i) x = v\<lparr>slots := (slots v)[i := x]\<rparr>"

section \<open>Lookups\<close>

definition VECP :: "nat \<Rightarrow> nat" where
  "VECP x = (if x AND 3 \<noteq> 0 then 0 else x)"

definition VECP2 :: "nat \<Rightarrow> nat" where
  "VECP2 x = (if x AND 1 \<noteq> 0 then 0 else VECAND x NOT3)"

definition as_unsigned :: "int \<Rightarrow> nat" where
  "as_unsigned i = nat (i mod 2 ^ 32)"

definition vector_lookup :: "vec option \<Rightarrow> int \<Rightarrow> nat option" where
  "vector_lookup vo i =
     (case vo of
        None \<Rightarrow> Some 0
      | Some v \<Rightarrow> if as_unsigned i < nentries v then map_option VECP (load v (Slot (as_unsigned i))) else Some 0)"

definition vector_lookup2 :: "vec option \<Rightarrow> int \<Rightarrow> nat option" where
  "vector_lookup2 vo i =
     (case vo of
        None \<Rightarrow> Some 0
      | Some v \<Rightarrow>
          if as_unsigned i < nentries v
          then (case load v (Slot (as_unsigned i)) of
                  None \<Rightarrow> None
                | Some x \<Rightarrow> Some (if VECAND x 1 = 0 then VECAND x NOT3 else 0))
          else Some 0)"

text \<open>
  The search loop. \<open>found\<close> says whether the caller passed an address for the index; the result
  is the pointer and the index stored there, if any.
\<close>

function search_loop :: "vec \<Rightarrow> nat \<Rightarrow> bool \<Rightarrow> (nat \<times> nat option) option" where
  "search_loop v i found =
     (if i < nentries v then
        (case load v (Slot i) of
           None \<Rightarrow> None
         | Some x \<Rightarrow>
             if found then (if VECP2 x \<noteq> 0 then Some (VECP2 x, Some i) else search_loop v (Suc i) found)
             else Some (VECP2 x, None))
      else Some (0, None))"
  by pat_completeness auto
termination
  by (relation "measure (\<lambda>(v, i, _). nentries v - i)") auto

definition vector_search :: "vec option \<Rightarrow> nat \<Rightarrow> bool \<Rightarrow> (nat \<times> nat option) option" where
  "vector_search vo i found =
     (case vo of
        None \<Rightarrow> Some (0, None)
      | Some v \<Rightarrow> if nfree v < nentries v then search_loop v i found else Some (0, None))"

section \<open>Insertion\<close>

text \<open>The loop that looks for a free slot at or above \<open>index\<close>: the link to it and its index.\<close>

primrec find_slot :: "nat \<Rightarrow> vec \<Rightarrow> loc \<Rightarrow> nat \<Rightarrow> (loc \<times> nat) option option" where
  "find_slot 0 v prev index = None"
| "find_slot (Suc fuel) v prev index =
     (case load v prev of
        None \<Rightarrow> None
      | Some x \<Rightarrow>
          if VECAND x NOT3 = 0 then Some None
          else (case slot_at v (VECAND x NOT3) of
                  None \<Rightarrow> None
                | Some i \<Rightarrow> if index \<le> i then Some (Some (prev, i))
                            else find_slot fuel v (Slot i) index))"

definition take_slot :: "vec \<Rightarrow> loc \<Rightarrow> nat \<Rightarrow> nat \<Rightarrow> vec" where
  "take_slot v prev i object =
     (let v1 = store v prev (slots v ! i);
          v2 = store v1 (Slot i) object
      in v2\<lparr>nfree := (nfree v2 + (2 ^ 16 - 1)) mod 2 ^ 16\<rparr>)"

definition grown_size :: "vec \<Rightarrow> nat \<Rightarrow> nat" where
  "grown_size v index =
     (let n = (if nentries v \<le> index then (index + 1) mod 2 ^ 32
               else nentries v + (nentries v + 4) div 4);
          n = (if n < 8 then 8 else n)
      in if VECTOR_MAX < n then VECTOR_MAX else n)"

text \<open>
  \<open>*(int *) prev += adjust\<close>: the low half of the link is changed, with the difference of the
  two blocks cut to an \<open>int\<close>.
\<close>

definition add_int :: "nat \<Rightarrow> nat \<Rightarrow> nat" where
  "add_int x adjust = x div 2 ^ 32 * 2 ^ 32 + (x mod 2 ^ 32 + adjust) mod 2 ^ 32"

definition adjust_of :: "addr \<Rightarrow> addr \<Rightarrow> nat" where
  "adjust_of p optr = wsub p optr mod 2 ^ 32"

text \<open>The fix-up of the links in the copy; it ends at the last link.\<close>

primrec fixup :: "nat \<Rightarrow> vec \<Rightarrow> loc \<Rightarrow> nat \<Rightarrow> (vec \<times> loc) option" where
  "fixup 0 v prev adjust = None"
| "fixup (Suc fuel) v prev adjust =
     (case load v prev of
        None \<Rightarrow> None
      | Some x \<Rightarrow>
          if VECAND x NOT3 = 0 then Some (v, prev)
          else (let y = add_int x adjust; v1 = store v prev y in
                case slot_at v1 (VECAND y NOT3) of
                       None \<Rightarrow> None
                     | Some i \<Rightarrow> fixup fuel v1 (Slot i) adjust))"

definition new_links :: "addr \<Rightarrow> nat \<Rightarrow> nat \<Rightarrow> nat list" where
  "new_links p n m = map (\<lambda>j. if Suc j = m then VECOR 0 1 else VECOR (wadd p (8 * Suc j)) 1) [n..<m]"

definition vector_grow :: "bool \<Rightarrow> 'm mmap_fun \<Rightarrow> 'm heap \<Rightarrow> vec \<Rightarrow> nat \<Rightarrow> ('m heap \<times> vec option) option" where
  "vector_grow ink mmap h v m =
     (case scalloc ink mmap h (m * 8) of
        None \<Rightarrow> None
      | Some (h1, p) \<Rightarrow>
          if p = 0 then Some (h1, None)
          else if m \<le> nentries v then None
          else
            (let v1 = v\<lparr>vector := p, slots := slots v @ replicate (m - nentries v) 0\<rparr>
             in case fixup (Suc (Suc (nentries v))) v1 Free_head (adjust_of p (vector v)) of
                  None \<Rightarrow> None
                | Some (v2, prev) \<Rightarrow>
                    (case sfree ink mmap h1 (vector v) (nentries v * 8) of
                       None \<Rightarrow> None
                     | Some h2 \<Rightarrow>
                         (let v3 = store v2 prev (VECOR (slot_addr v2 (nentries v)) 1)
                          in Some (h2, Some (v3\<lparr>slots := take (nentries v) (slots v3) @ new_links p (nentries v) m,
                               nfree := (nfree v + (m - nentries v)) mod 2 ^ 16, nentries := m\<rparr>))))))"

text \<open>The result is an index or \<open>-1\<close>. The recursive call of the code is the fuel.\<close>

primrec vector_add_n :: "nat \<Rightarrow> bool \<Rightarrow> 'm mmap_fun \<Rightarrow> 'm heap \<Rightarrow> vec \<Rightarrow> nat \<Rightarrow> nat \<Rightarrow> ('m heap \<times> vec \<times> int) option" where
  "vector_add_n 0 ink mmap h v object index = None"
| "vector_add_n (Suc f) ink mmap h v object index =
     (if VECAND object 3 \<noteq> 0 then None
      else case find_slot (Suc (nentries v)) v Free_head index of
             None \<Rightarrow> None
           | Some (Some (prev, i)) \<Rightarrow> Some (h, take_slot v prev i object, int i)
           | Some None \<Rightarrow>
               if nentries v = VECTOR_MAX then Some (h, v, - 1)
               else (case vector_grow ink mmap h v (grown_size v index) of
                       None \<Rightarrow> None
                     | Some (h1, None) \<Rightarrow> Some (h1, v, - 1)
                     | Some (h1, Some v1) \<Rightarrow>
                         if object \<noteq> 0 then vector_add_n f ink mmap h1 v1 object index
                         else Some (h1, v1, int index)))"

definition vector_add :: "bool \<Rightarrow> 'm mmap_fun \<Rightarrow> 'm heap \<Rightarrow> vec \<Rightarrow> nat \<Rightarrow> nat \<Rightarrow> ('m heap \<times> vec \<times> int) option" where
  "vector_add = vector_add_n 2"

section \<open>Removal and flags\<close>

primrec scan_back :: "nat \<Rightarrow> vec \<Rightarrow> addr \<Rightarrow> loc option" where
  "scan_back 0 v a = None"
| "scan_back (Suc fuel) v a =
     (case slot_at v a of
        None \<Rightarrow> None
      | Some i \<Rightarrow> if VECAND (slots v ! i) 1 = 0 then scan_back fuel v (wsub a 8) else Some (Slot i))"

definition vector_rem :: "vec \<Rightarrow> nat \<Rightarrow> (vec \<times> nat) option" where
  "vector_rem v index =
     (if nentries v \<le> index then Some (v, 0)
      else case load v (Slot index) of
             None \<Rightarrow> None
           | Some x \<Rightarrow>
               if VECAND x 1 \<noteq> 0 then Some (v, 0)
               else
                 (let vecp = slot_addr v ((index + (2 ^ 32 - 1)) mod 2 ^ 32);
                      head = VECAND (vfree v) NOT3
                  in case (if head = 0 \<or> vecp < head then Some Free_head
                           else scan_back (nentries v) v vecp) of
                       None \<Rightarrow> None
                     | Some lc \<Rightarrow>
                         (case load v lc of
                            None \<Rightarrow> None
                          | Some y \<Rightarrow>
                              (let v1 = store v (Slot index) y;
                                   v2 = store v1 lc (VECOR (slot_addr v index) 1)
                               in Some (v2\<lparr>nfree := (nfree v2 + 1) mod 2 ^ 16\<rparr>, VECAND x NOT3)))))"

definition vector_flag :: "vec \<Rightarrow> nat \<Rightarrow> bool \<Rightarrow> (vec \<times> int) option" where
  "vector_flag v index flag =
     (if nentries v \<le> index then Some (v, - 1)
      else case load v (Slot index) of
             None \<Rightarrow> None
           | Some x \<Rightarrow>
               if VECAND x 1 \<noteq> 0 then Some (v, - 1)
               else Some (store v (Slot index) (if flag then VECOR x 2 else VECAND x NOT2), 0))"

definition vector_free :: "bool \<Rightarrow> 'm mmap_fun \<Rightarrow> 'm heap \<Rightarrow> vec \<Rightarrow> ('m heap \<times> vec) option" where
  "vector_free ink mmap h v =
     map_option (\<lambda>h1. (h1, v\<lparr>nentries := 0, nfree := 0, vector := 0, slots := []\<rparr>))
       (sfree ink mmap h (vector v) (nentries v * 8))"

end
