(* ===== verification/Vector_Proofs.thy ===== *)
theory Vector_Proofs
  imports Vector
begin

text \<open>
  The invariant of the object tables and its preservation: the free list is the ascending list
  of the tagged slots, linked through the slots themselves, before and after every operation,
  growth with its relocation of the links included.
\<close>

section \<open>Tag bits\<close>

lemma NOT3_eq: "x < 2 ^ 64 \<Longrightarrow> VECAND x NOT3 = x div 4 * 4"
  using and_high_mask[of x 2 62]
  by (simp add: VECAND_def NOT3_def mask_eq_exp_minus_1 push_bit_eq_mult and.commute)

lemma VECAND_1: "VECAND x (Suc 0) = x mod 2"
  using one_and_eq[of x] by (simp add: VECAND_def)

lemma VECAND_3: "VECAND x 3 = x mod 4"
  using take_bit_eq_mask[of 2 x] by (simp add: VECAND_def take_bit_eq_mod mask_eq_exp_minus_1 and.commute)

lemma VECOR_1: "even x \<Longrightarrow> VECOR x (Suc 0) = Suc x"
  using one_or_eq[of x] by (simp add: VECOR_def)

section \<open>The invariant\<close>

text \<open>A chain of links: the value of the first link, and the free slots in order.\<close>

fun chain :: "addr \<Rightarrow> nat list \<Rightarrow> nat \<Rightarrow> nat list \<Rightarrow> bool" where
  "chain b s x [] \<longleftrightarrow> x = 1"
| "chain b s x (i # fs) \<longleftrightarrow> x = b + 8 * i + 1 \<and> i < length s \<and> chain b s (s ! i) fs"

definition free_slots :: "nat list \<Rightarrow> nat list" where
  "free_slots s = filter (\<lambda>i. odd (s ! i)) [0..<length s]"

definition vec_ok :: "vec \<Rightarrow> bool" where
  "vec_ok v \<longleftrightarrow> nentries v = length (slots v) \<and> nentries v \<le> VECTOR_MAX
     \<and> nfree v = length (free_slots (slots v)) \<and> (\<forall>i < length (slots v). slots v ! i < 2 ^ 64)
     \<and> (if nentries v = 0 then vfree v = 0 \<and> vector v = 0
        else 8 dvd vector v \<and> 0 < vector v \<and> vector v + 8 * nentries v < 2 ^ 64
          \<and> chain (vector v) (slots v) (vfree v) (free_slots (slots v)))"

lemma free_slots_set [simp]: "set (free_slots s) = {i. i < length s \<and> odd (s ! i)}"
  by (auto simp: free_slots_def)

lemma free_slots_sorted [simp]: "sorted_wrt (<) (free_slots s)"
  by (simp add: free_slots_def sorted_wrt_filter)

lemma free_slots_unique: "sorted_wrt (<) fs \<Longrightarrow> set fs = {i. i < length s \<and> odd (s ! i)} \<Longrightarrow> free_slots s = fs"
  by (metis free_slots_set free_slots_sorted strict_sorted_equal)

text \<open>The link that points to the slot after the free slots \<open>xs\<close>.\<close>

definition last_loc :: "nat list \<Rightarrow> loc" where
  "last_loc xs = (if xs = [] then Free_head else Slot (last xs))"

definition slot_of_loc :: "nat \<Rightarrow> nat list \<Rightarrow> loc \<Rightarrow> nat" where
  "slot_of_loc x s l = (case l of Free_head \<Rightarrow> x | Slot i \<Rightarrow> s ! i)"

lemma chain_drop: "chain b s x (xs @ ys) \<Longrightarrow> chain b s (slot_of_loc x s (last_loc xs)) ys"
proof (induction xs arbitrary: x)
  case (Cons i xs)
  then show ?case by (cases xs) (auto simp: slot_of_loc_def last_loc_def)
qed (simp add: slot_of_loc_def last_loc_def)

text \<open>Redirecting one link: the chain continues with whatever chain the new value starts.\<close>

lemma chain_upd: "chain b s x fs \<Longrightarrow> j \<notin> set fs \<Longrightarrow> chain b (s[j := y]) x fs"
  by (induction fs arbitrary: x) auto

lemma chain_relink:
  assumes "chain b s x (xs @ ys)" "distinct xs" "chain b s' y zs"
    and "s' = (if xs = [] then s else s[last xs := y])"
    and "set xs \<inter> set zs = {}"
  shows "chain b s' (if xs = [] then y else x) (xs @ zs)"
  using assms
proof (induction xs arbitrary: x)
  case (Cons i xs)
  show ?case
  proof (cases xs)
    case Nil
    then show ?thesis using Cons.prems by auto
  next
    case (Cons a list)
    then have "last xs \<in> set xs" by simp
    then have "last xs \<noteq> i" using Cons.prems by auto
    then show ?thesis using Cons Cons.prems Cons.IH[of "s ! i"] by auto
  qed
qed simp


section \<open>Insertion into a free slot\<close>

lemma link_target: "8 dvd b \<Longrightarrow> b + 8 * i + 1 < 2 ^ 64 \<Longrightarrow> VECAND (b + 8 * i + 1) NOT3 = b + 8 * i"
proof (subst NOT3_eq)
  assume "8 dvd b"
  then show "(b + 8 * i + 1) div 4 * 4 = b + 8 * i" by presburger
qed

lemma slot_at_link: "i < length (slots v) \<Longrightarrow> slot_at v (vector v + 8 * i) = Some i"
  by (simp add: slot_at_def)

lemma load_last_loc:
  "chain b (slots v) x (xs @ ys) \<Longrightarrow> load v (last_loc xs) = Some (slot_of_loc (vfree v) (slots v) (last_loc xs))"
proof (induction xs arbitrary: x)
  case (Cons i xs)
  then show ?case by (cases xs) (auto simp: last_loc_def slot_of_loc_def)
qed (simp add: last_loc_def slot_of_loc_def)

lemma find_slot_ok:
  assumes "8 dvd vector v" "0 < vector v" "vector v + 8 * length (slots v) < 2 ^ 64"
    and "chain (vector v) (slots v) (vfree v) (xs @ ys)" "length ys < fuel"
  shows "find_slot fuel v (last_loc xs) index =
     Some (case dropWhile (\<lambda>i. i < index) ys of [] \<Rightarrow> None
           | i # _ \<Rightarrow> Some (last_loc (xs @ takeWhile (\<lambda>i. i < index) ys), i))"
  using assms
proof (induction ys arbitrary: xs fuel)
  case Nil
  have "slot_of_loc (vfree v) (slots v) (last_loc xs) = 1" using chain_drop[OF Nil(4)] by simp
  moreover obtain f where "fuel = Suc f" using Nil by (cases fuel) auto
  ultimately show ?case using load_last_loc[OF Nil(4)] by (simp add: NOT3_eq)
next
  case (Cons i ys)
  have c: "slot_of_loc (vfree v) (slots v) (last_loc xs) = vector v + 8 * i + 1" "i < length (slots v)"
    using chain_drop[OF Cons.prems(4)] by auto
  obtain f where f: "fuel = Suc f" "length ys < f" using Cons by (cases fuel) auto
  have t: "VECAND (vector v + 8 * i + 1) NOT3 = vector v + 8 * i"
    using Cons.prems c by (intro link_target) auto
  have IH: "find_slot f v (Slot i) index =
     Some (case dropWhile (\<lambda>i. i < index) ys of [] \<Rightarrow> None
           | j # _ \<Rightarrow> Some (last_loc ((xs @ [i]) @ takeWhile (\<lambda>i. i < index) ys), j))"
    using Cons.IH[of "xs @ [i]" f] Cons.prems f by (simp add: last_loc_def)
  show ?case
    using load_last_loc[OF Cons.prems(4)] c t f IH slot_at_link[OF c(2)] Cons.prems(2)
    by (auto cong: list.case_cong)
qed

lemma last_loc_store:
  "slots (store v (last_loc xs) y) = (if xs = [] then slots v else (slots v)[last xs := y])"
  "vfree (store v (last_loc xs) y) = (if xs = [] then y else vfree v)"
  "vector (store v l y) = vector v" "nentries (store v l y) = nentries v" "nfree (store v l y) = nfree v"
  by (cases l; simp add: last_loc_def)+

definition vec_fits :: "vec \<Rightarrow> bool" where
  "vec_fits v \<longleftrightarrow> nentries v = length (slots v) \<and> nentries v \<le> VECTOR_MAX
     \<and> 8 dvd vector v \<and> 0 < vector v \<and> vector v + 8 * nentries v < 2 ^ 64"

lemma vec_okI:
  assumes "vec_fits v" "0 < nentries v" "\<forall>i < length (slots v). slots v ! i < 2 ^ 64"
    and "chain (vector v) (slots v) (vfree v) fs" "sorted_wrt (<) fs"
    and "set fs = {i. i < length (slots v) \<and> odd (slots v ! i)}" "nfree v = length fs"
  shows "vec_ok v" "free_slots (slots v) = fs"
  using assms free_slots_unique[OF assms(5,6)] by (auto simp: vec_ok_def vec_fits_def)

lemma vec_okD:
  assumes "vec_ok v" "0 < nentries v"
  shows "vec_fits v" "\<forall>i < length (slots v). slots v ! i < 2 ^ 64"
    "chain (vector v) (slots v) (vfree v) (free_slots (slots v))" "nfree v = length (free_slots (slots v))"
  using assms by (auto simp: vec_ok_def vec_fits_def)

lemma free_slots_bound: "length (free_slots s) \<le> length s"
  by (simp add: free_slots_def) (metis length_filter_le length_upt diff_zero)

lemma take_slot_ok:
  assumes ok: "vec_ok v" and fs: "free_slots (slots v) = xs @ i # ys" and ob: "even object" "object < 2 ^ 64"
  defines "v' \<equiv> take_slot v (last_loc xs) i object"
  shows "vec_ok v'" "free_slots (slots v') = xs @ ys" "slots v' ! i = object" "i < nentries v"
    "nentries v' = nentries v" "vector v' = vector v"
    "\<And>j. j < nentries v \<Longrightarrow> even (slots v ! j) \<Longrightarrow> slots v' ! j = slots v ! j"
proof -
  let ?s = "slots v" let ?s1 = "if xs = [] then ?s else ?s[last xs := ?s ! i]"
  have st: "set (xs @ i # ys) = {j. j < length ?s \<and> odd (?s ! j)}" "sorted_wrt (<) (xs @ i # ys)"
    using free_slots_set[of ?s] free_slots_sorted[of ?s] unfolding fs by auto
  have i: "i < length ?s" "odd (?s ! i)" using st(1) by auto
  have n0: "0 < nentries v" using i ok by (auto simp: vec_ok_def)
  note d = vec_okD[OF ok n0]
  have srt: "sorted_wrt (<) (xs @ ys)" "distinct xs" "i \<notin> set (xs @ ys)" "set xs \<inter> set ys = {}"
    using st(2) by (auto simp: sorted_wrt_append strict_sorted_iff)
  have ln: "xs \<noteq> [] \<Longrightarrow> last xs \<in> set xs \<and> last xs \<notin> set ys \<and> last xs < length ?s \<and> odd (?s ! last xs)"
  proof -
    assume "xs \<noteq> []"
    then have l: "last xs \<in> set xs" by simp
    then have "last xs \<in> {j. j < length ?s \<and> odd (?s ! j)}" unfolding st(1)[symmetric] by simp
    then show ?thesis using l srt(4) by blast
  qed
  have v': "slots v' = ?s1[i := object]" "vfree v' = (if xs = [] then ?s ! i else vfree v)"
    "vector v' = vector v" "nentries v' = nentries v"
    "nfree v' = (nfree v + (2 ^ 16 - 1)) mod 2 ^ 16"
    unfolding v'_def take_slot_def by (auto simp: last_loc_store Let_def)
  have sl: "slots v' ! j = (if j = i then object else if xs \<noteq> [] \<and> j = last xs then ?s ! i else ?s ! j)"
    if "j < length ?s" for j using that v'(1) by (auto simp: nth_list_update)
  have len: "length (slots v') = length ?s" using v'(1) by simp
  have "chain (vector v) ?s (?s ! i) ys"
    using chain_drop[of "vector v" ?s "vfree v" xs "i # ys"] d(3) fs by simp
  then have "chain (vector v) ?s1 (?s ! i) ys" using ln srt by (auto intro: chain_upd)
  from chain_relink[OF _ srt(2) this refl srt(4)] d(3) fs
  have "chain (vector v) ?s1 (if xs = [] then ?s ! i else vfree v) (xs @ ys)" by simp
  then have ch: "chain (vector v') (slots v') (vfree v') (xs @ ys)"
    using chain_upd srt(3) v' by simp
  have fr: "set (xs @ ys) = {j. j < length (slots v') \<and> odd (slots v' ! j)}"
  proof (rule set_eqI)
    fix j
    have j: "j \<in> set (xs @ i # ys) \<longleftrightarrow> j < length ?s \<and> odd (?s ! j)" unfolding st(1) by simp
    show "j \<in> set (xs @ ys) \<longleftrightarrow> j \<in> {j. j < length (slots v') \<and> odd (slots v' ! j)}"
    proof (cases "j < length ?s")
      case True
      consider "j = i" | "j \<noteq> i" "xs \<noteq> []" "j = last xs" | "j \<noteq> i" "slots v' ! j = ?s ! j"
        using sl[OF True] by (auto split: if_splits)
      then show ?thesis
      proof cases
        case 1
        then show ?thesis using sl[OF True] ob(1) srt(3) by simp
      next
        case 2
        then show ?thesis using sl[OF True] i(2) ln[OF 2(2)] len by simp
      next
        case 3
        then show ?thesis using j len by auto
      qed
    next
      case False
      then show ?thesis using j len by simp
    qed
  qed
  have lt: "\<forall>i < length (slots v'). slots v' ! i < 2 ^ 64"
    using d(2) ob i by (auto simp: sl len)
  have nf: "nfree v' = length (xs @ ys)"
  proof -
    have "nfree v = Suc (length (xs @ ys))" using d(4) fs by simp
    moreover have "nfree v < 2 ^ 16"
      using d(1,4) free_slots_bound[of ?s] by (simp add: vec_fits_def VECTOR_MAX_def)
    ultimately show ?thesis using v'(5) by (simp add: mod_if)
  qed
  have fit: "vec_fits v'" using d(1) v' len by (simp add: vec_fits_def)
  show "vec_ok v'" "free_slots (slots v') = xs @ ys"
    using vec_okI[OF fit _ lt ch srt(1) fr nf] n0 v' by auto
  show "slots v' ! i = object" "i < nentries v" using i sl d(1) by (auto simp: vec_fits_def)
  show "nentries v' = nentries v" "vector v' = vector v" using v' by auto
  show "slots v' ! j = ?s ! j" if "j < nentries v" "even (?s ! j)" for j
    using that sl[of j] i d(1) ln by (auto simp: vec_fits_def)
qed

section \<open>Growth\<close>

text \<open>A segment of the free list: the links along \<open>xs\<close>, the last of which has the value \<open>z\<close>.\<close>

fun links :: "addr \<Rightarrow> nat list \<Rightarrow> nat \<Rightarrow> nat list \<Rightarrow> nat \<Rightarrow> bool" where
  "links b s x [] z \<longleftrightarrow> x = z"
| "links b s x (i # xs) z \<longleftrightarrow> x = b + 8 * i + 1 \<and> i < length s \<and> links b s (s ! i) xs z"

lemma chain_links: "chain b s x fs \<longleftrightarrow> links b s x fs 1"
  by (induction fs arbitrary: x) auto

lemma links_append: "links b s x (xs @ ys) z \<longleftrightarrow> (\<exists>y. links b s x xs y \<and> links b s y ys z)"
  by (induction xs arbitrary: x) auto

lemma links_upd: "links b s x xs z \<Longrightarrow> j \<notin> set xs \<Longrightarrow> links b (s[j := y]) x xs z"
  by (induction xs arbitrary: x) auto

lemma links_relink:
  "links b s x xs z \<Longrightarrow> distinct xs \<Longrightarrow>
     links b (if xs = [] then s else s[last xs := y]) (if xs = [] then y else x) xs y"
proof (induction xs arbitrary: x)
  case (Cons i xs)
  show ?case
  proof (cases "xs = []")
    case False
    then have "last xs \<noteq> i" using Cons.prems last_in_set[OF False] by auto
    then show ?thesis using False Cons.prems Cons.IH[of "s ! i"] by auto
  qed (use Cons.prems in auto)
qed simp

lemma links_load:
  "links b (slots v) (vfree v) xs z \<Longrightarrow> load v (last_loc xs) = Some z"
proof (induction xs rule: rev_induct)
  case (snoc i xs)
  then show ?case by (auto simp: links_append last_loc_def)
qed (simp add: last_loc_def)

definition rebased :: "addr \<Rightarrow> addr \<Rightarrow> nat list \<Rightarrow> bool" where
  "rebased b p fs \<longleftrightarrow> (\<forall>i \<in> set fs. add_int (b + 8 * i + 1) (adjust_of p b) = p + 8 * i + 1)"

text \<open>The 32-bit fix-up is right when the two blocks lie in the same 4 GiB window.\<close>

lemma add_int_window:
  assumes "x + d < 2 ^ 64" "y + d < 2 ^ 64" "(x + d) div 2 ^ 32 = (y + d) div 2 ^ 32"
  shows "add_int (x + d) (adjust_of y x) = y + d"
proof -
  have w: "wsub y x mod 2 ^ 32 = (y + (2 ^ 64 - x)) mod 2 ^ 32"
    using assms by (simp add: wsub_def mod_mod_cancel)
  have "x + d + (y + (2 ^ 64 - x)) = y + d + 2 ^ 32 * 2 ^ 32" using assms by simp
  then have "(x + d + (y + (2 ^ 64 - x))) mod 2 ^ 32 = (y + d) mod 2 ^ 32"
    by (simp only: mod_mult_self2)
  then have "((x + d) mod 2 ^ 32 + wsub y x mod 2 ^ 32) mod 2 ^ 32 = (y + d) mod 2 ^ 32"
    unfolding w by (metis mod_add_eq)
  then show ?thesis unfolding add_int_def adjust_of_def assms(3) by (simp add: div_mult_mod_eq)
qed

lemma tagged_window:
  assumes "8 dvd (b::nat)"
  shows "(b + 8 * k + 1) div 2 ^ 32 = (b + 8 * k) div 2 ^ 32"
proof -
  have "(b + 8 * k + 1) div 2 = (b + 8 * k) div 2" using assms by presburger
  then show ?thesis
    using div_mult2_eq[of "b + 8 * k + 1" 2 "2 ^ 31"] div_mult2_eq[of "b + 8 * k" 2 "2 ^ 31"] by simp
qed

lemma rebased_window:
  assumes "8 dvd b" "8 dvd p" "\<forall>i \<in> set fs. b + 8 * i + 1 < 2 ^ 64 \<and> p + 8 * i + 1 < 2 ^ 64
      \<and> (p + 8 * i) div 2 ^ 32 = (b + 8 * i) div 2 ^ 32"
  shows "rebased b p fs"
  unfolding rebased_def
proof
  fix i
  assume "i \<in> set fs"
  then show "add_int (b + 8 * i + 1) (adjust_of p b) = p + 8 * i + 1"
    using add_int_window[of b "8 * i + 1" p] assms tagged_window[OF assms(1), of i] tagged_window[OF assms(2), of i]
    by (simp add: add.assoc)
qed

lemma fixup_ok:
  assumes "links (vector v) (slots v) (vfree v) xs z" "links b (slots v) z ys 1"
    and "sorted_wrt (<) (xs @ ys)" "length ys < fuel"
    and "8 dvd b" "\<forall>i \<in> set ys. b + 8 * i + 1 < 2 ^ 64" "0 < b"
    and "8 dvd vector v" "vector v + 8 * length (slots v) < 2 ^ 64"
    and "rebased b (vector v) ys"
  shows "\<exists>v'. fixup fuel v (last_loc xs) (adjust_of (vector v) b) = Some (v', last_loc (xs @ ys))
     \<and> links (vector v) (slots v') (vfree v') (xs @ ys) 1
     \<and> vector v' = vector v \<and> nentries v' = nentries v \<and> nfree v' = nfree v
     \<and> length (slots v') = length (slots v)
     \<and> (\<forall>j. j \<notin> set (xs @ ys) \<longrightarrow> slots v' ! j = slots v ! j)"
  using assms
proof (induction ys arbitrary: v xs z fuel)
  case Nil
  obtain f where "fuel = Suc f" using Nil.prems by (cases fuel) auto
  then show ?case using Nil.prems links_load[OF Nil.prems(1)] by (simp add: NOT3_eq)
next
  case (Cons i ys)
  obtain f where f: "fuel = Suc f" "length ys < f" using Cons.prems by (cases fuel) auto
  have z: "z = b + 8 * i + 1" "i < length (slots v)" "links b (slots v) (slots v ! i) ys 1"
    using Cons.prems(2) by auto
  let ?y = "vector v + 8 * i + 1" let ?v = "store v (last_loc xs) ?y"
  have y: "add_int z (adjust_of (vector v) b) = ?y" using Cons.prems(10) z by (simp add: rebased_def)
  have zt: "VECAND z NOT3 \<noteq> 0" using link_target[of b i] Cons.prems z by simp
  have yt: "VECAND ?y NOT3 = vector v + 8 * i" using Cons.prems z by (intro link_target) auto
  have ds: "distinct xs" "i \<notin> set xs" "i \<notin> set ys" "set xs \<inter> set ys = {}"
    using Cons.prems(3) by (auto simp: sorted_wrt_append strict_sorted_iff)
  have sl: "slots ?v = (if xs = [] then slots v else (slots v)[last xs := ?y])"
    "vfree ?v = (if xs = [] then ?y else vfree v)" by (simp_all add: last_loc_store)
  have ln: "xs \<noteq> [] \<Longrightarrow> last xs \<noteq> i" "xs \<noteq> [] \<Longrightarrow> last xs \<notin> set ys"
    using ds last_disjoint[of xs "{i}"] last_disjoint[of xs "set ys"] by auto
  have "links (vector v) (slots ?v) (vfree ?v) xs ?y"
    unfolding sl by (rule links_relink[OF Cons.prems(1) ds(1)])
  then have l1: "links (vector ?v) (slots ?v) (vfree ?v) (xs @ [i]) (slots v ! i)"
    using z(2) ln(1) sl by (auto simp: links_append last_loc_store)
  have l2: "links b (slots ?v) (slots v ! i) ys 1"
    using z(3) ln(2) sl links_upd by (cases "xs = []") auto
  have loc: "last_loc (xs @ [i]) = Slot i" by (simp add: last_loc_def)
  have "\<exists>v'. fixup f ?v (last_loc (xs @ [i])) (adjust_of (vector ?v) b) = Some (v', last_loc ((xs @ [i]) @ ys))
     \<and> links (vector ?v) (slots v') (vfree v') ((xs @ [i]) @ ys) 1
     \<and> vector v' = vector ?v \<and> nentries v' = nentries ?v \<and> nfree v' = nfree ?v
     \<and> length (slots v') = length (slots ?v)
     \<and> (\<forall>j. j \<notin> set ((xs @ [i]) @ ys) \<longrightarrow> slots v' ! j = slots ?v ! j)"
    by (rule Cons.IH[OF l1 l2])
      (use Cons.prems f sl in \<open>auto simp: last_loc_store rebased_def\<close>)
  then obtain v' where v': "fixup f ?v (Slot i) (adjust_of (vector v) b) = Some (v', last_loc (xs @ i # ys))"
    "links (vector v) (slots v') (vfree v') (xs @ i # ys) 1"
    "vector v' = vector v" "nentries v' = nentries v" "nfree v' = nfree v"
    "length (slots v') = length (slots ?v)" "\<forall>j. j \<notin> set (xs @ i # ys) \<longrightarrow> slots v' ! j = slots ?v ! j"
    by (auto simp: loc last_loc_store)
  have at: "slot_at ?v (vector v + 8 * i) = Some i"
    using slot_at_link[of i ?v] z(2) sl by (auto simp: last_loc_store split: if_splits)
  have "fixup fuel v (last_loc xs) (adjust_of (vector v) b) = Some (v', last_loc (xs @ i # ys))"
    using f links_load[OF Cons.prems(1)] zt y yt at v'(1) by (simp add: Let_def)
  moreover have "\<forall>j. j \<notin> set (xs @ i # ys) \<longrightarrow> slots ?v ! j = slots v ! j"
    using sl last_disjoint[of xs "{j}" for j] by auto
  ultimately show ?case using v' sl by auto
qed

lemma links_take:
  "links b s x xs z \<Longrightarrow> \<forall>i \<in> set xs. i < n \<Longrightarrow> n \<le> length s \<Longrightarrow> links b (take n s @ t) x xs z"
  by (induction xs arbitrary: x) (auto simp: nth_append)

lemma new_links_length [simp]: "length (new_links p n m) = m - n"
  by (simp add: new_links_def)

lemma new_links_nth:
  assumes "length t = n" "n \<le> k" "k < m" "8 dvd p" "p + 8 * m < 2 ^ 64"
  shows "(t @ new_links p n m) ! k = (if Suc k = m then 1 else p + 8 * Suc k + 1)"
proof -
  have "even (p + 8 * Suc k)" using assms(4) by (auto elim!: dvdE)
  then have "VECOR (wadd p (8 * Suc k)) 1 = p + 8 * Suc k + 1"
    using assms by (simp add: wadd_exact VECOR_1)
  moreover have "VECOR 0 1 = 1" by (simp add: VECOR_1)
  ultimately show ?thesis using assms by (simp add: nth_append new_links_def)
qed

lemma new_links_chain:
  assumes "length t = n" "n \<le> k" "k < m" "8 dvd p" "p + 8 * m < 2 ^ 64"
  shows "chain p (t @ new_links p n m) (p + 8 * k + 1) [k..<m]"
proof -
  have "k \<le> m - 1" using assms by simp
  then show ?thesis using assms(2)
  proof (induction rule: inc_induct)
    case base
    obtain m' where "m = Suc m'" using assms by (cases m) auto
    then show ?case using assms base new_links_nth[OF assms(1), of "m - 1"] by auto
  next
    case (step k)
    then have "[k..<m] = k # [Suc k..<m]" by (simp add: upt_conv_Cons)
    moreover have "(t @ new_links p n m) ! k = p + 8 * Suc k + 1"
      using step assms new_links_nth[OF assms(1) step.prems, of m p] by auto
    ultimately show ?case using step assms by auto
  qed
qed

abbreviation vec_owns :: "addr set \<Rightarrow> vec \<Rightarrow> bool" where
  "vec_owns U v \<equiv> nano.owns U (vector v) (nentries v * 8)"

abbreviation vec_owned :: "vec \<Rightarrow> addr set" where
  "vec_owned v \<equiv> nano.owned (vector v) (nentries v * 8)"

lemma fixup_copy:
  assumes ok: "vec_ok v" and m: "nentries v < m" and p: "8 dvd p" "p + 8 * m < 2 ^ 64"
    and rb: "rebased (vector v) p (free_slots (slots v))"
  defines "v1 \<equiv> v\<lparr>vector := p, slots := slots v @ replicate (m - nentries v) 0\<rparr>"
  shows "\<exists>v2. fixup (Suc (Suc (nentries v))) v1 Free_head (adjust_of p (vector v))
        = Some (v2, last_loc (free_slots (slots v)))
     \<and> (\<exists>z. links p (slots v2) (vfree v2) (free_slots (slots v)) z)
     \<and> vector v2 = p \<and> nfree v2 = nfree v \<and> length (slots v2) = m
     \<and> (\<forall>j < nentries v. even (slots v ! j) \<longrightarrow> slots v2 ! j = slots v ! j)"
proof (cases "nentries v = 0")
  case True
  then have "vfree v = 0" "slots v = []" "free_slots (slots v) = []" using ok by (auto simp: vec_ok_def free_slots_def)
  then show ?thesis using True by (auto simp: v1_def NOT3_eq last_loc_def)
next
  case False
  let ?fs = "free_slots (slots v)"
  note d = vec_okD[OF ok]
  have n: "nentries v = length (slots v)" using ok by (simp add: vec_ok_def)
  have "links (vector v) (slots v) (vfree v) ?fs 1" using d False by (simp add: chain_links)
  then have l: "links (vector v) (slots v1) (vfree v1) ?fs 1"
    using links_take[of "vector v" "slots v" "vfree v" ?fs 1 "length (slots v)"] by (simp add: v1_def)
  have "\<exists>v'. fixup (Suc (Suc (nentries v))) v1 (last_loc []) (adjust_of (vector v1) (vector v)) = Some (v', last_loc ([] @ ?fs))
     \<and> links (vector v1) (slots v') (vfree v') ([] @ ?fs) 1
     \<and> vector v' = vector v1 \<and> nentries v' = nentries v1 \<and> nfree v' = nfree v1
     \<and> length (slots v') = length (slots v1)
     \<and> (\<forall>j. j \<notin> set ([] @ ?fs) \<longrightarrow> slots v' ! j = slots v1 ! j)"
  proof (rule fixup_ok[OF _ l])
    show "length ?fs < Suc (Suc (nentries v))" using free_slots_bound[of "slots v"] n by simp
    show "\<forall>i \<in> set ?fs. vector v + 8 * i + 1 < 2 ^ 64" using d(1) False n by (auto simp: vec_fits_def)
  qed (use d False p m rb n in \<open>auto simp: v1_def vec_fits_def\<close>)
  then obtain v2 where v2: "fixup (Suc (Suc (nentries v))) v1 Free_head (adjust_of p (vector v)) = Some (v2, last_loc ?fs)"
    "links p (slots v2) (vfree v2) ?fs 1" "vector v2 = p" "nfree v2 = nfree v" "length (slots v2) = m"
    "\<forall>j. j \<notin> set ?fs \<longrightarrow> slots v2 ! j = slots v1 ! j"
    using m n by (auto simp: v1_def last_loc_def)
  moreover have "slots v1 ! j = slots v ! j" if "j < nentries v" for j
    using that n by (simp add: v1_def nth_append)
  ultimately show ?thesis using n by (intro exI[of _ v2]) auto
qed

lemma chain_head: "chain b s x fs \<Longrightarrow> 8 dvd b \<Longrightarrow> b + 8 * length s < 2 ^ 64 \<Longrightarrow> odd x \<and> x < 2 ^ 64"
  by (cases fs) (auto elim!: dvdE)

lemma chain_member:
  "chain b s x fs \<Longrightarrow> 8 dvd b \<Longrightarrow> b + 8 * length s < 2 ^ 64 \<Longrightarrow> j \<in> set fs \<Longrightarrow> odd (s ! j) \<and> s ! j < 2 ^ 64"
proof (induction fs arbitrary: x)
  case (Cons i fs)
  then show ?case using chain_head[of b s "s ! i" fs] by auto
qed simp

lemma grown_slots_ok:
  assumes ok: "vec_ok v" and m: "nentries v < m" "m \<le> VECTOR_MAX" and p: "0 < p" "8 dvd p" "p + 8 * m < 2 ^ 64"
    and l: "links p (slots v2) (vfree v2) (free_slots (slots v)) z" and ln: "length (slots v2) = m"
    and vp: "vector v2 = p" and nf: "nfree v2 = nfree v"
    and used: "\<forall>j < nentries v. even (slots v ! j) \<longrightarrow> slots v2 ! j = slots v ! j"
  defines "v3 \<equiv> store v2 (last_loc (free_slots (slots v))) (VECOR (slot_addr v2 (nentries v)) 1)"
  defines "v4 \<equiv> v3\<lparr>slots := take (nentries v) (slots v3) @ new_links p (nentries v) m,
                    nfree := (nfree v + (m - nentries v)) mod 2 ^ 16, nentries := m\<rparr>"
  shows "vec_ok v4 \<and> free_slots (slots v4) = free_slots (slots v) @ [nentries v..<m]
    \<and> (\<forall>j < nentries v. even (slots v ! j) \<longrightarrow> slots v4 ! j = slots v ! j)"
proof -
  let ?n = "nentries v" let ?fs = "free_slots (slots v)" let ?y = "p + 8 * ?n + 1"
  have n: "?n = length (slots v)" using ok by (simp add: vec_ok_def)
  have ev: "even (p + 8 * ?n)" using p by (auto elim!: dvdE)
  have y: "VECOR (slot_addr v2 ?n) 1 = ?y"
    using p m vp ev by (simp add: slot_addr_def wadd_exact VECOR_1)
  have ds: "distinct ?fs" "\<forall>i \<in> set ?fs. i < ?n" using free_slots_sorted[of "slots v"] n by (auto simp: strict_sorted_iff)
  have s3: "slots v3 = (if ?fs = [] then slots v2 else (slots v2)[last ?fs := ?y])"
    "vfree v3 = (if ?fs = [] then ?y else vfree v2)" "vector v3 = p" "nfree v3 = nfree v"
    unfolding v3_def y using vp nf by (simp_all add: last_loc_store)
  have lf: "?fs \<noteq> [] \<Longrightarrow> last ?fs < ?n \<and> odd (slots v ! last ?fs)"
    using last_in_set[of ?fs] n by auto
  have l3: "links p (slots v3) (vfree v3) ?fs ?y"
    unfolding s3 by (rule links_relink[OF l ds(1)])
  have len3: "length (slots v3) = m" using s3 ln by simp
  have tl: "length (take ?n (slots v3)) = ?n" using len3 m by simp
  have s4: "slots v4 = take ?n (slots v3) @ new_links p ?n m" "vfree v4 = vfree v3" "vector v4 = p" "nentries v4 = m"
    "nfree v4 = (nfree v + (m - ?n)) mod 2 ^ 16" unfolding v4_def using s3 by simp_all
  have len4: "length (slots v4) = m" using s4 tl m by simp
  have "links p (slots v4) (vfree v4) ?fs ?y"
    unfolding s4 by (rule links_take[OF l3 ds(2)]) (use len3 m in simp)
  moreover have "chain p (slots v4) ?y [?n..<m]"
    unfolding s4 using new_links_chain[OF tl, of ?n m p] m p by simp
  ultimately have ch: "chain (vector v4) (slots v4) (vfree v4) (?fs @ [?n..<m])"
    unfolding s4(3) by (auto simp: chain_links links_append)
  have old: "slots v4 ! j = slots v3 ! j" if "j < ?n" for j
    using that s4 tl by (simp add: nth_append)
  have used4: "slots v4 ! j = slots v ! j" if "j < ?n" "even (slots v ! j)" for j
  proof -
    have "?fs \<noteq> [] \<Longrightarrow> last ?fs \<noteq> j" using lf that by auto
    then show ?thesis using that old[OF that(1)] s3 used by (cases "?fs = []") simp_all
  qed
  have lk: "odd (slots v4 ! j) \<and> slots v4 ! j < 2 ^ 64" if "j \<in> set (?fs @ [?n..<m])" for j
    using chain_member[OF ch _ _ that] s4(3) len4 p by simp
  have st: "set (?fs @ [?n..<m]) = {j. j < length (slots v4) \<and> odd (slots v4 ! j)}"
  proof (rule set_eqI)
    fix j
    show "j \<in> set (?fs @ [?n..<m]) \<longleftrightarrow> j \<in> {j. j < length (slots v4) \<and> odd (slots v4 ! j)}"
      using lk[of j] used4[of j] n m len4 by (cases "j < ?n") auto
  qed
  have srt: "sorted_wrt (<) (?fs @ [?n..<m])" using n by (auto simp: sorted_wrt_append)
  have lt: "\<forall>i < length (slots v4). slots v4 ! i < 2 ^ 64"
  proof (intro allI impI)
    fix i
    assume "i < length (slots v4)"
    show "slots v4 ! i < 2 ^ 64"
    proof (cases "i \<in> set (?fs @ [?n..<m])")
      case False
      then have "i < ?n" "even (slots v ! i)" using \<open>i < length (slots v4)\<close> n len4 by auto
      then show ?thesis using used4[of i] ok n by (auto simp: vec_ok_def)
    qed (use lk in blast)
  qed
  have nf4: "nfree v4 = length (?fs @ [?n..<m])"
    using s4(5) ok m free_slots_bound[of "slots v"] n by (simp add: vec_ok_def VECTOR_MAX_def)
  have fit: "vec_fits v4" using s4 len4 m p by (simp add: vec_fits_def)
  from vec_okI[OF fit _ lt ch srt st nf4] s4 m used4 show ?thesis by auto
qed

text \<open>
  The links of the free slots can be moved when each free slot of the block the allocator gives
  lies in the 4 GiB window it had in the old block: a condition on the two addresses only.
\<close>

definition same_window :: "bool \<Rightarrow> 'm mmap_fun \<Rightarrow> 'm heap \<Rightarrow> vec \<Rightarrow> nat \<Rightarrow> bool" where
  "same_window ink mmap h v m \<longleftrightarrow>
     (\<forall>h1 p. scalloc ink mmap h (m * 8) = Some (h1, p) \<longrightarrow> p \<noteq> 0 \<longrightarrow>
        (\<forall>i \<in> set (free_slots (slots v)). (p + 8 * i) div 2 ^ 32 = (vector v + 8 * i) div 2 ^ 32))"

lemma same_window_rebased:
  assumes "vec_ok v" "nentries v < m" "8 dvd p" "p + 8 * m < 2 ^ 64" "same_window ink mmap h v m"
    "scalloc ink mmap h (m * 8) = Some (h1, p)" "p \<noteq> 0"
  shows "rebased (vector v) p (free_slots (slots v))"
proof (cases "nentries v = 0")
  case True
  then show ?thesis using assms(1) by (simp add: rebased_def vec_ok_def)
next
  case False
  then have v: "8 dvd vector v" "vector v + 8 * length (slots v) < 2 ^ 64" "nentries v = length (slots v)"
    using assms(1) by (auto simp: vec_ok_def)
  show ?thesis
  proof (rule rebased_window[OF v(1) assms(3)], intro ballI)
    fix i
    assume i: "i \<in> set (free_slots (slots v))"
    then have "i < length (slots v)" by simp
    moreover have "(p + 8 * i) div 2 ^ 32 = (vector v + 8 * i) div 2 ^ 32"
      using assms(5-7) i unfolding same_window_def by blast
    ultimately show "vector v + 8 * i + 1 < 2 ^ 64 \<and> p + 8 * i + 1 < 2 ^ 64
        \<and> (p + 8 * i) div 2 ^ 32 = (vector v + 8 * i) div 2 ^ 32" using v assms(2,4) by simp
  qed
qed

lemma vector_grow_ok:
  assumes inv: "heap_inv mmap minv h U" and ok: "vec_ok v" and own: "vec_owns U v"
    and m: "nentries v < m" "m \<le> VECTOR_MAX" and rl: "same_window ink mmap h v m"
  shows "(\<exists>h1. vector_grow ink mmap h v m = Some (h1, None) \<and> scalloc ink mmap h (m * 8) = Some (h1, 0)
            \<and> heap_inv mmap minv h1 U)
     \<or> (\<exists>h1 v1. vector_grow ink mmap h v m = Some (h1, Some v1) \<and> vec_ok v1 \<and> nentries v1 = m
          \<and> free_slots (slots v1) = free_slots (slots v) @ [nentries v..<m]
          \<and> (\<forall>j < nentries v. even (slots v ! j) \<longrightarrow> slots v1 ! j = slots v ! j)
          \<and> vec_owned v1 \<inter> U = {}
          \<and> heap_inv mmap minv h1 ((U - vec_owned v) \<union> vec_owned v1)
          \<and> vec_owns ((U - vec_owned v) \<union> vec_owned v1) v1)"
proof -
  have b: "0 < m * 8" "m * 8 < max_request" using m by (simp_all add: VECTOR_MAX_def max_request_def)
  from nano.alloc_owns[OF inv b, of ink] obtain h1 p where
    al: "scalloc ink mmap h (m * 8) = Some (h1, p)"
      "if p = 0 then heap_inv mmap minv h1 U
       else nano.owned p (m * 8) \<inter> U = {} \<and> nano.owns (U \<union> nano.owned p (m * 8)) p (m * 8)" by auto
  show ?thesis
  proof (cases "p = 0")
    case True
    then show ?thesis using al by (simp add: vector_grow_def)
  next
    case False
    then have po: "nano.owns (U \<union> nano.owned p (m * 8)) p (m * 8)" using al by simp
    have pp: "0 < p" "8 dvd p" "p + 8 * m < 2 ^ 64"
      using po b nano.owned_range[OF po b(1)] by (auto simp: nano.owns_def)
    have rb: "rebased (vector v) p (free_slots (slots v))" using same_window_rebased[OF ok m(1) pp(2,3) rl al(1) False] .
    from nano.alloc_then_dealloc[OF inv own b al(1) False] obtain h2 where
      de: "sfree ink mmap h1 (vector v) (nentries v * 8) = Some h2" "nano.owned p (m * 8) \<inter> U = {}"
        "heap_inv mmap minv h2 ((U - vec_owned v) \<union> nano.owned p (m * 8))"
        "nano.owns ((U - vec_owned v) \<union> nano.owned p (m * 8)) p (m * 8)" by blast
    let ?v1 = "v\<lparr>vector := p, slots := slots v @ replicate (m - nentries v) 0\<rparr>"
    from fixup_copy[OF ok m(1) pp(2,3) rb] obtain v2 z where
      fx: "fixup (Suc (Suc (nentries v))) ?v1 Free_head (adjust_of p (vector v)) = Some (v2, last_loc (free_slots (slots v)))"
      and f2: "links p (slots v2) (vfree v2) (free_slots (slots v)) z" "length (slots v2) = m" "vector v2 = p"
        "nfree v2 = nfree v" "\<forall>j < nentries v. even (slots v ! j) \<longrightarrow> slots v2 ! j = slots v ! j" by blast
    let ?v3 = "store v2 (last_loc (free_slots (slots v))) (VECOR (slot_addr v2 (nentries v)) 1)"
    let ?v4 = "?v3\<lparr>slots := take (nentries v) (slots ?v3) @ new_links p (nentries v) m,
        nfree := (nfree v + (m - nentries v)) mod 2 ^ 16, nentries := m\<rparr>"
    have g: "vector_grow ink mmap h v m = Some (h2, Some ?v4)"
      using al(1) False m fx de(1) by (simp add: vector_grow_def Let_def del: fixup.simps)
    note gs = grown_slots_ok[OF ok m pp f2]
    have "vector ?v4 = p" "nentries ?v4 = m" using f2 by (simp_all add: last_loc_store)
    then show ?thesis using g gs de by auto
  qed
qed

section \<open>\<open>vector_add\<close>\<close>

text \<open>The table as its clients see it: the objects by index.\<close>

definition vobj :: "vec \<Rightarrow> nat \<Rightarrow> nat option" where
  "vobj v j = (if j < nentries v \<and> even (slots v ! j) then Some (slots v ! j) else None)"

lemma vobj_free: "vec_ok v \<Longrightarrow> vobj v j = None \<longleftrightarrow> nentries v \<le> j \<or> j \<in> set (free_slots (slots v))"
  by (auto simp: vobj_def vec_ok_def)

lemma vobj_preserved:
  assumes "vec_ok v" "vec_ok v'" "free_slots (slots v') = free_slots (slots v) @ [nentries v..<nentries v']"
    "nentries v \<le> nentries v'" "\<forall>j < nentries v. even (slots v ! j) \<longrightarrow> slots v' ! j = slots v ! j"
  shows "vobj v' = vobj v"
proof
  fix j
  show "vobj v' j = vobj v j"
    using assms(5) vobj_free[OF assms(1), of j] vobj_free[OF assms(2), of j] assms(3,4)
    by (cases "vobj v j") (auto simp: vobj_def split: if_splits)
qed

lemma find_slot_start:
  assumes "vec_ok v"
  shows "find_slot (Suc (nentries v)) v Free_head index =
     Some (case dropWhile (\<lambda>i. i < index) (free_slots (slots v)) of [] \<Rightarrow> None
           | i # _ \<Rightarrow> Some (last_loc (takeWhile (\<lambda>i. i < index) (free_slots (slots v))), i))"
proof (cases "nentries v = 0")
  case True
  then have "vfree v = 0" "free_slots (slots v) = []" using assms by (auto simp: vec_ok_def free_slots_def)
  then show ?thesis by (simp add: NOT3_eq)
next
  case False
  note d = vec_okD[OF assms]
  have n: "nentries v = length (slots v)" using assms by (simp add: vec_ok_def)
  have "find_slot (Suc (nentries v)) v (last_loc []) index =
     Some (case dropWhile (\<lambda>i. i < index) (free_slots (slots v)) of [] \<Rightarrow> None
           | i # _ \<Rightarrow> Some (last_loc ([] @ takeWhile (\<lambda>i. i < index) (free_slots (slots v))), i))"
    by (rule find_slot_ok) (use d False n free_slots_bound[of "slots v"] in \<open>auto simp: vec_fits_def\<close>)
  moreover have "last_loc [] = Free_head" by (simp add: last_loc_def)
  ultimately show ?thesis by (simp only: append_Nil)
qed

text \<open>The slot taken is the first free one at or above \<open>index\<close>.\<close>

definition first_free :: "vec \<Rightarrow> nat \<Rightarrow> nat \<Rightarrow> bool" where
  "first_free v index i \<longleftrightarrow> index \<le> i \<and> vobj v i = None \<and> (\<forall>j. index \<le> j \<and> j < i \<longrightarrow> vobj v j \<noteq> None)"

lemma add_into_free:
  assumes ok: "vec_ok v" and ob: "object mod 4 = 0" "object < 2 ^ 64"
    and i: "i \<in> set (free_slots (slots v))" "index \<le> i"
  shows "\<exists>v' i. vector_add_n (Suc f) ink mmap h v object index = Some (h, v', int i)
     \<and> vec_ok v' \<and> i < nentries v \<and> nentries v' = nentries v \<and> vector v' = vector v
     \<and> first_free v index i \<and> vobj v' = (vobj v)(i \<mapsto> object)"
proof -
  let ?fs = "free_slots (slots v)" let ?P = "\<lambda>i. i < index"
  have "dropWhile ?P ?fs \<noteq> []" using i by (auto simp: dropWhile_eq_Nil_conv)
  then obtain k ys where dw: "dropWhile ?P ?fs = k # ys" by (cases "dropWhile ?P ?fs") auto
  let ?xs = "takeWhile ?P ?fs"
  have fs: "?fs = ?xs @ k # ys" using takeWhile_dropWhile_id[of ?P ?fs] dw by simp
  have k: "index \<le> k" using hd_dropWhile[of ?P ?fs] dw by simp
  have ev: "even object" using ob(1) by presburger
  note t = take_slot_ok[OF ok fs ev ob(2)]
  let ?v = "take_slot v (last_loc ?xs) k object"
  have r: "vector_add_n (Suc f) ink mmap h v object index = Some (h, ?v, int k)"
    using find_slot_start[OF ok, of index] dw ob(1) by (simp add: VECAND_3)
  have srt: "\<forall>x \<in> set ?xs. x < k" "\<forall>y \<in> set ys. k < y"
    using free_slots_sorted[of "slots v"] fs by (metis sorted_wrt_append sorted_wrt.simps(2) list.set_intros(1))+
  have xs: "\<forall>x \<in> set ?xs. x < index" by (auto dest: set_takeWhileD)
  have n: "nentries v = length (slots v)" using ok by (simp add: vec_ok_def)
  have mem: "j \<in> set ?fs \<longleftrightarrow> j \<in> set ?xs \<or> j = k \<or> j \<in> set ys" for j using fs by (metis Un_iff set_append set_ConsD list.set_intros)
  have ff: "first_free v index k"
    unfolding first_free_def
  proof (intro conjI allI impI)
    show "vobj v k = None" using vobj_free[OF ok] mem by blast
    show "vobj v j \<noteq> None" if "index \<le> j \<and> j < k" for j
      using vobj_free[OF ok, of j] mem[of j] that t(4) xs srt by force
  qed (rule k)
  have "vobj ?v j = ((vobj v)(k \<mapsto> object)) j" for j
  proof (cases "j = k")
    case True
    then show ?thesis using t ev by (simp add: vobj_def)
  next
    case False
    then have "vobj ?v j = None \<longleftrightarrow> vobj v j = None"
      using vobj_free[OF ok, of j] vobj_free[OF t(1), of j] t(2,5) mem[of j] by auto
    then show ?thesis using False t(5) t(7)[of j] by (cases "vobj v j") (auto simp: vobj_def split: if_splits)
  qed
  then have "vobj ?v = (vobj v)(k \<mapsto> object)" by (rule ext)
  then show ?thesis using r t ff by blast
qed

lemma grown_size_ok:
  assumes "nentries v < VECTOR_MAX" "index < 2 ^ 32 - 1"
  shows "nentries v < grown_size v index" "grown_size v index \<le> VECTOR_MAX"
    "index < VECTOR_MAX \<Longrightarrow> index < grown_size v index"
    "VECTOR_MAX \<le> index \<Longrightarrow> grown_size v index = VECTOR_MAX"
  using assms by (auto simp: grown_size_def Let_def VECTOR_MAX_def)

lemma vec_owned_sub: "vec_owns U v \<Longrightarrow> (U - vec_owned v) \<union> vec_owned v = U"
  by (auto simp: nano.owns_def nano.owned_def split: if_splits)

lemma find_slot_none:
  assumes ok: "vec_ok v" and nf: "\<not> (\<exists>i \<in> set (free_slots (slots v)). index \<le> i)"
  shows "find_slot (Suc (nentries v)) v Free_head index = Some None"
proof -
  have e: "dropWhile (\<lambda>i. i < index) (free_slots (slots v)) = []" using nf by (auto simp: dropWhile_eq_Nil_conv)
  show ?thesis by (simp only: find_slot_start[OF ok] e list.case)
qed

text \<open>What \<open>vector_add\<close> promises about its result \<open>r\<close>.\<close>

definition added :: "bool \<Rightarrow> 'm mmap_fun \<Rightarrow> 'm heap \<Rightarrow> vec \<Rightarrow> nat \<Rightarrow> nat \<Rightarrow> vec \<Rightarrow> int \<Rightarrow> bool" where
  "added ink mmap h v object index v' r \<longleftrightarrow>
     (if 0 \<le> r then first_free v index (nat r) \<and> vobj v' = (vobj v)(nat r \<mapsto> object)
      else r = - 1 \<and> vobj v' = vobj v
        \<and> (VECTOR_MAX \<le> index
           \<or> nentries v = VECTOR_MAX \<and> (\<forall>j. index \<le> j \<and> j < VECTOR_MAX \<longrightarrow> vobj v j \<noteq> None)
           \<or> (\<exists>h1. scalloc ink mmap h (grown_size v index * 8) = Some (h1, 0))))"

lemma vector_add_ok:
  assumes inv: "heap_inv mmap minv h U" and ok: "vec_ok v" and own: "vec_owns U v"
    and ob: "object mod 4 = 0" "0 < object" "object < 2 ^ 64" and ix: "index < 2 ^ 32 - 1"
    and rl: "\<forall>i \<in> set (free_slots (slots v)). i < index \<Longrightarrow> same_window ink mmap h v (grown_size v index)"
  shows "\<exists>h' v' r. vector_add ink mmap h v object index = Some (h', v', r) \<and> vec_ok v'
     \<and> heap_inv mmap minv h' ((U - vec_owned v) \<union> vec_owned v')
     \<and> vec_owns ((U - vec_owned v) \<union> vec_owned v') v' \<and> added ink mmap h v object index v' r"
proof -
  note sub = vec_owned_sub[OF own]
  have n: "nentries v = length (slots v)" "nentries v \<le> VECTOR_MAX" using ok by (auto simp: vec_ok_def)
  have two: "vector_add = vector_add_n (Suc (Suc 0))" by (simp add: vector_add_def numeral_2_eq_2)
  have unf: "vector_add ink mmap h v object index = vector_add_n (Suc (Suc 0)) ink mmap h v object index"
    by (simp only: two)
  have al: "VECAND object 3 = 0" using ob by (simp add: VECAND_3)
  show ?thesis
  proof (cases "\<exists>i \<in> set (free_slots (slots v)). index \<le> i")
    case True
    then obtain i where "i \<in> set (free_slots (slots v))" "index \<le> i" by blast
    from add_into_free[OF ok ob(1,3) this, of "Suc 0" ink mmap h] obtain v' i where
      "vector_add ink mmap h v object index = Some (h, v', int i)" "vec_ok v'" "nentries v' = nentries v"
      "vector v' = vector v" "first_free v index i" "vobj v' = (vobj v)(i \<mapsto> object)"
      unfolding unf by blast
    then show ?thesis using inv own sub by (auto simp: added_def)
  next
    case no: False
    note fs = find_slot_none[OF ok no]
    have full: "vobj v j \<noteq> None" if "index \<le> j" "j < nentries v" for j
      using vobj_free[OF ok, of j] no that by auto
    show ?thesis
    proof (cases "nentries v = VECTOR_MAX")
      case True
      have "vector_add ink mmap h v object index = Some (h, v, - 1)"
        unfolding unf using al fs True by (simp del: find_slot.simps)
      then show ?thesis using inv ok own sub full True by (auto simp: added_def)
    next
      case False
      then have lt: "nentries v < VECTOR_MAX" using n by simp
      note g = grown_size_ok[OF lt ix]
      have "same_window ink mmap h v (grown_size v index)" using rl no by (meson not_le)
      from vector_grow_ok[OF inv ok own g(1,2) this]
      consider (fail) h1 where "vector_grow ink mmap h v (grown_size v index) = Some (h1, None)"
          "scalloc ink mmap h (grown_size v index * 8) = Some (h1, 0)" "heap_inv mmap minv h1 U"
        | (grown) h1 v1 where "vector_grow ink mmap h v (grown_size v index) = Some (h1, Some v1)"
          "vec_ok v1" "nentries v1 = grown_size v index"
          "free_slots (slots v1) = free_slots (slots v) @ [nentries v..<grown_size v index]"
          "\<forall>j < nentries v. even (slots v ! j) \<longrightarrow> slots v1 ! j = slots v ! j"
          "heap_inv mmap minv h1 ((U - vec_owned v) \<union> vec_owned v1)"
          "vec_owns ((U - vec_owned v) \<union> vec_owned v1) v1" by blast
      then show ?thesis
      proof cases
        case fail
        have "vector_add ink mmap h v object index = Some (h1, v, - 1)"
          unfolding unf using al fs False fail by (simp del: find_slot.simps)
        then show ?thesis using fail ok own sub by (auto simp: added_def)
      next
        case grown
        have rec: "vector_add ink mmap h v object index = vector_add_n (Suc 0) ink mmap h1 v1 object index"
          unfolding unf using al fs False grown(1) ob(2) by (simp del: find_slot.simps)
        have vo: "vobj v1 = vobj v"
          using vobj_preserved[OF ok grown(2)] grown(3-5) g(1) by simp
        show ?thesis
        proof (cases "index < VECTOR_MAX")
          case True
          have "max index (nentries v) \<in> set (free_slots (slots v1))" using g(1,3) True by (simp only: grown(4)) auto
          from add_into_free[OF grown(2) ob(1,3) this, of index 0 ink mmap h1] obtain v' i where
            "vector_add ink mmap h v object index = Some (h1, v', int i)" "vec_ok v'" "nentries v' = nentries v1"
            "vector v' = vector v1" "first_free v1 index i" "vobj v' = (vobj v1)(i \<mapsto> object)"
            unfolding rec by auto
          then show ?thesis using grown vo by (auto simp: added_def first_free_def)
        next
          case big: False
          have "\<not> (\<exists>i \<in> set (free_slots (slots v1)). index \<le> i)"
            using grown(4) g(4) big n by (auto simp: free_slots_def)
          note fs1 = find_slot_none[OF grown(2) this]
          have "vector_add ink mmap h v object index = Some (h1, v1, - 1)"
            unfolding rec using al fs1 grown(3) g(4) big by (simp del: find_slot.simps)
          then show ?thesis using grown vo big by (auto simp: added_def)
        qed
      qed
    qed
  qed
qed

section \<open>Removal\<close>

lemma slot_addr_exact: "vec_fits v \<Longrightarrow> i < nentries v \<Longrightarrow> slot_addr v i = vector v + 8 * i"
  by (simp add: slot_addr_def wadd_exact vec_fits_def)

lemma scan_back_ok:
  assumes fit: "vec_fits v" and k: "k < nentries v" "k < fuel" and j: "j \<le> k" "odd (slots v ! j)"
    and be: "\<forall>i. j < i \<and> i \<le> k \<longrightarrow> even (slots v ! i)"
  shows "scan_back fuel v (vector v + 8 * k) = Some (Slot j)"
  using k j be
proof (induction fuel arbitrary: k)
  case (Suc f)
  have at: "slot_at v (vector v + 8 * k) = Some k" using Suc.prems fit by (simp add: slot_at_def vec_fits_def)
  show ?case
  proof (cases "k = j")
    case True
    then show ?thesis using at Suc.prems by (simp add: VECAND_1 odd_iff_mod_2_eq_one)
  next
    case False
    then have kj: "j < k" "even (slots v ! k)" using Suc.prems by auto
    have "wsub (vector v + 8 * k) 8 = vector v + 8 * (k - 1)"
      using kj fit Suc.prems by (subst wsub_exact) (auto simp: vec_fits_def)
    moreover have "scan_back f v (vector v + 8 * (k - 1)) = Some (Slot j)"
      by (rule Suc.IH) (use Suc.prems kj in auto)
    ultimately show ?thesis using at kj by (simp add: VECAND_1 even_iff_mod_2_eq_zero)
  qed
qed simp

lemma free_slots_split:
  assumes "vec_ok v" "vobj v i \<noteq> None"
  obtains xs ys where "free_slots (slots v) = xs @ ys" "\<forall>x \<in> set xs. x < i" "\<forall>y \<in> set ys. i < y"
proof
  let ?fs = "free_slots (slots v)" let ?P = "\<lambda>x. x < i"
  show "?fs = takeWhile ?P ?fs @ dropWhile ?P ?fs" by simp
  show "\<forall>x \<in> set (takeWhile ?P ?fs). x < i" by (auto dest: set_takeWhileD)
  have ni: "i \<notin> set ?fs" using vobj_free[OF assms(1), of i] assms(2) by simp
  show "\<forall>y \<in> set (dropWhile ?P ?fs). i < y"
  proof (cases "dropWhile ?P ?fs")
    case (Cons k ys)
    have "\<not> k < i" using hd_dropWhile[of ?P ?fs] Cons by simp
    moreover have "sorted_wrt (<) (k # ys)"
      using free_slots_sorted[of "slots v"] takeWhile_dropWhile_id[of ?P ?fs] Cons by (metis sorted_wrt_append)
    moreover have "set (k # ys) \<subseteq> set ?fs" using Cons set_dropWhileD[of _ ?P ?fs] by (metis subsetI)
    ultimately show ?thesis using ni Cons by (metis linorder_neqE_nat list.set_intros(1) order_less_trans
          set_ConsD sorted_wrt.simps(2) subset_code(1))
  next
    case Nil
    show ?thesis unfolding Nil by simp
  qed
qed

lemma rem_link:
  assumes ok: "vec_ok v" and i: "vobj v i \<noteq> None" "0 < i \<or> free_slots (slots v) = []"
    and fs: "free_slots (slots v) = xs @ ys" "\<forall>x \<in> set xs. x < i" "\<forall>y \<in> set ys. i < y"
  shows "(if VECAND (vfree v) NOT3 = 0 \<or> slot_addr v ((i + (2 ^ 32 - 1)) mod 2 ^ 32) < VECAND (vfree v) NOT3
          then Some Free_head
          else scan_back (nentries v) v (slot_addr v ((i + (2 ^ 32 - 1)) mod 2 ^ 32))) = Some (last_loc xs)"
proof -
  have il: "i < nentries v" using i by (auto simp: vobj_def split: if_splits)
  then have n0: "0 < nentries v" by simp
  note d = vec_okD[OF ok n0]
  have n: "nentries v = length (slots v)" "nentries v \<le> VECTOR_MAX" using ok by (auto simp: vec_ok_def)
  show ?thesis
  proof (cases "free_slots (slots v)")
    case Nil
    then have "vfree v = 1" using d(3) by simp
    then show ?thesis using fs Nil by (simp add: NOT3_eq last_loc_def)
  next
    case (Cons k ks)
    then have i0: "0 < i" using i by simp
    then have im: "(i + (2 ^ 32 - 1)) mod 2 ^ 32 = i - 1" using il n by (simp add: mod_if VECTOR_MAX_def)
    have sa: "slot_addr v (i - 1) = vector v + 8 * (i - 1)" using slot_addr_exact[OF d(1)] il by simp
    have vf: "vfree v = vector v + 8 * k + 1" "k < length (slots v)" using d(3) Cons by auto
    have hd: "VECAND (vfree v) NOT3 = vector v + 8 * k"
      unfolding vf(1) by (rule link_target) (use d(1) vf n in \<open>auto simp: vec_fits_def\<close>)
    have v0: "0 < vector v" using d(1) by (simp add: vec_fits_def)
    show ?thesis
    proof (cases "xs = []")
      case True
      then have "i - 1 < k" using fs Cons by auto
      then show ?thesis using im sa hd True i0 by (simp add: last_loc_def)
    next
      case False
      then have k: "k < i" using fs Cons by (metis hd_append2 hd_in_set list.sel(1))
      have lx: "last xs \<in> set xs" using False by simp
      then have "last xs \<in> set (free_slots (slots v))" unfolding fs(1) by simp
      then have lo: "last xs < i" "odd (slots v ! last xs)" "last xs < length (slots v)"
        using lx fs(2) by simp_all
      have be: "even (slots v ! j)" if "last xs < j" "j \<le> i - 1" for j
      proof (rule ccontr)
        assume "odd (slots v ! j)"
        then have "j \<in> set (free_slots (slots v))" using that il n by simp
        then have "j \<in> set xs" using that fs(1,3) i0 by auto
        moreover have "sorted_wrt (<) xs" using free_slots_sorted[of "slots v"] fs(1) by (simp add: sorted_wrt_append)
        ultimately show False using that sorted_le_last[of xs j] by simp
      qed
      have "scan_back (nentries v) v (vector v + 8 * (i - 1)) = Some (Slot (last xs))"
        by (rule scan_back_ok[OF d(1)]) (use il lo be i0 in auto)
      then show ?thesis using im sa hd False k v0 by (simp add: last_loc_def)
    qed
  qed
qed

lemma vector_rem_ok:
  assumes ok: "vec_ok v" and i: "vobj v i = Some x" "0 < i \<or> free_slots (slots v) = []"
  shows "\<exists>v'. vector_rem v i = Some (v', VECAND x NOT3) \<and> vec_ok v' \<and> vobj v' = (vobj v)(i := None)
     \<and> nentries v' = nentries v \<and> vector v' = vector v"
proof -
  let ?s = "slots v" let ?b = "vector v"
  have vi: "vobj v i \<noteq> None" using i by simp
  obtain xs ys where fs: "free_slots ?s = xs @ ys" "\<forall>x \<in> set xs. x < i" "\<forall>y \<in> set ys. i < y"
    using free_slots_split[OF ok vi] .
  have il: "i < nentries v" "?s ! i = x" "even x" using i by (auto simp: vobj_def split: if_splits)
  then have n0: "0 < nentries v" by simp
  note d = vec_okD[OF ok n0]
  have n: "nentries v = length ?s" using ok by (simp add: vec_ok_def)
  obtain z where z: "links ?b ?s (vfree v) xs z" "chain ?b ?s z ys"
    using d(3) fs(1) by (auto simp: chain_links links_append)
  have ld: "load v (last_loc xs) = Some z" by (rule links_load[OF z(1)])
  let ?y = "?b + 8 * i + 1"
  have y: "VECOR (slot_addr v i) 1 = ?y"
    using slot_addr_exact[OF d(1) il(1)] d(1) by (simp add: VECOR_1 vec_fits_def) (metis VECOR_1 add_Suc_right dvd_add
        dvd_mult2 dvd_trans even_numeral numeral_Bit0_eq_double dvd_triv_left)
  define v' where "v' = (store (store v (Slot i) z) (last_loc xs) ?y)\<lparr>nfree := (nfree v + 1) mod 2 ^ 16\<rparr>"
  have rem: "vector_rem v i = Some (v', VECAND x NOT3)"
    unfolding vector_rem_def Let_def rem_link[OF ok vi i(2) fs]
    using il ld y n by (simp add: VECAND_1 v'_def last_loc_store)
  have lx: "xs \<noteq> [] \<Longrightarrow> last xs \<in> set xs" by simp
  have lxn: "xs \<noteq> [] \<Longrightarrow> last xs \<noteq> i \<and> last xs \<notin> set ys"
    using lx fs(2,3) by (metis less_irrefl_nat less_trans)
  have s': "slots v' = (if xs = [] then ?s[i := z] else ?s[i := z, last xs := ?y])"
    "vfree v' = (if xs = [] then ?y else vfree v)" "vector v' = ?b" "nentries v' = nentries v"
    "nfree v' = (nfree v + 1) mod 2 ^ 16"
    unfolding v'_def by (simp_all add: last_loc_store)
  have ds: "distinct xs" using free_slots_sorted[of ?s] fs(1) by (simp add: strict_sorted_iff sorted_wrt_append)
  have "links ?b (?s[i := z]) (vfree v) xs z" using z(1) fs(2) by (intro links_upd) auto
  from links_relink[OF this ds, of ?y] have l: "links ?b (slots v') (vfree v') xs ?y"
    using s' by (cases "xs = []") auto
  have si: "slots v' ! i = z" using s' il(1) n lxn by auto
  have "chain ?b (slots v') z ys"
    using chain_upd[of ?b _ z ys "last xs" ?y] chain_upd[OF z(2), of i z] s' fs(3) lxn by auto
  then have ch: "chain (vector v') (slots v') (vfree v') (xs @ i # ys)"
    using l si s' il(1) n by (auto simp: chain_links links_append)
  have len: "length (slots v') = length ?s" using s' by simp
  have oth: "slots v' ! j = ?s ! j" if "j \<noteq> i" "xs \<noteq> [] \<longrightarrow> j \<noteq> last xs" for j
    using s'(1) that by auto
  have mem: "j \<in> set xs \<or> j \<in> set ys \<longleftrightarrow> j < length ?s \<and> odd (?s ! j)" for j
    using free_slots_set[of ?s] unfolding fs(1) by auto
  have lk: "odd (slots v' ! j) \<and> slots v' ! j < 2 ^ 64" if "j \<in> set (xs @ i # ys)" for j
    using chain_member[OF ch _ _ that] s' len n d(1) by (simp add: vec_fits_def)
  have ev: "slots v' ! j = ?s ! j" if "j \<notin> set (xs @ i # ys)" for j
    using that lx by (intro oth) auto
  have st: "set (xs @ i # ys) = {j. j < length (slots v') \<and> odd (slots v' ! j)}"
  proof (rule set_eqI)
    fix j
    show "j \<in> set (xs @ i # ys) \<longleftrightarrow> j \<in> {j. j < length (slots v') \<and> odd (slots v' ! j)}"
      using lk[of j] ev[of j] mem[of j] il(1) n len by (cases "j \<in> set (xs @ i # ys)") auto
  qed
  have srt: "sorted_wrt (<) (xs @ i # ys)"
    using free_slots_sorted[of ?s] fs by (auto simp: sorted_wrt_append intro: less_trans)
  have lt: "\<forall>j < length (slots v'). slots v' ! j < 2 ^ 64"
    using lk ev d(2) len by metis
  have nf: "nfree v' = length (xs @ i # ys)"
    using s'(5) d(1,4) fs(1) free_slots_bound[of ?s] n by (simp add: vec_fits_def VECTOR_MAX_def)
  have fit: "vec_fits v'" using d(1) s' len by (simp add: vec_fits_def)
  note k = vec_okI[OF fit _ lt ch srt st nf]
  have ok': "vec_ok v'" and fs': "free_slots (slots v') = xs @ i # ys" using k n0 s' by auto
  have "vobj v' j = ((vobj v)(i := None)) j" for j
    using lk[of j] ev[of j] mem[of j] s'(4) n by (cases "j \<in> set (xs @ i # ys)") (auto simp: vobj_def)
  then have "vobj v' = (vobj v)(i := None)" by (rule ext)
  then show ?thesis using rem ok' s' by blast
qed

end
