(* ===== verification/Vector_Props.thy ===== *)
theory Vector_Props
  imports Vector_Proofs Heap_Props
begin

text \<open>
  The properties of the object tables: the contracts of insertion and removal, their round
  trip through the lookups, the search loop against its reference, flags, and the two defects
  of the 64-bit port.
\<close>

section \<open>Insertion\<close>

text \<open>
  (C5) \<open>vector_add\<close> of an aligned object on a well-formed table always returns. It takes the
  first free index at or above the one asked for, growing the table if it has to, and changes
  nothing else in the table; or it returns -1 and leaves the objects alone, which happens only
  when the limit on the table is reached or the heap has no memory. The table stays well
  formed and the heap invariant holds for the memory then in use. Where all free slots lie
  below the index, so that the table has to grow, the block the allocator gives must have them
  in the 4 GiB windows they had in the old block; with other blocks the fix-up of the links
  fails, as the last property of this theory shows.
\<close>

theorem vector_add_contract:
  assumes "heap_inv mmap minv h U" "vec_ok v" "vec_owns U v"
    and "object mod 4 = 0" "0 < object" "object < 2 ^ 64" "index < 2 ^ 32 - 1"
    and "\<forall>i \<in> set (free_slots (slots v)). i < index \<Longrightarrow> same_window ink mmap h v (grown_size v index)"
  shows "\<exists>h' v' r. vector_add ink mmap h v object index = Some (h', v', r) \<and> vec_ok v'
     \<and> heap_inv mmap minv h' ((U - vec_owned v) \<union> vec_owned v')
     \<and> vec_owns ((U - vec_owned v) \<union> vec_owned v') v'
     \<and> (if 0 \<le> r then index \<le> nat r \<and> vobj v (nat r) = None
            \<and> (\<forall>j. index \<le> j \<and> j < nat r \<longrightarrow> vobj v j \<noteq> None)
            \<and> vobj v' = (vobj v)(nat r \<mapsto> object)
        else r = - 1 \<and> vobj v' = vobj v
          \<and> (VECTOR_MAX \<le> index
             \<or> nentries v = VECTOR_MAX \<and> (\<forall>j. index \<le> j \<and> j < VECTOR_MAX \<longrightarrow> vobj v j \<noteq> None)
             \<or> (\<exists>h1. scalloc ink mmap h (grown_size v index * 8) = Some (h1, 0))))"
  using vector_add_ok[OF assms] unfolding added_def first_free_def by (simp only: conj_assoc)

definition vec8 :: vec where
  "vec8 = \<lparr>nentries = 8, nfree = 1, vfree = 0x10000 + 8 * 3 + 1, vector = 0x10000,
     slots = [0x100, 0x200, 0x300, 1, 0x400, 0x500, 0x600, 0x700]\<rparr>"

lemma vec8_free: "free_slots (slots vec8) = [3]"
  by (simp add: vec8_def free_slots_def upt_rec)

lemma vec8_ok: "vec_ok vec8"
proof -
  have "list_all (\<lambda>x. x < 2 ^ 64) (slots vec8)" by (simp add: vec8_def)
  then have "\<forall>i < length (slots vec8). slots vec8 ! i < 2 ^ 64" by (simp only: list_all_length)
  moreover have "chain (vector vec8) (slots vec8) (vfree vec8) [3]" by (simp add: vec8_def)
  ultimately show ?thesis using vec8_free by (simp add: vec_ok_def vec8_def VECTOR_MAX_def)
qed

lemma mmap_gives:
  assumes "0 < n" "n < 2 ^ 30" "heap_inv mmap minv h U" "pregrow_size h = 0" "crit_end h < crit_start h"
    "mmap (hmm h) (roundup_page (round_new n + sizeof_free_entry)) = (m, Some (a, sz))" "0 < sz"
  shows "scalloc ink mmap h n \<noteq> Some (h1, 0)"
proof
  assume a: "scalloc ink mmap h n = Some (h1, 0)"
  obtain h' q where s: "smalloc ink mmap h n = Some (h', q)"
    "q = 0 \<longrightarrow> pass_ker ink 0 h 0 \<noteq> 2 \<longrightarrow> refused mmap h (round_new n)"
    using smalloc_ok[OF assms(3,1,2), of ink] by blast
  then have "q = 0" using a by (auto simp: scalloc_def smalloc_def)
  moreover have "pass_ker ink 0 h 0 \<noteq> 2" using assms(5) by (auto simp: IS_CRIT_def)
  ultimately have "refused mmap h (round_new n)" using s by blast
  moreover have b: "round_new n + sizeof_free_entry + pagesize \<le> 2 ^ 64" "0 < round_new n + sizeof_free_entry"
    using round_new_bound[OF assms(1,2)] by (simp_all add: sizeof_free_entry_def pagesize_def)
  ultimately show False
    using roundup_page_ok[OF b] assms by (auto simp: refused_def heap_alloc_def Let_def split: if_splits)
qed

text \<open>
  A memory manager that stays below 4 GiB, and a heap on it whose next block is not the table's:
  growing the table moves the link of its free slot 3.
\<close>

definition low_mmap :: "nat mmap_fun" where
  "low_mmap m n = (if 0 < n \<and> pagesize dvd n \<and> m + n < 2 ^ 32 then (m + n, Some (m, n)) else (m, None))"

definition low_inv :: "nat \<Rightarrow> addr set \<Rightarrow> bool" where
  "low_inv m R \<longleftrightarrow> 0 < m \<and> m < 2 ^ 32 \<and> pagesize dvd m \<and> (\<forall>a \<in> R. a < m)"

definition heap_low :: "nat heap" where
  "heap_low = heap_boot 0x20000"

lemma low_ok: "mmap_ok low_mmap low_inv"
  by (auto simp: mmap_ok_def low_mmap_def low_inv_def block_def split: option.splits if_splits)

lemma heap_low_inv: "heap_inv low_mmap low_inv heap_low {0..<0x20000}"
  using low_ok by (auto simp: heap_inv_def lists_ok_def heap_free_def pregrown_def heap_low_def heap_boot_def
      low_inv_def block_def pagesize_def)

lemma round_88: "roundup_page (round_new 88 + sizeof_free_entry) = pagesize"
  by (simp add: round_new_def ALIGN_eq roundup_page_def wadd_def sizeof_free_entry_def pagesize_def)

lemma heap_low_scalloc: "\<exists>h1 p. scalloc False low_mmap heap_low 88 = Some (h1, p) \<and> p \<noteq> 0 \<and> p + 88 \<le> 2 ^ 32"
proof -
  have "scalloc False low_mmap heap_low 88 \<noteq> Some (h1, 0)" for h1
    by (rule mmap_gives[OF _ _ heap_low_inv, where sz = pagesize])
      (simp_all add: round_88 low_mmap_def heap_low_def heap_boot_def pagesize_def)
  moreover obtain h1 p where al: "scalloc False low_mmap heap_low 88 = Some (h1, p)"
    "p \<noteq> 0 \<longrightarrow> heap_inv low_mmap low_inv h1 ({0..<0x20000} \<union> block p (round_new 88))"
    using scalloc_law[OF heap_low_inv, of 88 False] by (auto simp: max_request_def split: if_splits)
  ultimately have p: "p \<noteq> 0" "heap_inv low_mmap low_inv h1 ({0..<0x20000} \<union> block p (round_new 88))" by auto
  have "p + 87 \<in> block p (round_new 88)" using round_new_ok(2)[of 88] by (simp add: block_def)
  moreover have "low_inv (hmm h1) ({0..<0x20000} \<union> block p (round_new 88) \<union> heap_free h1 \<union> pregrown h1)"
    using p(2) unfolding heap_inv_def by blast
  ultimately have "p + 87 < 2 ^ 32" unfolding low_inv_def using order.strict_trans by blast
  then have "p + 88 \<le> 2 ^ 32" by linarith
  then show ?thesis using al(1) p(1) by blast
qed

lemma vec8_owned: "vec_owns {0..<0x20000} vec8"
  by (auto simp: nano.owns_def vec8_def max_request_def block_def round_new_def sizeof_free_entry_def ALIGN_eq)

lemma vec8_grown: "grown_size vec8 4 = 11"
  by (simp add: grown_size_def vec8_def VECTOR_MAX_def)

lemma vec8_limits: "\<not> VECTOR_MAX \<le> 4" "nentries vec8 \<noteq> VECTOR_MAX" "grown_size vec8 4 * 8 = 88"
  by (simp_all add: vec8_grown VECTOR_MAX_def, simp add: vec8_def)

lemma vec8_window: "same_window False low_mmap heap_low vec8 (grown_size vec8 4)"
proof -
  have "vector vec8 = 0x10000" by (simp add: vec8_def)
  then show ?thesis
    unfolding same_window_def vec8_free vec8_limits(3) using heap_low_scalloc by fastforce
qed

lemma vec8_first:
  assumes "4 \<le> r" "vobj vec8 r = None" "\<forall>j. 4 \<le> j \<and> j < r \<longrightarrow> vobj vec8 j \<noteq> None"
  shows "r = 8"
proof -
  have v: "vobj vec8 8 = None" "vobj vec8 4 \<noteq> None" "vobj vec8 5 \<noteq> None" "vobj vec8 6 \<noteq> None" "vobj vec8 7 \<noteq> None"
    by (simp_all add: vobj_def vec8_def)
  then have "r \<noteq> 4" "r \<noteq> 5" "r \<noteq> 6" "r \<noteq> 7" using assms(2) by auto
  moreover have "\<not> 8 < r" using assms(3)[rule_format, of 8] v(1) by auto
  ultimately show ?thesis using assms(1) by linarith
qed

theorem vector_add_witness:
  "\<exists>h' v'. vector_add False low_mmap heap_low vec8 0x8000 4 = Some (h', v', 8) \<and> vec_ok v'
     \<and> vobj v' = (vobj vec8)(8 \<mapsto> 0x8000)"
proof -
  obtain h' v' r where a: "vector_add False low_mmap heap_low vec8 0x8000 4 = Some (h', v', r)" "vec_ok v'"
    "if 0 \<le> r then 4 \<le> nat r \<and> vobj vec8 (nat r) = None
            \<and> (\<forall>j. 4 \<le> j \<and> j < nat r \<longrightarrow> vobj vec8 j \<noteq> None) \<and> vobj v' = (vobj vec8)(nat r \<mapsto> 0x8000)
        else VECTOR_MAX \<le> 4 \<or> nentries vec8 = VECTOR_MAX
             \<or> (\<exists>h1. scalloc False low_mmap heap_low (grown_size vec8 4 * 8) = Some (h1, 0))"
    using vector_add_contract[OF heap_low_inv vec8_ok vec8_owned, of "0x8000" 4 False] vec8_window
    by (auto split: if_splits)
  then have "0 \<le> r" using heap_low_scalloc vec8_limits by (auto split: if_splits)
  moreover from this have "nat r = 8" using a(3) vec8_first[of "nat r"] by simp
  ultimately show ?thesis using a by auto
qed

section \<open>Removal\<close>

text \<open>
  (C6) \<open>vector_rem\<close> of a used index other than 0 (or any used index when no slot is free)
  returns the object stored there without its flag, frees exactly that index and keeps the
  table well formed, so that the free list again visits the free slots in ascending order.
  An index that is out of range or free is refused and changes nothing.
\<close>

theorem vector_rem_contract:
  assumes "vec_ok v" "index < 2 ^ 32"
  shows "(vobj v index = None \<longrightarrow> vector_rem v index = Some (v, 0))
    \<and> (\<forall>x. vobj v index = Some x \<longrightarrow> (0 < index \<or> free_slots (slots v) = []) \<longrightarrow>
        (\<exists>v'. vector_rem v index = Some (v', VECAND x NOT3) \<and> vec_ok v'
              \<and> vobj v' = (vobj v)(index := None) \<and> vector v' = vector v \<and> nentries v' = nentries v))"
proof (intro conjI allI impI)
  assume "vobj v index = None"
  then show "vector_rem v index = Some (v, 0)"
    using assms(1) by (auto simp: vobj_def vector_rem_def VECAND_1 vec_ok_def odd_iff_mod_2_eq_one split: if_splits)
qed (use vector_rem_ok[OF assms(1)] in blast)

theorem vector_rem_witness:
  "\<exists>v'. vector_rem vec8 5 = Some (v', 0x500) \<and> vec_ok v' \<and> vobj v' 5 = None \<and> vobj v' 6 = Some 0x600"
proof -
  have "vobj vec8 5 = Some 0x500" "vobj vec8 6 = Some 0x600" by (simp_all add: vobj_def vec8_def)
  moreover have "VECAND 0x500 NOT3 = 0x500" by (simp add: NOT3_eq)
  ultimately show ?thesis using vector_rem_contract[OF vec8_ok, of 5] by auto
qed

text \<open>
  (C26) The table is a map from small integers to objects: after an insertion that reported an
  index above 0, both lookups return the object at that index, and removing it returns the
  object and restores the map that was there before. As for the insertion itself, a table that
  grows needs the block it moves to to have the free slots in the 4 GiB windows they had.
\<close>

theorem vector_add_rem_roundtrip:
  assumes "heap_inv mmap minv h U" "vec_ok v" "vec_owns U v"
    and "object mod 4 = 0" "0 < object" "object < 2 ^ 64" "index < 2 ^ 32 - 1"
    and "\<forall>i \<in> set (free_slots (slots v)). i < index \<Longrightarrow> same_window ink mmap h v (grown_size v index)"
    and "vector_add ink mmap h v object index = Some (h', v', r)" "0 < r"
  shows "vector_lookup (Some v') r = Some object \<and> vector_lookup2 (Some v') r = Some object
     \<and> (\<exists>v''. vector_rem v' (nat r) = Some (v'', object) \<and> vec_ok v'' \<and> vobj v'' = vobj v)"
proof -
  have a: "vec_ok v'" "vobj v (nat r) = None" "vobj v' = (vobj v)(nat r \<mapsto> object)"
    using vector_add_ok[OF assms(1-8)] assms(9,10) by (auto simp: added_def first_free_def)
  then have o: "vobj v' (nat r) = Some object" by simp
  then have s: "nat r < nentries v'" "slots v' ! nat r = object" by (auto simp: vobj_def split: if_splits)
  have n: "nentries v' = length (slots v')" "nentries v' \<le> VECTOR_MAX" using a(1) by (auto simp: vec_ok_def)
  have u: "as_unsigned r = nat r" using s(1) n(2) assms(10) by (simp add: as_unsigned_def VECTOR_MAX_def)
  have "even object" using assms(4) by presburger
  then have e: "VECAND object NOT3 = object" "even object" using assms(4,6) by (auto simp: NOT3_eq)
  have p: "VECP object = object" using assms(4) VECAND_3[of object] by (simp add: VECP_def VECAND_def and.commute)
  obtain v'' where r: "vector_rem v' (nat r) = Some (v'', VECAND object NOT3)" "vec_ok v''"
    "vobj v'' = (vobj v')(nat r := None)"
    using vector_rem_ok[OF a(1) o] assms(10) by auto
  have "vobj v'' = vobj v" using r(3) a(2,3) by (auto simp: fun_eq_iff)
  then show ?thesis using r s n u e p
    by (simp add: vector_lookup_def vector_lookup2_def VECAND_1)
qed

lemma vec8_add: "\<exists>h' v'. vector_add False low_mmap heap_low vec8 0x8000 4 = Some (h', v', 8)"
proof -
  obtain h' v' r where a: "vector_add False low_mmap heap_low vec8 0x8000 4 = Some (h', v', r)"
    "added False low_mmap heap_low vec8 0x8000 4 v' r"
    using vector_add_ok[OF heap_low_inv vec8_ok vec8_owned, of "0x8000" 4 False] vec8_window by auto
  then have "0 \<le> r" using heap_low_scalloc vec8_limits by (auto simp: added_def split: if_splits)
  moreover from this have "nat r = 8" using a(2) vec8_first[of "nat r"] by (simp add: added_def first_free_def)
  ultimately show ?thesis using a by auto
qed

theorem vector_roundtrip_witness:
  "\<exists>h' v'. vector_add False low_mmap heap_low vec8 0x8000 4 = Some (h', v', 8)
     \<and> vector_lookup (Some v') 8 = Some 0x8000
     \<and> (\<exists>v''. vector_rem v' 8 = Some (v'', 0x8000) \<and> vobj v'' = vobj vec8)"
proof -
  obtain h' v' where a: "vector_add False low_mmap heap_low vec8 0x8000 4 = Some (h', v', 8)"
    using vec8_add by blast
  show ?thesis
    using vector_add_rem_roundtrip[OF heap_low_inv vec8_ok vec8_owned _ _ _ _ _ a] vec8_window a by auto
qed

section \<open>Search and flags\<close>

lemma search_loop_find:
  assumes "nentries v = length (slots v)"
  shows "search_loop v i True = Some (case find (\<lambda>j. VECP2 (slots v ! j) \<noteq> 0) [i..<nentries v] of
     None \<Rightarrow> (0, None) | Some j \<Rightarrow> (VECP2 (slots v ! j), Some j))"
  using assms
proof (induction v i True rule: search_loop.induct)
  case (1 v i)
  have "[i..<nentries v] = (if i < nentries v then i # [Suc i..<nentries v] else [])" by (simp add: upt_conv_Cons)
  then show ?case using 1 by (subst search_loop.simps) (auto simp del: search_loop.simps)
qed

text \<open>
  (C32) \<open>vector_search\<close> with an index pointer returns the first non-NULL object at or above the
  start index together with its index, and NULL when there is none, exactly as a linear search
  over the slots does; the shortcut for a table without objects agrees with it.
\<close>

theorem vector_search_finds_first:
  assumes ok: "vec_ok v"
  shows "vector_search (Some v) i True = Some (case find (\<lambda>j. VECP2 (slots v ! j) \<noteq> 0) [i..<nentries v] of
     None \<Rightarrow> (0, None) | Some j \<Rightarrow> (VECP2 (slots v ! j), Some j))"
proof (cases "nfree v < nentries v")
  case True
  then show ?thesis using search_loop_find[of v i] ok
    by (simp add: vector_search_def vec_ok_def del: search_loop.simps)
next
  case False
  have n: "nentries v = length (slots v)" "nfree v = length (free_slots (slots v))" using ok by (auto simp: vec_ok_def)
  have "length (free_slots (slots v)) = length [0..<length (slots v)]"
    using False n free_slots_bound[of "slots v"] by simp
  then have "\<forall>j \<in> set [0..<length (slots v)]. odd (slots v ! j)"
    unfolding free_slots_def using length_filter_less by (metis nat_neq_iff)
  then have "\<forall>j \<in> set [i..<nentries v]. VECP2 (slots v ! j) = 0"
    using n one_and_eq by (auto simp: VECP2_def and.commute odd_iff_mod_2_eq_one)
  then have "find (\<lambda>j. VECP2 (slots v ! j) \<noteq> 0) [i..<nentries v] = None" by (simp add: find_None_iff)
  then show ?thesis using False by (simp add: vector_search_def)
qed

theorem vector_search_witness: "vector_search (Some vec8) 3 True = Some (0x400, Some 4)"
proof -
  have "VECP2 1 = 0" "VECP2 0x400 = 0x400"
    using VECAND_1 by (simp_all add: VECP2_def NOT3_eq)
  then have "find (\<lambda>j. VECP2 (slots vec8 ! j) \<noteq> 0) [3..<nentries vec8] = Some 4" "VECP2 (slots vec8 ! 4) = 0x400"
    by (simp_all add: vec8_def upt_rec)
  then show ?thesis using vector_search_finds_first[OF vec8_ok, of 3] by simp
qed

lemma low_bits:
  fixes x :: nat
  assumes "x mod 4 = 0" "x < 2 ^ 64"
  shows "\<not> bit x 0" "\<not> bit x 1" "bit x n \<Longrightarrow> n < 64"
proof -
  show "\<not> bit x 0" "\<not> bit x 1" using assms(1) by (simp_all add: bit_0 bit_iff_odd) presburger+
  show "bit x n \<Longrightarrow> n < 64"
    using bit_take_bit_iff[of 64 x n] take_bit_nat_eq_self[OF assms(2)] by simp
qed

lemma bit_NOT2: "bit NOT2 n \<longleftrightarrow> n < 64 \<and> n \<noteq> 1"
proof -
  have e: "NOT2 = push_bit 2 (mask 62) OR 1" by (simp add: NOT2_def mask_eq_exp_minus_1 push_bit_eq_mult)
  show ?thesis unfolding e by (auto simp: bit_or_iff bit_push_bit_iff bit_mask_iff bit_Suc_0_iff)
qed

lemma bit_NOT3: "bit NOT3 n \<longleftrightarrow> n < 64 \<and> 2 \<le> n"
proof -
  have e: "NOT3 = push_bit 2 (mask 62)" by (simp add: NOT3_def mask_eq_exp_minus_1 push_bit_eq_mult)
  show ?thesis unfolding e by (auto simp: bit_push_bit_iff bit_mask_iff)
qed

lemma bit_2: "bit (2::nat) n \<longleftrightarrow> n = 1"
  using bit_exp_iff[of 1 n, where 'a=nat] by auto

lemma flag_bits:
  fixes x :: nat
  assumes "x mod 4 = 0" "x < 2 ^ 64"
  shows "VECAND (VECOR x 2) NOT2 = x" "VECAND (VECOR x 2) NOT3 = x" "even (VECOR x 2)" "VECOR x 2 AND 3 \<noteq> 0"
    "VECAND x NOT2 = x" "VECAND x NOT3 = x"
proof -
  note b = low_bits[OF assms]
  have b2: "2 \<le> n" if "bit x n" for n 
  proof (rule ccontr)
    assume "\<not> 2 \<le> n"
    then have "n = 0 \<or> n = 1" by auto
    then show False using that b(1,2) by auto
  qed
  show "VECAND (VECOR x 2) NOT2 = x" "VECAND (VECOR x 2) NOT3 = x" "VECAND x NOT2 = x" "VECAND x NOT3 = x"
    by (rule bit_eqI; use b b2 in \<open>auto simp: VECAND_def VECOR_def bit_and_iff bit_or_iff bit_NOT2 bit_NOT3 bit_2\<close>)+
  show "even (VECOR x 2)" using b(1) by (simp add: VECOR_def even_or_iff bit_0)
  have "bit (VECOR x 2 AND 3) 1" by (simp add: VECOR_def bit_and_iff bit_or_iff bit_2 bit_Suc_0_iff)
  then show "VECOR x 2 AND 3 \<noteq> 0" by (metis bit_0_eq bot_apply bot_bool_def)
qed

lemma vec_ok_store_used:
  assumes ok: "vec_ok v" and i: "vobj v i \<noteq> None" and y: "even y" "y < 2 ^ 64"
  shows "vec_ok (store v (Slot i) y)"
proof -
  have il: "i < length (slots v)" "even (slots v ! i)" using i ok by (auto simp: vobj_def vec_ok_def split: if_splits)
  have f: "free_slots ((slots v)[i := y]) = free_slots (slots v)"
    by (rule free_slots_unique) (use il y in \<open>auto simp: nth_list_update\<close>)
  have "i \<notin> set (free_slots (slots v))" using il by simp
  then have "chain b (slots v) x (free_slots (slots v)) \<Longrightarrow> chain b ((slots v)[i := y]) x (free_slots (slots v))" for b x
    by (rule chain_upd[rotated])
  then show ?thesis using ok y il by (auto simp: vec_ok_def f nth_list_update)
qed

text \<open>
  (C33) The owner's flag is a reversible mark: setting it on an object keeps the table well
  formed, hides the object from \<open>vector_lookup\<close> but not from \<open>vector_lookup2\<close>, and clearing it
  restores the very same table. A free or out-of-range index is refused with -1.
\<close>

theorem vector_flag_reversible:
  assumes ok: "vec_ok v"
  shows "(vobj v i = None \<longrightarrow> vector_flag v i b = Some (v, - 1))
    \<and> (\<forall>x. vobj v i = Some x \<longrightarrow> x mod 4 = 0 \<longrightarrow>
        (\<exists>v1. vector_flag v i True = Some (v1, 0) \<and> vec_ok v1
           \<and> vector_lookup (Some v1) (int i) = Some 0 \<and> vector_lookup2 (Some v1) (int i) = Some x
           \<and> vector_flag v1 i False = Some (v, 0)))"
proof (intro conjI allI impI)
  assume "vobj v i = None"
  then show "vector_flag v i b = Some (v, - 1)"
    using ok by (auto simp: vobj_def vector_flag_def VECAND_1 vec_ok_def odd_iff_mod_2_eq_one split: if_splits)
next
  fix x
  assume o: "vobj v i = Some x" and x: "x mod 4 = 0"
  have il: "i < nentries v" "slots v ! i = x" "even x" using o by (auto simp: vobj_def split: if_splits)
  have n: "nentries v = length (slots v)" "nentries v \<le> VECTOR_MAX" "x < 2 ^ 64" using ok il by (auto simp: vec_ok_def)
  note fb = flag_bits[OF x n(3)]
  let ?v = "store v (Slot i) (VECOR x 2)"
  have "VECOR x 2 < 2 ^ 64"
  proof -
    have "take_bit 64 (VECOR x 2) = VECOR x 2"
      using take_bit_nat_eq_self[OF n(3)] by (simp add: VECOR_def)
    then show ?thesis by (metis take_bit_nat_less_exp)
  qed
  then have k: "vec_ok ?v" using vec_ok_store_used[OF ok _ fb(3)] o by simp
  have u: "as_unsigned (int i) = i" using il(1) n(2) by (simp add: as_unsigned_def VECTOR_MAX_def nat_mod_distrib)
  have "vector_flag v i True = Some (?v, 0)" using il n by (simp add: vector_flag_def VECAND_1)
  moreover have "v\<lparr>slots := (slots v)[i := x]\<rparr> = v" using il(2) by (cases v) auto
  then have "vector_flag ?v i False = Some (v, 0)"
    using il n fb(1,3) by (simp add: vector_flag_def VECAND_1)
  moreover have "vector_lookup (Some ?v) (int i) = Some 0" and "vector_lookup2 (Some ?v) (int i) = Some x"
    using il n fb u by (simp_all add: vector_lookup_def vector_lookup2_def VECP_def VECAND_1)
  ultimately show "\<exists>v1. vector_flag v i True = Some (v1, 0) \<and> vec_ok v1
           \<and> vector_lookup (Some v1) (int i) = Some 0 \<and> vector_lookup2 (Some v1) (int i) = Some x
           \<and> vector_flag v1 i False = Some (v, 0)" using k by blast
qed

theorem vector_flag_witness:
  "\<exists>v1. vector_flag vec8 5 True = Some (v1, 0) \<and> vector_lookup2 (Some v1) (int 5) = Some 0x500
     \<and> vector_flag v1 5 False = Some (vec8, 0)"
proof -
  have "vobj vec8 5 = Some 0x500" by (simp add: vobj_def vec8_def)
  then show ?thesis using vector_flag_reversible[OF vec8_ok, of 5] by auto
qed

section \<open>Defects of the 64-bit port\<close>

text \<open>
  (C39) Removing index 0 while some slot is free leaves defined behaviour: \<open>index - 1\<close> is computed
  as an unsigned int, so \<open>&VEC(vec, index - 1)\<close> is 32 GiB above the table instead of one slot
  below it, the comparison with the head of the free list sends the code into the backward
  scan, and the scan reads there.
\<close>

theorem vector_rem_zero_faults:
  assumes ok: "vec_ok v" and z: "vobj v 0 = Some x" and fr: "free_slots (slots v) \<noteq> []"
    and b: "vector v + 2 ^ 35 < 2 ^ 64"
  shows "vector_rem v 0 = None"
proof -
  have n0: "0 < nentries v" "slots v ! 0 = x" "even x" using z by (auto simp: vobj_def split: if_splits)
  note d = vec_okD[OF ok n0(1)]
  have n: "nentries v = length (slots v)" "nentries v \<le> VECTOR_MAX" using ok by (auto simp: vec_ok_def)
  obtain k ks where fs: "free_slots (slots v) = k # ks" using fr by (cases "free_slots (slots v)") auto
  have vf: "vfree v = vector v + 8 * k + 1" "k < length (slots v)" using d(3) fs by auto
  have hd: "VECAND (vfree v) NOT3 = vector v + 8 * k"
    unfolding vf(1) by (rule link_target) (use d(1) vf n in \<open>auto simp: vec_fits_def\<close>)
  have sa: "slot_addr v ((0 + (2 ^ 32 - 1)) mod 2 ^ 32) = vector v + 8 * (2 ^ 32 - 1)"
    using b by (simp add: slot_addr_def wadd_exact)
  have far: "slot_at v (vector v + 8 * (2 ^ 32 - 1)) = None" using n by (simp add: slot_at_def VECTOR_MAX_def)
  obtain f where f: "nentries v = Suc f" using n0 by (cases "nentries v") auto
  have "scan_back (nentries v) v (vector v + 8 * (2 ^ 32 - 1)) = None"
    unfolding f scan_back.simps far by simp
  moreover have "\<not> (VECAND (vfree v) NOT3 = 0 \<or> vector v + 8 * (2 ^ 32 - 1) < VECAND (vfree v) NOT3)"
    using hd vf(2) n d(1) by (simp add: vec_fits_def VECTOR_MAX_def)
  ultimately show ?thesis
    unfolding vector_rem_def Let_def sa using n0 n by (simp add: VECAND_1)
qed

theorem vector_rem_zero_witness: "vector_rem vec8 0 = None"
proof -
  have "vobj vec8 0 = Some 0x100" by (simp add: vobj_def vec8_def)
  then show ?thesis using vector_rem_zero_faults[OF vec8_ok] vec8_free by (simp add: vec8_def)
qed

lemma add_int_high: "add_int x a div 2 ^ 32 = x div 2 ^ 32"
proof -
  have "(y * 2 ^ 32 + r mod 2 ^ 32) div 2 ^ 32 = y" for y r :: nat by simp
  then show ?thesis unfolding add_int_def by blast
qed

text \<open>
  (C40) Growing a table that still has free slots below the index asked for moves those links
  with \<open>*(int *) prev += adjust\<close>, which cannot change the high half of a 64-bit link: when the
  new block lies in another 4 GiB window, the first link leads outside the new block and the
  fix-up loop follows it out of the object.
\<close>

theorem vector_add_far_block_faults:
  assumes ok: "vec_ok v" and ob: "object mod 4 = 0" and ix: "index < 2 ^ 32 - 1"
    and fr: "free_slots (slots v) = k # ks" "\<forall>i \<in> set (k # ks). i < index" and n: "nentries v < VECTOR_MAX"
    and al: "scalloc ink mmap h (grown_size v index * 8) = Some (h1, p)" "p \<noteq> 0"
    and far: "\<forall>i < grown_size v index. (p + 8 * i) div 2 ^ 32 \<noteq> (vector v + 8 * k) div 2 ^ 32"
  shows "vector_add ink mmap h v object index = None"
proof -
  let ?m = "grown_size v index" let ?x = "vector v + 8 * k + 1" let ?y = "add_int ?x (adjust_of p (vector v))"
  have n0: "0 < nentries v" using fr ok by (cases "nentries v") (auto simp: vec_ok_def free_slots_def)
  note d = vec_okD[OF ok n0] and g = grown_size_ok[OF n ix]
  have vf: "vfree v = ?x" "k < length (slots v)" using d(3) fr by auto
  have nn: "nentries v = length (slots v)" using ok by (simp add: vec_ok_def)
  have xlt: "?x < 2 ^ 64" using d(1) vf nn by (simp add: vec_fits_def)
  have lt: "VECAND ?x NOT3 = vector v + 8 * k"
    by (rule link_target) (use d(1) xlt in \<open>auto simp: vec_fits_def\<close>)
  have xw: "?x div 2 ^ 32 = (vector v + 8 * k) div 2 ^ 32"
    by (rule tagged_window) (use d(1) in \<open>simp add: vec_fits_def\<close>)
  let ?v1 = "v\<lparr>vector := p, slots := slots v @ replicate (?m - nentries v) 0, vfree := ?y\<rparr>"
  have yh: "?y div 2 ^ 32 = (vector v + 8 * k) div 2 ^ 32" unfolding add_int_high xw ..
  have ylt: "?y < 2 ^ 64"
  proof -
    have "?y div 2 ^ 32 < 2 ^ 32" unfolding add_int_high using xlt by (simp add: less_mult_imp_div_less)
    then show ?thesis by (simp add: div_less_iff_less_mult)
  qed
  have "slot_at ?v1 (VECAND ?y NOT3) = None"
  proof (rule ccontr)
    assume "slot_at ?v1 (VECAND ?y NOT3) \<noteq> None"
    then obtain i where "i < ?m" "VECAND ?y NOT3 = p + 8 * i"
      using nn g(1) by (auto simp: slot_at_def split: if_splits elim!: dvdE)
    moreover have "VECAND ?y NOT3 div 2 ^ 32 = ?y div 2 ^ 32" 
      using NOT3_eq[OF ylt] div_mult2_eq[of "?y div 4 * 4" 4 "2 ^ 30"] div_mult2_eq[of ?y 4 "2 ^ 30"] by simp
    ultimately show False using far yh by metis
  qed
  then have "fixup (Suc (Suc (nentries v))) (v\<lparr>vector := p, slots := slots v @ replicate (?m - nentries v) 0\<rparr>)
      Free_head (adjust_of p (vector v)) = None"
    using vf(1) lt d(1) by (simp add: Let_def vec_fits_def)
  then have gr: "vector_grow ink mmap h v ?m = None"
    using al g(1) by (simp add: vector_grow_def Let_def del: fixup.simps)
  have "find_slot (Suc (nentries v)) v Free_head index = Some None"
    by (rule find_slot_none[OF ok]) (use fr in auto)
  then show ?thesis
    using gr ob n by (simp add: vector_add_def numeral_2_eq_2 VECAND_3 del: find_slot.simps)
qed

definition heap_high :: "nat heap" where
  "heap_high = heap_boot 0x200000000"

lemma heap_high_inv: "heap_inv bump_mmap bump_inv heap_high {0..<0x200000000}"
  using bump_ok by (auto simp: heap_inv_def lists_ok_def heap_free_def pregrown_def heap_high_def heap_boot_def
      bump_inv_def block_def pagesize_def)

theorem vector_add_far_witness:
  "vector_add False bump_mmap heap_high vec8 0x8000 4 = None"
proof -
  note m = vec8_grown
  have "scalloc False bump_mmap heap_high 88 \<noteq> Some (h1, 0)" for h1
    by (rule mmap_gives[OF _ _ heap_high_inv, where sz = pagesize])
      (simp_all add: round_88 bump_mmap_def heap_high_def heap_boot_def pagesize_def)
  moreover obtain h1 p where al: "scalloc False bump_mmap heap_high 88 = Some (h1, p)"
    "p \<noteq> 0 \<longrightarrow> block p (round_new 88) \<inter> {0..<0x200000000} = {}"
    using scalloc_law[OF heap_high_inv, of 88 False] by (auto simp: max_request_def split: if_splits)
  ultimately have p: "p \<noteq> 0" "block p (round_new 88) \<inter> {0..<0x200000000} = {}" by auto
  have "p \<in> block p (round_new 88)" using round_new_ok(2)[of 88] by (simp add: block_def)
  then have hi: "0x200000000 \<le> p" using p(2) by (metis atLeastLessThan_iff disjoint_iff le0 not_le)
  have "(p + 8 * i) div 2 ^ 32 \<noteq> (vector vec8 + 8 * 3) div 2 ^ 32" for i
  proof -
    have "2 \<le> (p + 8 * i) div 2 ^ 32" using hi by (simp add: less_eq_div_iff_mult_less_eq)
    then show ?thesis by (simp add: vec8_def)
  qed
  then show ?thesis
    using vector_add_far_block_faults[OF vec8_ok _ _ vec8_free, of "0x8000" 4 False bump_mmap heap_high h1 p] al(1) p(1) m
    by (simp add: vec8_def VECTOR_MAX_def)
qed

end
