(* ===== verification/Rsrc.thy ===== *)
theory Rsrc
  imports Prelude
begin

text \<open>
  The resource database of the system manager, \<open>mgr/rsrcdb/rsrcdbmgr_list.c\<close>: for every class
  of resource (memory, irq, io, dma, ...) a tree of names, the list of the ranges that were
  created, ordered by start, and the list of the active blocks, each free (owner 0) or held by
  a process.

  A linked list is the list of its elements; the back pointers of the active list always
  mirror it. A 64-bit number is a nat, with the wrap-around written out (\<open>wadd\<close>). A
  \<open>rsrc_node_t *\<close> is the path of the node in its tree, whose length is the level the code
  stores as its priority. \<open>mem\<close> says whether \<open>calloc\<close> finds memory during the call.
\<close>

section \<open>Data\<close>

definition ULONGLONG_MAX :: nat where
  "ULONGLONG_MAX = 2 ^ 64 - 1"

definition FLAG_ALIGN :: nat where "FLAG_ALIGN = 0x200"
definition FLAG_RANGE :: nat where "FLAG_RANGE = 0x400"
definition FLAG_SHARE :: nat where "FLAG_SHARE = 0x800"
definition FLAG_TOPDOWN :: nat where "FLAG_TOPDOWN = 0x1000"
definition FLAG_RSVP :: nat where "FLAG_RSVP = 0x4000"
definition FLAG_NOREMOVE :: nat where "FLAG_NOREMOVE = 0x8000"

definition flag_set :: "nat \<Rightarrow> nat \<Rightarrow> bool" where
  "flag_set flags f \<longleftrightarrow> flags AND f \<noteq> 0"

record rsrc_block =
  bstart :: nat
  bend :: nat
  bowner :: int
  bflags :: nat

record rsrc_create =
  cstart :: nat
  cend :: nat
  cflags :: nat
  ccreator :: int
  cnode :: "string list"

datatype rsrc_node = Node (node_name: string) (node_child: "rsrc_node list")

record rsrc_root =
  rname :: string
  rchild :: "rsrc_node list"
  created :: "rsrc_create list"
  active :: "rsrc_block list"

definition CONTAINSE :: "nat \<Rightarrow> nat \<Rightarrow> nat \<Rightarrow> bool" where
  "CONTAINSE s1 e1 p \<longleftrightarrow> s1 \<le> p \<and> p \<le> e1"

definition OVERLAPE :: "nat \<Rightarrow> nat \<Rightarrow> nat \<Rightarrow> nat \<Rightarrow> bool" where
  "OVERLAPE s1 e1 s2 e2 \<longleftrightarrow> CONTAINSE s1 e1 s2 \<or> CONTAINSE s2 e2 s1"

section \<open>Names\<close>

text \<open>\<open>rsrc_root_locate\<close> with a name: the root whose name is the first component.\<close>

definition first_component :: "string \<Rightarrow> string" where
  "first_component name = takeWhile (\<lambda>c. c \<noteq> CHR ''/'') name"

definition skip_slashes :: "string \<Rightarrow> string" where
  "skip_slashes = dropWhile (\<lambda>c. c = CHR ''/'')"

definition new_root :: "string \<Rightarrow> rsrc_root" where
  "new_root nm = \<lparr>rname = nm, rchild = [], created = [], active = []\<rparr>"

definition root_find :: "rsrc_root list \<Rightarrow> string \<Rightarrow> rsrc_root option" where
  "root_find roots nm = find (\<lambda>r. rname r = nm) roots"

text \<open>The database: the list of the roots, and the caller's \<open>errno\<close>.\<close>

record rsrc_db =
  g_rsrc_root :: "rsrc_root list"
  errno :: nat

definition rsrc_root_locate :: "bool \<Rightarrow> rsrc_db \<Rightarrow> string \<Rightarrow> bool \<Rightarrow> rsrc_db \<times> rsrc_root option" where
  "rsrc_root_locate mem db name create =
     (let nm = first_component name in
      case root_find (g_rsrc_root db) nm of
        Some r \<Rightarrow> (db, Some r)
      | None \<Rightarrow> if \<not> create then (db\<lparr>errno := EINVAL\<rparr>, None)
                else if mem then (db\<lparr>g_rsrc_root := new_root nm # g_rsrc_root db\<rparr>, Some (new_root nm))
                else (db\<lparr>errno := ENOMEM\<rparr>, None))"

text \<open>
  The components of a name after the first. The length of a component is kept in a \<open>uint8_t\<close>:
  a component is cut to its length modulo 256, and one whose cut length is 0 ends the walk.
\<close>

function components :: "string \<Rightarrow> string list" where
  "components s =
     (let s = skip_slashes s;
          c = takeWhile (\<lambda>c. c \<noteq> CHR ''/'') s;
          n = length c mod 256
      in if n = 0 then [] else take n c # components (drop (length c) s))"
  by pat_completeness auto
termination
proof (relation "measure length")
  fix s s' c :: string and n :: nat
  assume s': "s' = skip_slashes s" and c: "c = takeWhile (\<lambda>c. c \<noteq> CHR ''/'') s'" and n: "n = length c mod 256" "n \<noteq> 0"
  have "0 < length c" using n by (cases "length c") auto
  moreover have "length c \<le> length s'" unfolding c by (rule length_takeWhile_le)
  moreover have "length s' \<le> length s" unfolding s' skip_slashes_def by (rule length_dropWhile_le)
  ultimately show "(drop (length c) s', s) \<in> measure length"
    unfolding in_measure length_drop by linarith
qed simp

text \<open>
  The walk down the tree. With \<open>create\<close> a missing node is put in front of its siblings. The
  result is the tree, whether the node was reached, and what the walk left in \<open>errno\<close>: it also
  writes it on a step that found the node.
\<close>

definition later :: "nat option \<Rightarrow> nat option \<Rightarrow> nat option" where
  "later e1 e2 = (case e2 of None \<Rightarrow> e1 | Some _ \<Rightarrow> e2)"

fun node_new :: "string list \<Rightarrow> rsrc_node list" where
  "node_new [] = []"
| "node_new (c # cs) = [Node c (node_new cs)]"

fun node_walk :: "bool \<Rightarrow> rsrc_node list \<Rightarrow> string list \<Rightarrow> bool \<Rightarrow> rsrc_node list \<times> bool \<times> nat option" where
  "node_walk mem ns [] create = (ns, True, None)"
| "node_walk mem [] (c # cs) create =
     (if create then (if mem then (node_new (c # cs), True, None) else ([], False, Some ENOMEM))
      else ([], False, Some EINVAL))"
| "node_walk mem (n # ns) (c # cs) create =
     (if node_name n = c then
        (let (sub, ok, e) = node_walk mem (node_child n) cs create
         in (Node (node_name n) sub # ns, ok, later (Some EINVAL) e))
      else if list_ex (\<lambda>m. node_name m = c) ns then
        (let (ns', ok, e) = node_walk mem ns (c # cs) create in (n # ns', ok, e))
      else if create then
        (if mem then (node_new (c # cs) @ n # ns, True, None) else (n # ns, False, Some ENOMEM))
      else (n # ns, False, Some EINVAL))"

definition root_update :: "rsrc_db \<Rightarrow> rsrc_root \<Rightarrow> rsrc_db" where
  "root_update db r =
     db\<lparr>g_rsrc_root := map (\<lambda>r'. if rname r' = rname r then r else r') (g_rsrc_root db)\<rparr>"

definition set_errno :: "nat option \<Rightarrow> rsrc_db \<Rightarrow> rsrc_db" where
  "set_errno e db = (case e of None \<Rightarrow> db | Some x \<Rightarrow> db\<lparr>errno := x\<rparr>)"

text \<open>
  \<open>rsrc_node_locate\<close>: the path of the node. A first component that is cut to length 0 leaves
  \<open>node\<close> at NULL and \<open>errno\<close> untouched.
\<close>

definition rsrc_node_locate :: "bool \<Rightarrow> rsrc_db \<Rightarrow> string \<Rightarrow> bool \<Rightarrow> rsrc_db \<times> string list option" where
  "rsrc_node_locate mem db name create =
     (case rsrc_root_locate mem db name create of
        (db1, None) \<Rightarrow> (db1, None)
      | (db1, Some r) \<Rightarrow>
          (let rest = skip_slashes (drop (length (first_component name)) name);
               path = components rest
           in if rest = [] then (db1, Some [])
              else if path = [] then (db1, None)
              else (let (ns, ok, e) = node_walk mem (rchild r) path create
                    in (set_errno e (root_update db1 (r\<lparr>rchild := ns\<rparr>)), if ok then Some path else None))))"

section \<open>Priorities\<close>

text \<open>
  The priority of a node is its level, kept in a \<open>uint8_t\<close>; the root has level 0.
  The conditional operator binds weaker than \<open>+\<close>: the whole sum of the node's priority and the
  masked flag is the condition.
\<close>

definition node_priority :: "string list \<Rightarrow> nat" where
  "node_priority path = length path mod 256"

definition create_priority :: "rsrc_create \<Rightarrow> nat" where
  "create_priority c = (if node_priority (cnode c) + (cflags c AND FLAG_RSVP) \<noteq> 0 then 1 else 0)"

definition touches :: "rsrc_create \<Rightarrow> nat \<Rightarrow> nat \<Rightarrow> bool" where
  "touches c start end \<longleftrightarrow>
     cstart c \<le> start \<and> start \<le> cend c \<or> start \<le> cstart c \<and> cstart c \<le> end"

fun range_priority_loop :: "rsrc_create list \<Rightarrow> nat \<Rightarrow> nat \<Rightarrow> nat \<Rightarrow> nat" where
  "range_priority_loop [] start end priority = priority"
| "range_priority_loop (c # cs) start end priority =
     (if end < cstart c then priority
      else range_priority_loop cs start end
             (if touches c start end then max (create_priority c) priority else priority))"

definition find_range_priority :: "rsrc_root \<Rightarrow> nat \<Rightarrow> nat \<Rightarrow> nat" where
  "find_range_priority root start end = range_priority_loop (created root) start end 0"

fun next_priority_loop :: "rsrc_create list \<Rightarrow> nat \<Rightarrow> nat \<Rightarrow> bool \<Rightarrow> nat \<Rightarrow> nat \<Rightarrow> nat \<Rightarrow> nat" where
  "next_priority_loop [] start end backward cur priority v = v"
| "next_priority_loop (c # cs) start end backward cur priority v =
     (if end < cstart c then v
      else if touches c start end then
        (let np = create_priority c; priority = max np priority
         in next_priority_loop cs start end backward cur priority
              (if cur \<le> priority \<and> cur \<le> np
               then (if backward then min v (wsub (cstart c) 1) else max v (wadd (cend c) 1)) else v))
      else next_priority_loop cs start end backward cur priority v)"

definition find_next_priority :: "rsrc_root \<Rightarrow> nat \<Rightarrow> nat \<Rightarrow> bool \<Rightarrow> bool \<times> nat" where
  "find_next_priority root start end backward =
     (let cur = find_range_priority root start end;
          v0 = (if backward then (if start = 0 then 0 else start - 1)
                else (if end = ULONGLONG_MAX then ULONGLONG_MAX else end + 1));
          v = (if cur = 0 then v0 else next_priority_loop (created root) start end backward cur 0 v0)
      in (if backward then v \<noteq> end else v \<noteq> start, v))"

section \<open>Searching a range\<close>

definition BLOCK_CONTAINS_PT :: "rsrc_block \<Rightarrow> nat \<Rightarrow> bool" where
  "BLOCK_CONTAINS_PT b pt \<longleftrightarrow> bstart b \<le> pt \<and> pt \<le> bend b"

definition BLOCK_SHARE_COMPATABLE :: "rsrc_block \<Rightarrow> nat \<Rightarrow> int \<Rightarrow> bool" where
  "BLOCK_SHARE_COMPATABLE b flags owner \<longleftrightarrow>
     bowner b = owner \<or> bowner b \<noteq> 0 \<and> flag_set (bflags b) FLAG_SHARE \<and> flag_set flags FLAG_SHARE"

text \<open>The parameters of a search, and the best range so far with its priority.\<close>

record search =
  slength :: nat
  slimit_start :: nat
  slimit_end :: nat
  salign :: nat
  sowner :: int
  sflags :: nat

definition forward :: "search \<Rightarrow> bool" where
  "forward q \<longleftrightarrow> \<not> flag_set (sflags q) FLAG_TOPDOWN"

type_synonym saved = "(nat \<times> nat \<times> nat) option"

definition fit_start :: "search \<Rightarrow> nat \<Rightarrow> nat \<Rightarrow> nat" where
  "fit_start q ts te =
     (let t = (if forward q then ts else wsub te (wsub (slength q) 1));
          extra = t mod salign q
      in if extra = 0 then t else if forward q then wadd t (salign q - extra) else t - extra)"

definition better :: "nat \<Rightarrow> saved \<Rightarrow> bool" where
  "better prio sv \<longleftrightarrow> prio = 0 \<or> (case sv of None \<Rightarrow> True | Some (_, _, p) \<Rightarrow> prio < p)"

text \<open>
  The part of the loop between the label \<open>restart\<close> and the step to the next block. The flag of
  the result says that the search ends here. The fuel bounds the jumps back to \<open>restart\<close>. An
  alignment of 0, a division by zero, is \<open>None\<close>.
\<close>

primrec fit_block :: "nat \<Rightarrow> rsrc_root \<Rightarrow> search \<Rightarrow> rsrc_block \<Rightarrow> nat \<Rightarrow> nat \<Rightarrow> saved \<Rightarrow> (saved \<times> bool) option" where
  "fit_block 0 root q b ts te sv = None"
| "fit_block (Suc fuel) root q b ts te sv =
     (if BLOCK_SHARE_COMPATABLE b (sflags q) (sowner q) \<and> ts \<le> te \<and> slength q \<le> wadd (te - ts) 1 then
        (if salign q = 0 then None
         else let lo = max (bstart b) (slimit_start q); hi = min (bend b) (slimit_end q);
             s = fit_start q ts te; e = wadd s (wsub (slength q) 1)
         in if s < lo \<or> hi < e then Some (sv, False)
            else (let prio = find_range_priority root s e;
                      sv1 = (if better prio sv then Some (s, e, prio) else sv)
                  in if prio = 0 then Some (sv1, True)
                     else (case find_next_priority root s e (\<not> forward q) of
                             (again, v) \<Rightarrow>
                               if again then (if forward q then fit_block fuel root q b v hi sv1
                                              else fit_block fuel root q b lo v sv1)
                               else Some (sv1, False))))
      else Some (sv, False))"

text \<open>The blocks from the first candidate on, in the direction of the search.\<close>

fun fit_blocks :: "nat \<Rightarrow> rsrc_root \<Rightarrow> search \<Rightarrow> rsrc_block list \<Rightarrow> saved \<Rightarrow> saved option" where
  "fit_blocks fuel root q [] sv = Some sv"
| "fit_blocks fuel root q (b # bs) sv =
     (if bstart b \<le> slimit_end q then
        (case fit_block fuel root q b (max (bstart b) (slimit_start q)) (min (bend b) (slimit_end q)) sv of
           None \<Rightarrow> None
         | Some (sv1, stop) \<Rightarrow> if stop then Some sv1 else fit_blocks fuel root q bs sv1)
      else Some sv)"

definition candidates :: "rsrc_root \<Rightarrow> search \<Rightarrow> rsrc_block list" where
  "candidates root q =
     (if forward q
      then dropWhile (\<lambda>b. \<not> (BLOCK_CONTAINS_PT b (slimit_start q) \<or> slimit_start q < bstart b)) (active root)
      else rev (takeWhile (\<lambda>b. bstart b \<le> slimit_end q) (active root)))"

text \<open>
  The \<open>ERANGE\<close> that a failed search leaves in \<open>errno\<close> is not part of the result: the caller
  returns \<open>EINVAL\<close> in its place.
\<close>

definition rsrc_find_range :: "nat \<Rightarrow> rsrc_root \<Rightarrow> search \<Rightarrow> saved option" where
  "rsrc_find_range fuel root q = fit_blocks fuel root q (candidates root q) None"

section \<open>Inserting and removing blocks\<close>

fun rsrc_insert_create :: "rsrc_create list \<Rightarrow> rsrc_create \<Rightarrow> rsrc_create list" where
  "rsrc_insert_create [] c = [c]"
| "rsrc_insert_create (d # ds) c =
     (if cstart d \<le> cstart c then d # rsrc_insert_create ds c else c # d # ds)"

text \<open>\<open>rsrc_insert_block\<close> gives the new block, or nothing without memory; the callers link it.\<close>

definition rsrc_insert_block :: "bool \<Rightarrow> nat \<Rightarrow> nat \<Rightarrow> int \<Rightarrow> nat \<Rightarrow> rsrc_block option" where
  "rsrc_insert_block mem start end owner flags =
     (if mem then Some \<lparr>bstart = start, bend = end, bowner = owner, bflags = flags\<rparr> else None)"

definition JOIN_COMPATIBLE :: "rsrc_block \<Rightarrow> int \<Rightarrow> nat \<Rightarrow> bool" where
  "JOIN_COMPATIBLE b pid flags \<longleftrightarrow>
     bowner b = pid \<and> \<not> flag_set (bflags b) FLAG_SHARE \<and> \<not> flag_set flags FLAG_SHARE"

definition near :: "nat \<Rightarrow> nat \<Rightarrow> rsrc_block \<Rightarrow> bool" where
  "near ns ne b = OVERLAPE (if ns \<noteq> 0 then ns - 1 else ns) (if ne \<noteq> ULONGLONG_MAX then ne + 1 else ne)
                    (bstart b) (bend b)"

text \<open>
  The loops of the two insertions walk the list with the block \<open>absorb\<close> that stands for the new
  range once there is one. The state is the list before it, \<open>absorb\<close>, and the blocks between it
  and the current one. Linking \<open>absorb->next\<close> past the current block unlinks what is between.
\<close>

record walk =
  wbefore :: "rsrc_block list"
  wabsorb :: "rsrc_block option"
  wbetween :: "rsrc_block list"

definition walk_list :: "walk \<Rightarrow> rsrc_block list" where
  "walk_list w = wbefore w @ (case wabsorb w of None \<Rightarrow> [] | Some a \<Rightarrow> [a]) @ wbetween w"

definition walk_pass :: "walk \<Rightarrow> rsrc_block \<Rightarrow> walk" where
  "walk_pass w b = (case wabsorb w of
      None \<Rightarrow> w\<lparr>wbefore := wbefore w @ [b]\<rparr>
    | Some _ \<Rightarrow> w\<lparr>wbetween := wbetween w @ [b]\<rparr>)"

text \<open>Absorb the current block: widen \<open>absorb\<close>, or make the current block the one that absorbs.\<close>

definition walk_absorb :: "walk \<Rightarrow> rsrc_block \<Rightarrow> nat \<Rightarrow> nat \<Rightarrow> walk" where
  "walk_absorb w b ns ne =
     (case wabsorb w of
        None \<Rightarrow> w\<lparr>wabsorb := Some (b\<lparr>bstart := ns, bend := ne\<rparr>), wbetween := []\<rparr>
      | Some a \<Rightarrow> w\<lparr>wabsorb := Some (a\<lparr>bstart := ns, bend := ne\<rparr>), wbetween := []\<rparr>)"

text \<open>The end of both functions: an outstanding range goes to the end of what was walked.\<close>

definition walk_end :: "bool \<Rightarrow> walk \<Rightarrow> rsrc_block list \<Rightarrow> nat \<Rightarrow> nat \<Rightarrow> int \<Rightarrow> nat \<Rightarrow> rsrc_block list" where
  "walk_end mem w rest ns ne pid flags =
     (if wabsorb w = None \<and> ns \<le> ne
      then (case rsrc_insert_block mem ns ne pid flags of
              None \<Rightarrow> walk_list w @ rest
            | Some nb \<Rightarrow> walk_list w @ nb # rest)
      else walk_list w @ rest)"

fun add_pid_loop :: "bool \<Rightarrow> walk \<Rightarrow> rsrc_block list \<Rightarrow> nat \<Rightarrow> nat \<Rightarrow> int \<Rightarrow> nat \<Rightarrow> rsrc_block list" where
  "add_pid_loop mem w [] ns ne pid flags = walk_end mem w [] ns ne pid flags"
| "add_pid_loop mem w (b # bs) ns ne pid flags =
     (if ns \<le> wadd (bend b) 1 then
        (let overlaps = near ns ne b; canjoin = JOIN_COMPATIBLE b pid flags;
             w1 = (if wabsorb w = None \<and> ns < bstart b
                   then w\<lparr>wabsorb := rsrc_insert_block mem ns ne pid flags\<rparr> else w)
         in if canjoin \<and> overlaps
            then add_pid_loop mem (walk_absorb w1 b (min ns (bstart b)) (max ne (bend b))) bs
                   (min ns (bstart b)) (max ne (bend b)) pid flags
            else add_pid_loop mem (walk_pass w1 b) bs ns ne pid flags)
      else add_pid_loop mem (walk_pass w b) bs ns ne pid flags)"

definition rsrc_block_add_range_pid :: "bool \<Rightarrow> rsrc_root \<Rightarrow> nat \<Rightarrow> nat \<Rightarrow> int \<Rightarrow> nat \<Rightarrow> rsrc_root" where
  "rsrc_block_add_range_pid mem root ns ne pid flags =
     root\<lparr>active := add_pid_loop mem \<lparr>wbefore = [], wabsorb = None, wbetween = []\<rparr> (active root) ns ne pid flags\<rparr>"

fun add_loop :: "bool \<Rightarrow> walk \<Rightarrow> rsrc_block list \<Rightarrow> nat \<Rightarrow> nat \<Rightarrow> int \<Rightarrow> nat \<Rightarrow> rsrc_block list" where
  "add_loop mem w [] ns ne pid flags = walk_end mem w [] ns ne pid flags"
| "add_loop mem w (b # bs) ns ne pid flags =
     (if \<not> ns \<le> ne then walk_end mem w (b # bs) ns ne pid flags
      else if wadd (bend b) 1 < ns then add_loop mem (walk_pass w b) bs ns ne pid flags
      else if wadd ne 1 < bstart b then
        (let w1 = (if wabsorb w = None then w\<lparr>wabsorb := rsrc_insert_block mem ns ne pid flags\<rparr> else w)
         in walk_end mem (walk_pass w1 b) bs (wadd ne 1) ne pid flags)
      else if bowner b \<noteq> 0 \<and> near ns ne b then
        (let w1 = (if ns < bstart b
                   then (case wabsorb w of
                           Some a \<Rightarrow> w\<lparr>wabsorb := Some (a\<lparr>bend := wsub (bstart b) 1\<rparr>)\<rparr>
                         | None \<Rightarrow> w\<lparr>wabsorb := rsrc_insert_block mem ns (wsub (bstart b) 1) pid flags\<rparr>)
                   else w)
         in if ne \<le> bend b then walk_end mem (walk_pass w1 b) bs ns ne pid flags
            else add_loop mem \<lparr>wbefore = walk_list (walk_pass w1 b), wabsorb = None, wbetween = []\<rparr> bs
                   (wadd (bend b) 1) ne pid flags)
      else if near ns ne b then
        add_loop mem (walk_absorb w b (min ns (bstart b)) (max ne (bend b))) bs
          (min ns (bstart b)) (max ne (bend b)) pid flags
      else add_loop mem (walk_pass w b) bs ns ne pid flags)"

definition rsrc_block_add_range :: "bool \<Rightarrow> rsrc_root \<Rightarrow> nat \<Rightarrow> nat \<Rightarrow> int \<Rightarrow> nat \<Rightarrow> rsrc_root" where
  "rsrc_block_add_range mem root ns ne pid flags =
     root\<lparr>active := add_loop mem \<lparr>wbefore = [], wabsorb = None, wbetween = []\<rparr> (active root) ns ne pid flags\<rparr>"

text \<open>
  \<open>rsrc_block_remove_range\<close>. The result is the list and whether the function ran out of memory
  while splitting a block.
\<close>

fun remove_loop :: "bool \<Rightarrow> rsrc_block list \<Rightarrow> nat \<Rightarrow> nat \<Rightarrow> int \<Rightarrow> rsrc_block list \<times> nat" where
  "remove_loop mem [] ns ne pid = ([], EOK)"
| "remove_loop mem (b # bs) ns ne pid =
     (if ne < bstart b then (b # bs, EOK)
      else if bowner b \<noteq> pid \<or> \<not> OVERLAPE ns ne (bstart b) (bend b) then
        (case remove_loop mem bs ns ne pid of (bs', r) \<Rightarrow> (b # bs', r))
      else if ns \<le> bstart b \<and> bend b \<le> ne then remove_loop mem bs ns ne pid
      else if bstart b < ns \<and> ne < bend b then
        (if mem
         then (case remove_loop mem bs ns ne pid of
                 (bs', r) \<Rightarrow> (b\<lparr>bend := wsub ns 1\<rparr> # b\<lparr>bstart := wadd ne 1\<rparr> # bs', r))
         else (b # bs, ENOMEM))
      else
        (case remove_loop mem bs ns ne pid of
           (bs', r) \<Rightarrow> (b\<lparr>bstart := (if ns \<le> bstart b then wadd ne 1 else bstart b),
                           bend := (if bend b \<le> ne then wsub ns 1 else bend b)\<rparr> # bs', r)))"

definition rsrc_block_remove_range :: "bool \<Rightarrow> rsrc_root \<Rightarrow> nat \<Rightarrow> nat \<Rightarrow> int \<Rightarrow> rsrc_root \<times> nat" where
  "rsrc_block_remove_range mem root ns ne pid =
     (case remove_loop mem (active root) ns ne pid of (bs, r) \<Rightarrow> (root\<lparr>active := bs\<rparr>, r))"

section \<open>Limiting a range to what was created\<close>

definition remove_callout :: "bool \<Rightarrow> rsrc_root \<Rightarrow> nat \<Rightarrow> nat \<Rightarrow> rsrc_root \<times> nat" where
  "remove_callout mem root start end = rsrc_block_remove_range mem root start end 0"

definition add_callout :: "bool \<Rightarrow> rsrc_root \<Rightarrow> nat \<Rightarrow> nat \<Rightarrow> rsrc_root \<times> nat" where
  "add_callout mem root start end = (rsrc_block_add_range mem root start end 0 0, 0)"

text \<open>
  The calls that \<open>_rsrc_block_limit_op\<close> makes: on the parts of the range that created ranges
  cover (\<open>Over\<close>) and on the parts that none covers (\<open>Non\<close>). They depend on the created list
  alone, which the callouts do not touch.
\<close>

datatype piece = Over nat nat | Non nat nat

record limit =
  loverlap :: "(nat \<times> nat) option"
  lpurge :: nat

definition after_end :: "nat \<Rightarrow> nat" where
  "after_end e = (if e \<noteq> ULONGLONG_MAX then e + 1 else ULONGLONG_MAX)"

definition limit_step :: "limit \<Rightarrow> rsrc_create \<Rightarrow> nat \<Rightarrow> piece list \<times> limit" where
  "limit_step l c pe =
     (let (out1, ov) = (case loverlap l of
             Some (s, e) \<Rightarrow> if \<not> OVERLAPE (cstart c) (cend c) s e then ([Over s e], None) else ([], Some (s, e))
           | None \<Rightarrow> ([], None));
          ov1 = (case ov of
             None \<Rightarrow> (max (cstart c) (lpurge l), min (cend c) pe)
           | Some (s, e) \<Rightarrow> (s, max e (min pe (cend c))));
          out2 = (if cstart c \<le> lpurge l then []
                  else [Non (lpurge l) (if cstart c \<noteq> 0 then cstart c - 1 else 0)])
      in (out1 @ out2, \<lparr>loverlap = Some ov1, lpurge = after_end (cend c)\<rparr>))"

fun limit_loop :: "rsrc_create list \<Rightarrow> limit \<Rightarrow> nat \<Rightarrow> piece list" where
  "limit_loop [] l pe =
     (case loverlap l of None \<Rightarrow> [] | Some (s, e) \<Rightarrow> [Over s e]) @ (if lpurge l \<le> pe then [Non (lpurge l) pe] else [])"
| "limit_loop (c # cs) l pe =
     (if \<not> lpurge l \<le> pe then (case loverlap l of None \<Rightarrow> [] | Some (s, e) \<Rightarrow> [Over s e])
      else if \<not> OVERLAPE (cstart c) (cend c) (lpurge l) pe then limit_loop cs l pe
      else (case limit_step l c pe of (out, l1) \<Rightarrow> out @ limit_loop cs l1 pe))"

definition limit_pieces :: "rsrc_create list \<Rightarrow> nat \<Rightarrow> nat \<Rightarrow> piece list" where
  "limit_pieces cs start end = limit_loop cs \<lparr>loverlap = None, lpurge = start\<rparr> end"

type_synonym callout = "rsrc_root \<Rightarrow> nat \<Rightarrow> nat \<Rightarrow> rsrc_root \<times> nat"

definition run_piece :: "callout option \<Rightarrow> callout option \<Rightarrow> piece \<Rightarrow> rsrc_root \<times> nat \<Rightarrow> rsrc_root \<times> nat" where
  "run_piece overlap nonoverlap p rr =
     (case p of
        Over s e \<Rightarrow> (case overlap of None \<Rightarrow> rr | Some f \<Rightarrow> f (fst rr) s e)
      | Non s e \<Rightarrow> (case nonoverlap of None \<Rightarrow> rr | Some f \<Rightarrow> f (fst rr) s e))"

definition rsrc_block_limit_op :: "rsrc_root \<Rightarrow> nat \<Rightarrow> nat \<Rightarrow> callout option \<Rightarrow> callout option \<Rightarrow> rsrc_root \<times> nat" where
  "rsrc_block_limit_op root start end overlap nonoverlap =
     fold (run_piece overlap nonoverlap) (limit_pieces (created root) start end) (root, EOK)"

section \<open>Requests\<close>

text \<open>\<open>_rsrc_is_child\<close> on the node at \<open>path\<close> with its children; the last loop tests for 0.\<close>

function rsrc_is_child :: "string list \<Rightarrow> rsrc_node list \<Rightarrow> string list \<Rightarrow> bool" where
  "rsrc_is_child path kids target \<longleftrightarrow>
     target = path
     \<or> list_ex (\<lambda>k. path @ [node_name k] = target) kids
     \<or> list_ex (\<lambda>k. \<not> rsrc_is_child (path @ [node_name k]) (node_child k) target) kids"
  by pat_completeness auto
termination
proof (relation "measure (\<lambda>(_, kids, _). size_list size kids)")
  fix path :: "string list" and kids :: "rsrc_node list" and target :: "string list" and k
  assume "k \<in> set kids"
  then have "size k \<le> size_list size kids" by (rule size_list_estimation') simp
  moreover have "size_list size (node_child k) < size k" by (cases k) simp
  ultimately show "((path @ [node_name k], node_child k, target), path, kids, target)
      \<in> measure (\<lambda>(_, kids, _). size_list size kids)" by simp
qed simp

fun node_at :: "rsrc_node list \<Rightarrow> string list \<Rightarrow> rsrc_node list" where
  "node_at kids [] = kids"
| "node_at kids (c # cs) =
     (case find (\<lambda>k. node_name k = c) kids of None \<Rightarrow> [] | Some k \<Rightarrow> node_at (node_child k) cs)"

record rsrc_request =
  qlength :: nat
  qalign :: nat
  qstart :: nat
  qend :: nat
  qflags :: nat
  qname :: "string option"

definition FLAG_ATTACH_RM :: nat where "FLAG_ATTACH_RM = 1"
definition FLAG_ATTACH_RMTOPID :: nat where "FLAG_ATTACH_RMTOPID = 2"
definition FLAG_ATTACH_RMFROMPID :: nat where "FLAG_ATTACH_RMFROMPID = 4"
definition FLAG_ATTACH_DONTLOOK :: nat where "FLAG_ATTACH_DONTLOOK = 8"

definition request_search :: "rsrc_request \<Rightarrow> int \<Rightarrow> nat \<Rightarrow> nat \<Rightarrow> search" where
  "request_search q frompid cs ce =
     \<lparr>slength = qlength q,
      slimit_start = (if flag_set (qflags q) FLAG_RANGE then max (qstart q) cs else cs),
      slimit_end = (if flag_set (qflags q) FLAG_RANGE then min (qend q) ce else ce),
      salign = (if flag_set (qflags q) FLAG_ALIGN \<and> qalign q \<noteq> 0 then qalign q else 1),
      sowner = frompid, sflags = qflags q\<rparr>"

text \<open>
  The loop over the created ranges: contiguous ones are joined, and each joined range is
  searched when the next one does not touch it. \<open>cur\<close> is the joined range, \<open>lst\<close> the best match
  with its priority (\<open>INT_MAX\<close> while there is none).
\<close>

definition improves :: "saved \<Rightarrow> nat \<Rightarrow> bool \<Rightarrow> bool" where
  "improves lst prio topdown \<longleftrightarrow>
     (case lst of None \<Rightarrow> True | Some (_, _, p) \<Rightarrow> prio < p \<or> topdown \<and> prio \<le> p)"

definition search_range :: "nat \<Rightarrow> rsrc_root \<Rightarrow> rsrc_request \<Rightarrow> int \<Rightarrow> bool \<Rightarrow> nat \<times> nat \<Rightarrow> saved \<Rightarrow> saved option" where
  "search_range fuel root q frompid topdown cur lst =
     (case rsrc_find_range fuel root (request_search q frompid (fst cur) (snd cur)) of
        None \<Rightarrow> None
      | Some None \<Rightarrow> Some lst
      | Some (Some (s, e, p)) \<Rightarrow> Some (if improves lst p topdown then Some (s, e, p) else lst))"

definition wanted :: "rsrc_root \<Rightarrow> string list \<Rightarrow> rsrc_create \<Rightarrow> bool" where
  "wanted root path c \<longleftrightarrow> path = [] \<or> rsrc_is_child path (node_at (rchild root) path) (cnode c)"

fun request_loop :: "nat \<Rightarrow> rsrc_root \<Rightarrow> rsrc_request \<Rightarrow> int \<Rightarrow> string list \<Rightarrow> rsrc_create list
    \<Rightarrow> (nat \<times> nat) option \<Rightarrow> saved \<Rightarrow> ((nat \<times> nat) option \<times> saved) option" where
  "request_loop fuel root q frompid path [] cur lst = Some (cur, lst)"
| "request_loop fuel root q frompid path (c # cs) cur lst =
     (if \<not> (case lst of None \<Rightarrow> True | Some (_, _, p) \<Rightarrow> node_priority path \<le> p) then Some (cur, lst)
      else if \<not> wanted root path c then request_loop fuel root q frompid path cs cur lst
      else (case cur of
              None \<Rightarrow> request_loop fuel root q frompid path cs (Some (cstart c, cend c)) lst
            | Some (s, e) \<Rightarrow>
                if cstart c \<noteq> 0 \<and> e < cstart c - 1 then
                  (case search_range fuel root q frompid (flag_set (qflags q) FLAG_TOPDOWN) (s, e) lst of
                     None \<Rightarrow> None
                   | Some lst1 \<Rightarrow> request_loop fuel root q frompid path cs (Some (cstart c, cend c)) lst1)
                else request_loop fuel root q frompid path cs (Some (min s (cstart c), max e (cend c))) lst))"

definition best_match :: "nat \<Rightarrow> rsrc_root \<Rightarrow> rsrc_request \<Rightarrow> int \<Rightarrow> string list \<Rightarrow> saved option" where
  "best_match fuel root q frompid path =
     (case request_loop fuel root q frompid path (created root) None None of
        None \<Rightarrow> None
      | Some (None, lst) \<Rightarrow> Some lst
      | Some (Some cur, lst) \<Rightarrow> search_range fuel root q frompid False cur lst)"

definition apply_match :: "bool \<Rightarrow> rsrc_root \<Rightarrow> rsrc_request \<Rightarrow> int \<Rightarrow> nat \<Rightarrow> nat \<Rightarrow> nat \<Rightarrow> rsrc_root" where
  "apply_match mem root q pid flags s e =
     (if flag_set flags FLAG_ATTACH_RMTOPID then
        rsrc_block_add_range_pid mem (fst (rsrc_block_remove_range mem root s e 0)) s e pid (qflags q AND FLAG_SHARE)
      else if flag_set flags FLAG_ATTACH_RMFROMPID then
        (let root1 = fst (rsrc_block_remove_range mem root s e pid)
         in if flag_set flags FLAG_ATTACH_RM then root1
            else fst (rsrc_block_limit_op root1 s e (Some (add_callout mem)) None))
      else root)"

text \<open>
  \<open>_rsrc_block_search_op\<close>: the database, the status, the request with the range that was found,
  and the priority. \<open>None\<close> is fuel that ran out.
\<close>

definition rsrc_block_search_op :: "nat \<Rightarrow> bool \<Rightarrow> rsrc_db \<Rightarrow> rsrc_request \<Rightarrow> int \<Rightarrow> nat
    \<Rightarrow> (rsrc_db \<times> nat \<times> rsrc_request \<times> nat) option" where
  "rsrc_block_search_op fuel mem db q pid flags =
     (case qname q of
        None \<Rightarrow> Some (db, EINVAL, q, 0)
      | Some name \<Rightarrow>
          if flag_set (qflags q) FLAG_RANGE \<and> qend q < qstart q then Some (db, EINVAL, q, 0)
          else (case rsrc_node_locate mem db name False of
             (db1, None) \<Rightarrow> Some (db1, errno db1, q, 0)
           | (db1, Some path) \<Rightarrow>
               (case rsrc_root_locate mem db1 name False of
                  (db2, None) \<Rightarrow> Some (db2, errno db2, q, 0)
                | (db2, Some root) \<Rightarrow>
                    (case (if flag_set flags FLAG_ATTACH_DONTLOOK then Some (Some (qstart q, qend q, 0))
                           else best_match fuel root q
                                  (if flag_set flags FLAG_ATTACH_RMFROMPID then pid else 0) path) of
                       None \<Rightarrow> None
                     | Some None \<Rightarrow> Some (db2, EINVAL, q, 0)
                     | Some (Some (s, e, p)) \<Rightarrow>
                         Some (root_update db2 (apply_match mem root q pid flags s e), EOK,
                               q\<lparr>qstart := s, qend := e\<rparr>, p)))))"

definition rsrcdbmgr_find :: "nat \<Rightarrow> bool \<Rightarrow> rsrc_db \<Rightarrow> rsrc_request \<Rightarrow> int \<Rightarrow> (rsrc_db \<times> nat \<times> rsrc_request \<times> nat) option" where
  "rsrcdbmgr_find fuel mem db q pid = rsrc_block_search_op fuel mem db q pid 0"

definition rsrcdbmgr_remove :: "nat \<Rightarrow> bool \<Rightarrow> rsrc_db \<Rightarrow> rsrc_request \<Rightarrow> int \<Rightarrow> (rsrc_db \<times> nat \<times> rsrc_request \<times> nat) option" where
  "rsrcdbmgr_remove fuel mem db q pid =
     (if pid < 0 then rsrc_block_search_op fuel mem db q (- pid) (FLAG_ATTACH_RMFROMPID OR FLAG_ATTACH_DONTLOOK)
      else rsrc_block_search_op fuel mem db q pid (FLAG_ATTACH_RMTOPID OR FLAG_ATTACH_DONTLOOK))"

definition rsrcdbmgr_attach :: "nat \<Rightarrow> bool \<Rightarrow> rsrc_db \<Rightarrow> rsrc_request \<Rightarrow> int \<Rightarrow> (rsrc_db \<times> nat \<times> rsrc_request \<times> nat) option" where
  "rsrcdbmgr_attach fuel mem db q pid = rsrc_block_search_op fuel mem db q pid FLAG_ATTACH_RMTOPID"

definition rsrcdbmgr_detach :: "nat \<Rightarrow> bool \<Rightarrow> rsrc_db \<Rightarrow> rsrc_request \<Rightarrow> int \<Rightarrow> (rsrc_db \<times> nat \<times> rsrc_request \<times> nat) option" where
  "rsrcdbmgr_detach fuel mem db q pid = rsrc_block_search_op fuel mem db q pid FLAG_ATTACH_RMFROMPID"

record rsrc_alloc =
  astart :: nat
  aend :: nat
  aflags :: nat
  aname :: "string option"

definition creator_pid :: "rsrc_alloc \<Rightarrow> int \<Rightarrow> int" where
  "creator_pid a pid = (if flag_set (aflags a) FLAG_NOREMOVE then 0 else pid)"

definition create_in_root :: "bool \<Rightarrow> rsrc_root \<Rightarrow> rsrc_create \<Rightarrow> rsrc_root" where
  "create_in_root mem root c =
     (let root1 = fst (rsrc_block_limit_op root (cstart c) (cend c) None (Some (add_callout mem)))
      in root1\<lparr>created := rsrc_insert_create (created root1) c\<rparr>)"

text \<open>
  \<open>_rsrcdbmgr_create\<close>. The allocation of the create entry has its own outcome \<open>cmem\<close>; its failure
  returns whatever \<open>errno\<close> holds.
\<close>

definition rsrcdbmgr_create :: "bool \<Rightarrow> bool \<Rightarrow> rsrc_db \<Rightarrow> rsrc_alloc \<Rightarrow> int \<Rightarrow> rsrc_db \<times> nat" where
  "rsrcdbmgr_create mem cmem db a pid =
     (case aname a of
        None \<Rightarrow> (db, EINVAL)
      | Some name \<Rightarrow>
          if aend a < astart a then (db, EINVAL)
          else (case rsrc_node_locate mem db name True of
             (db1, None) \<Rightarrow> (db1, errno db1)
           | (db1, Some path) \<Rightarrow>
               (case rsrc_root_locate mem db1 name False of
                  (db2, None) \<Rightarrow> (db2, errno db2)
                | (db2, Some root) \<Rightarrow>
                    if cmem then
                      (root_update db2 (create_in_root mem root
                         \<lparr>cstart = astart a, cend = aend a, cflags = aflags a mod 2 ^ 16,
                          ccreator = creator_pid a pid, cnode = path\<rparr>), EOK)
                    else (db2, errno db2))))"

text \<open>
  The loop of \<open>_rsrcdbmgr_destroy\<close> over the created list. An entry that is put back has a start
  above the destroyed range, so it goes behind everything the loop has passed. The flag says
  that the loop ran out of memory.
\<close>

function (sequential) destroy_loop :: "bool \<Rightarrow> rsrc_create list \<Rightarrow> nat \<Rightarrow> nat \<Rightarrow> string list \<Rightarrow> int \<Rightarrow> rsrc_create list \<times> bool" where
  "destroy_loop mem [] s e path pid = ([], True)"
| "destroy_loop mem (c # cs) s e path pid =
     (if e < cstart c then (c # cs, True)
      else if cnode c \<noteq> path \<or> ccreator c \<noteq> pid \<or> \<not> OVERLAPE (cstart c) (cend c) s e then
        (case destroy_loop mem cs s e path pid of (cs', ok) \<Rightarrow> (c # cs', ok))
      else if s \<le> cstart c \<and> cend c \<le> e then destroy_loop mem cs s e path pid
      else if cstart c < s \<and> e < cend c then
        (if mem
         then (case destroy_loop mem (rsrc_insert_create cs (c\<lparr>cstart := e + 1\<rparr>)) s e path pid of
                 (cs', ok) \<Rightarrow> (c\<lparr>cend := s - 1\<rparr> # cs', ok))
         else (c # cs, False))
      else if s \<le> cstart c then
        destroy_loop mem (rsrc_insert_create cs (c\<lparr>cstart := e + 1\<rparr>)) s e path pid
      else (case destroy_loop mem cs s e path pid of (cs', ok) \<Rightarrow> (c\<lparr>cend := s - 1\<rparr> # cs', ok)))"
  by pat_completeness auto

definition low_creates :: "nat \<Rightarrow> rsrc_create list \<Rightarrow> nat" where
  "low_creates e cs = length (filter (\<lambda>c. cstart c \<le> e) cs)"

lemma low_creates_insert: "e < cstart c \<Longrightarrow> low_creates e (rsrc_insert_create cs c) = low_creates e cs"
  by (induction cs) (auto simp: low_creates_def)

termination destroy_loop
  by (relation "measure (\<lambda>(mem, cs, s, e, path, pid). low_creates e cs)")
    (auto simp: low_creates_insert, auto simp: low_creates_def)

definition rsrcdbmgr_destroy :: "bool \<Rightarrow> rsrc_db \<Rightarrow> rsrc_alloc \<Rightarrow> int \<Rightarrow> rsrc_db \<times> nat" where
  "rsrcdbmgr_destroy mem db a pid =
     (case aname a of
        None \<Rightarrow> (db, EINVAL)
      | Some name \<Rightarrow>
          if aend a < astart a then (db, EINVAL)
          else (case rsrc_node_locate mem db name False of
             (db1, None) \<Rightarrow> (db1, errno db1)
           | (db1, Some path) \<Rightarrow>
               (case rsrc_root_locate mem db1 name False of
                  (db2, None) \<Rightarrow> (db2, errno db2)
                | (db2, Some root) \<Rightarrow>
                    (case destroy_loop mem (created root) (astart a) (aend a) path (creator_pid a pid) of
                       (cs, ok) \<Rightarrow>
                         (let root1 = root\<lparr>created := cs\<rparr> in
                          if ok then (root_update db2 (fst (rsrc_block_limit_op root1 (astart a) (aend a)
                                        None (Some (remove_callout mem)))), EOK)
                          else (root_update db2 root1, ENOMEM))))))"

section \<open>Queries\<close>

definition query_match :: "int \<Rightarrow> rsrc_block \<Rightarrow> bool" where
  "query_match pid b \<longleftrightarrow> pid = - 2 \<or> bowner b = pid \<or> pid = - 1 \<and> bowner b \<noteq> 0"

fun query_count :: "int \<Rightarrow> rsrc_block list \<Rightarrow> nat" where
  "query_count pid [] = 0"
| "query_count pid (b # bs) = (if query_match pid b then Suc (query_count pid bs) else query_count pid bs)"

text \<open>The copying loop: \<open>i\<close> counts the matching blocks, and those from \<open>start\<close> on go to the array.\<close>

fun query_copy :: "int \<Rightarrow> rsrc_block list \<Rightarrow> nat \<Rightarrow> nat \<Rightarrow> nat \<Rightarrow> rsrc_block list" where
  "query_copy pid [] i start tot = []"
| "query_copy pid (b # bs) i start tot =
     (if \<not> i < start + tot then []
      else if query_match pid b then
        (if i < start then query_copy pid bs (Suc i) start tot
         else b # query_copy pid bs (Suc i) start tot)
      else query_copy pid bs i start tot)"

definition sizeof_rsrc_alloc :: nat where
  "sizeof_rsrc_alloc = 32"

definition FLAG_QUERY_NEXT :: nat where "FLAG_QUERY_NEXT = 1"
definition FLAG_QUERY_COUNT :: nat where "FLAG_QUERY_COUNT = 2"
definition FLAG_QUERY_CREATE :: nat where "FLAG_QUERY_CREATE = 4"

definition query_root :: "rsrc_db \<Rightarrow> string option \<Rightarrow> nat \<Rightarrow> rsrc_root option" where
  "query_root db name flags =
     (case name of
        None \<Rightarrow> (case g_rsrc_root db of [] \<Rightarrow> None | r # _ \<Rightarrow> Some r)
      | Some nm \<Rightarrow>
          (let rs = dropWhile (\<lambda>r. rname r \<noteq> first_component nm) (g_rsrc_root db) in
           case rs of
             [] \<Rightarrow> None
           | r # rest \<Rightarrow> if flag_set flags FLAG_QUERY_NEXT
                         then (case rest of [] \<Rightarrow> None | r' # _ \<Rightarrow> Some r') else Some r))"

text \<open>
  \<open>_rsrcdbmgr_query\<close> without a name buffer: \<open>Inl\<close> the errno of a -1 return, \<open>Inr\<close> the count and
  the blocks copied to the array of \<open>nbytes\<close> bytes.
\<close>

definition rsrcdbmgr_query :: "rsrc_db \<Rightarrow> string option \<Rightarrow> int \<Rightarrow> nat \<Rightarrow> nat \<Rightarrow> bool \<Rightarrow> nat \<Rightarrow> nat + nat \<times> rsrc_block list" where
  "rsrcdbmgr_query db name pid flags start have_array nbytes =
     (case query_root db name flags of
        None \<Rightarrow> Inr (0, [])
      | Some root \<Rightarrow>
          if flag_set flags FLAG_QUERY_CREATE then Inl ENOTSUP
          else (let tot = query_count pid (active root) in
            if flag_set flags FLAG_QUERY_COUNT \<or> tot = 0 then Inr (tot, [])
            else if tot \<le> start \<or> \<not> have_array \<or> nbytes = 0 then Inl EINVAL
            else (let tot = min (tot - start) (nbytes div sizeof_rsrc_alloc)
                  in Inr (tot, query_copy pid (active root) 0 start tot))))"

end
