(* ===== verification/Rsrc_Blocks.thy ===== *)
theory Rsrc_Blocks
  imports Rsrc
begin

text \<open>
  The block lists of the resource database: the points of a list by owner, and what removing,
  adding and giving a range do to them.
\<close>

section \<open>The points of a block list\<close>

definition pts :: "rsrc_block list \<Rightarrow> int \<Rightarrow> nat set" where
  "pts bs ow = (\<Union>b \<in> set (filter (\<lambda>b. bowner b = ow) bs). {bstart b..bend b})"

definition block_ok :: "rsrc_block \<Rightarrow> bool" where
  "block_ok b \<longleftrightarrow> bstart b \<le> bend b \<and> bend b + 1 < 2 ^ 64"

definition blocks_ok :: "rsrc_block list \<Rightarrow> bool" where
  "blocks_ok bs \<longleftrightarrow> sorted_wrt (\<lambda>a b. bend a < bstart b) bs \<and> (\<forall>b \<in> set bs. block_ok b)"

lemma pts_simps [simp]:
  "pts [] ow = {}" "pts (b # bs) ow = (if bowner b = ow then {bstart b..bend b} else {}) \<union> pts bs ow"
  "pts (bs @ bs') ow = pts bs ow \<union> pts bs' ow"
  by (auto simp: pts_def)

lemma blocks_ok_Nil [simp]: "blocks_ok []"
  by (simp add: blocks_ok_def)

lemma blocks_ok_Cons [simp]:
  "blocks_ok (b # bs) \<longleftrightarrow> block_ok b \<and> (\<forall>c \<in> set bs. bend b < bstart c) \<and> blocks_ok bs"
  by (auto simp: blocks_ok_def)

lemma blocks_ok_append [simp]:
  "blocks_ok (bs @ cs) \<longleftrightarrow> blocks_ok bs \<and> blocks_ok cs \<and> (\<forall>b \<in> set bs. \<forall>c \<in> set cs. bend b < bstart c)"
  by (auto simp: blocks_ok_def sorted_wrt_append)

lemma in_pts: "x \<in> pts bs ow \<longleftrightarrow> (\<exists>b \<in> set bs. bowner b = ow \<and> bstart b \<le> x \<and> x \<le> bend b)"
  by (auto simp: pts_def)

lemma OVERLAPE_iff: "s1 \<le> e1 \<Longrightarrow> s2 \<le> e2 \<Longrightarrow> OVERLAPE s1 e1 s2 e2 \<longleftrightarrow> s1 \<le> e2 \<and> s2 \<le> e1"
  by (auto simp: OVERLAPE_def CONTAINSE_def)

section \<open>Removal\<close>

text \<open>The part of a block outside a range, as the removal leaves it.\<close>

definition carve :: "rsrc_block \<Rightarrow> nat \<Rightarrow> nat \<Rightarrow> rsrc_block list" where
  "carve b ns ne = (if bstart b < ns then [b\<lparr>bend := min (bend b) (ns - 1)\<rparr>] else [])
     @ (if ne < bend b then [b\<lparr>bstart := max (bstart b) (ne + 1)\<rparr>] else [])"

lemma remove_loop_Cons:
  assumes "block_ok b" "ns \<le> ne" "ne < 2 ^ 64"
  shows "remove_loop True (b # bs) ns ne pid =
    (if ne < bstart b then (b # bs, EOK)
     else case remove_loop True bs ns ne pid of
       (bs', r) \<Rightarrow> ((if bowner b = pid \<and> ns \<le> bend b then carve b ns ne else [b]) @ bs', r))"
  using assms
  by (auto simp: carve_def OVERLAPE_iff block_ok_def wadd_exact wsub_exact split: prod.splits)

lemma carve_ok:
  assumes "block_ok b" "ns \<le> ne" "ns \<le> bend b" "bstart b \<le> ne"
  shows "blocks_ok (carve b ns ne)" "pts (carve b ns ne) (bowner b) = {bstart b..bend b} - {ns..ne}"
    "ow \<noteq> bowner b \<Longrightarrow> pts (carve b ns ne) ow = {}"
    "\<forall>c \<in> set (carve b ns ne). bstart b \<le> bstart c \<and> bend c \<le> bend b"
  using assms by (auto simp: carve_def block_ok_def)

lemma remove_loop_ok:
  assumes "blocks_ok bs" "ns \<le> ne" "ne < 2 ^ 64" "remove_loop True bs ns ne pid = (bs', r)"
  shows "r = EOK \<and> blocks_ok bs' \<and> pts bs' ow = (if ow = pid then pts bs ow - {ns..ne} else pts bs ow)
    \<and> (\<forall>b' \<in> set bs'. \<exists>b \<in> set bs. bstart b \<le> bstart b')"
  using assms
proof (induction bs arbitrary: bs' r)
  case (Cons b bs)
  obtain cs r1 where rl: "remove_loop True bs ns ne pid = (cs, r1)" by (cases "remove_loop True bs ns ne pid")
  have ok: "block_ok b" "blocks_ok bs" "\<forall>c \<in> set bs. bend b < bstart c" using Cons.prems by auto
  have IH: "r1 = EOK" "blocks_ok cs" "pts cs ow = (if ow = pid then pts bs ow - {ns..ne} else pts bs ow)"
    "\<forall>b' \<in> set cs. \<exists>c \<in> set bs. bstart c \<le> bstart b'"
    using Cons.IH[OF ok(2) Cons.prems(2,3) rl] by auto
  note unf = remove_loop_Cons[OF ok(1) Cons.prems(2,3), of bs pid]
  have later: "\<forall>c \<in> set cs. bend b < bstart c" using IH(4) ok(3) by fastforce
  show ?case
  proof (cases "ne < bstart b")
    case True
    then have "bs' = b # bs" "r = EOK" using Cons.prems(4) unf by auto
    moreover have "x \<notin> {ns..ne}" if x: "x \<in> pts (b # bs) pid" for x
    proof -
      obtain c where "c \<in> set (b # bs)" "bstart c \<le> x" using x by (auto simp only: in_pts)
      then have "bstart b \<le> x" using ok by (auto simp: block_ok_def)
      then show ?thesis using True by simp
    qed
    ultimately show ?thesis using Cons.prems(1) by auto
  next
    case False
    show ?thesis
    proof (cases "bowner b = pid \<and> ns \<le> bend b")
      case True
      have le: "ns \<le> bend b" "bstart b \<le> ne" using True False by auto
      note c = carve_ok[OF ok(1) Cons.prems(2) le]
      have "bs' = carve b ns ne @ cs" "r = EOK" using Cons.prems(4) unf rl False True IH(1) by auto
      moreover have "blocks_ok (carve b ns ne @ cs)" using c(1,4) later IH(2) by fastforce
      moreover have "pts (carve b ns ne @ cs) ow = (if ow = pid then pts (b # bs) ow - {ns..ne} else pts (b # bs) ow)"
        using c(2,3) True IH(3) by auto
      moreover have "\<forall>b' \<in> set (carve b ns ne @ cs). \<exists>c \<in> set (b # bs). bstart c \<le> bstart b'"
        using c(4) IH(4) by auto
      ultimately show ?thesis by blast
    next
      case keep: False
      have "bs' = b # cs" "r = EOK" using Cons.prems(4) unf rl False keep IH(1) by (auto split: if_splits)
      then show ?thesis using keep ok later IH by (auto simp: in_pts)
    qed
  qed
qed simp

section \<open>Adding a free range\<close>

definition owned :: "rsrc_block list \<Rightarrow> nat set" where
  "owned bs = (\<Union>b \<in> set (filter (\<lambda>b. bowner b \<noteq> 0) bs). {bstart b..bend b})"

lemma owned_simps [simp]:
  "owned [] = {}" "owned (b # bs) = (if bowner b \<noteq> 0 then {bstart b..bend b} else {}) \<union> owned bs"
  "owned (bs @ cs) = owned bs \<union> owned cs"
  by (auto simp: owned_def)

lemma owned_above: "\<forall>c \<in> set bs. x < bstart c \<Longrightarrow> y \<in> owned bs \<Longrightarrow> x < y"
  by (auto simp: owned_def)

lemma pts_above: "\<forall>c \<in> set bs. x < bstart c \<Longrightarrow> y \<in> pts bs ow \<Longrightarrow> x < y"
  by (auto simp: in_pts)

text \<open>
  The state of the walk of \<open>rsrc_block_add_range\<close> on a well-formed list, for a free range that
  does not end inside an owned block.
\<close>

definition add_inv :: "walk \<Rightarrow> rsrc_block list \<Rightarrow> nat \<Rightarrow> nat \<Rightarrow> bool" where
  "add_inv w bs ns ne \<longleftrightarrow>
     blocks_ok (wbefore w @ bs) \<and> (\<forall>b \<in> set (wbefore w). bend b < ns) \<and> ns \<le> ne \<and> ne + 1 < 2 ^ 64
     \<and> wbetween w = [] \<and> ne \<notin> owned bs
     \<and> (case wabsorb w of None \<Rightarrow> True
        | Some a \<Rightarrow> bstart a = ns \<and> bend a = ne \<and> bowner a = 0 \<and> (\<forall>b \<in> set bs. ns < bstart b))"

definition add_post :: "rsrc_block list \<Rightarrow> rsrc_block list \<Rightarrow> nat \<Rightarrow> nat \<Rightarrow> rsrc_block list \<Rightarrow> bool" where
  "add_post before bs ns ne res \<longleftrightarrow>
     blocks_ok res \<and> pts res 0 = pts (before @ bs) 0 \<union> ({ns..ne} - owned bs)
     \<and> (\<forall>ow. ow \<noteq> 0 \<longrightarrow> pts res ow = pts (before @ bs) ow)"

lemma near_iff:
  assumes "ns \<le> ne" "ne + 1 < 2 ^ 64" "block_ok b"
  shows "near ns ne b \<longleftrightarrow> ns \<le> bend b + 1 \<and> bstart b \<le> ne + 1"
  using assms by (auto simp: near_def OVERLAPE_iff block_ok_def ULONGLONG_MAX_def)

lemma add_range_end:
  assumes "add_inv w [] ns ne"
  shows "add_post (wbefore w) [] ns ne (walk_end True w [] ns ne 0 0)"
  using assms
  by (auto simp: add_inv_def add_post_def walk_end_def walk_list_def rsrc_insert_block_def block_ok_def
      split: option.splits)

lemma add_range_gap:
  assumes "add_inv w (b # bs) ns ne" "ne + 1 < bstart b"
    and w1: "w1 = (if wabsorb w = None then w\<lparr>wabsorb := rsrc_insert_block True ns ne 0 0\<rparr> else w)"
  shows "add_post (wbefore w) (b # bs) ns ne (walk_end True (walk_pass w1 b) bs (ne + 1) ne 0 0)"
proof -
  obtain a where a: "wabsorb w1 = Some a" "bstart a = ns" "bend a = ne" "bowner a = 0" "wbetween w1 = []"
      "wbefore w1 = wbefore w"
    using assms by (cases "wabsorb w") (auto simp: add_inv_def rsrc_insert_block_def)
  have res: "walk_end True (walk_pass w1 b) bs (ne + 1) ne 0 0 = wbefore w @ a # b # bs"
    using a by (auto simp: walk_end_def walk_pass_def walk_list_def)
  have above: "\<forall>c \<in> set (b # bs). ne < bstart c"
    using assms(1,2) by (auto simp: add_inv_def block_ok_def)
  have "{ns..ne} - owned (b # bs) = {ns..ne}" using owned_above[OF above] by force
  then show ?thesis
    using assms(1) a above unfolding res add_post_def by (auto simp: add_inv_def block_ok_def)
qed

lemma add_range_last:
  assumes "add_inv w (b # bs) ns ne" "bowner b \<noteq> 0" "ns < bstart b" "bstart b \<le> ne + 1" "ne \<le> bend b"
    and w1: "w1 = (case wabsorb w of Some a \<Rightarrow> w\<lparr>wabsorb := Some (a\<lparr>bend := bstart b - 1\<rparr>)\<rparr>
                   | None \<Rightarrow> w\<lparr>wabsorb := rsrc_insert_block True ns (bstart b - 1) 0 0\<rparr>)"
  shows "add_post (wbefore w) (b # bs) ns ne (walk_end True (walk_pass w1 b) bs ns ne 0 0)"
proof -
  have eq: "bstart b = ne + 1" using assms by (auto simp: add_inv_def block_ok_def)
  obtain a where a: "wabsorb w1 = Some a" "bstart a = ns" "bend a = ne" "bowner a = 0" "wbetween w1 = []"
      "wbefore w1 = wbefore w"
    using assms eq by (cases "wabsorb w") (auto simp: add_inv_def rsrc_insert_block_def)
  have res: "walk_end True (walk_pass w1 b) bs ns ne 0 0 = wbefore w @ a # b # bs"
    using a by (auto simp: walk_end_def walk_pass_def walk_list_def)
  have above: "\<forall>c \<in> set (b # bs). ne < bstart c"
    using assms(1) eq by (auto simp: add_inv_def block_ok_def)
  have "{ns..ne} - owned (b # bs) = {ns..ne}" using owned_above[OF above] by force
  then show ?thesis
    using assms(1) a above unfolding res add_post_def by (auto simp: add_inv_def block_ok_def)
qed

lemma add_range_over:
  assumes inv: "add_inv w (b # bs) ns ne" and own: "bowner b \<noteq> 0" and near: "ns \<le> bend b + 1" "bend b < ne"
    and w1: "w1 = (if ns < bstart b
                   then (case wabsorb w of Some a \<Rightarrow> w\<lparr>wabsorb := Some (a\<lparr>bend := bstart b - 1\<rparr>)\<rparr>
                   | None \<Rightarrow> w\<lparr>wabsorb := rsrc_insert_block True ns (bstart b - 1) 0 0\<rparr>) else w)"
    and w2: "w2 = \<lparr>wbefore = walk_list (walk_pass w1 b), wabsorb = None, wbetween = []\<rparr>"
  shows "add_inv w2 bs (bend b + 1) ne"
    "add_post (wbefore w2) bs (bend b + 1) ne res \<Longrightarrow> add_post (wbefore w) (b # bs) ns ne res"
proof -
  have ok: "block_ok b" "blocks_ok bs" "\<forall>c \<in> set bs. bend b < bstart c" using inv by (auto simp: add_inv_def)
  have disj: "x \<notin> owned bs" if "x \<le> bend b" for x using owned_above[OF ok(3)] that by fastforce
  have "add_inv w2 bs (bend b + 1) ne
    \<and> (add_post (wbefore w2) bs (bend b + 1) ne res \<longrightarrow> add_post (wbefore w) (b # bs) ns ne res)"
  proof (cases "ns < bstart b")
    case True
    then obtain a where a: "wabsorb w1 = Some a" "bstart a = ns" "bend a = bstart b - 1" "bowner a = 0" "wbetween w1 = []"
        "wbefore w1 = wbefore w"
      using inv w1 by (cases "wabsorb w") (auto simp: add_inv_def rsrc_insert_block_def)
    have wb: "wbefore w2 = wbefore w @ [a, b]" using a by (simp add: w2 walk_list_def walk_pass_def)
    have "add_inv w2 bs (bend b + 1) ne"
      using inv wb a True near ok by (auto simp: add_inv_def w2 block_ok_def)
    moreover have "{ns..ne} - owned (b # bs) = {ns..bstart b - 1} \<union> ({bend b + 1..ne} - owned bs)"
      using disj own True near ok(1) by (auto simp: block_ok_def)
    ultimately show ?thesis using wb own a by (auto simp: add_post_def)
  next
    case False
    then have no: "wabsorb w = None" "w1 = w" using inv w1 by (auto simp: add_inv_def split: option.splits)
    have wb: "wbefore w2 = wbefore w @ [b]" using no inv by (simp add: w2 walk_list_def walk_pass_def add_inv_def)
    have "add_inv w2 bs (bend b + 1) ne"
      using inv wb False near ok by (auto simp: add_inv_def w2 block_ok_def)
    moreover have "{ns..ne} - owned (b # bs) = {bend b + 1..ne} - owned bs"
      using disj own False near ok(1) by (auto simp: block_ok_def)
    ultimately show ?thesis using wb own by (auto simp: add_post_def)
  qed
  then show "add_inv w2 bs (bend b + 1) ne"
    "add_post (wbefore w2) bs (bend b + 1) ne res \<Longrightarrow> add_post (wbefore w) (b # bs) ns ne res" by auto
qed

lemma add_range_join:
  assumes inv: "add_inv w (b # bs) ns ne" and own: "bowner b = 0"
    and near: "ns \<le> bend b + 1" "bstart b \<le> ne + 1"
    and w1: "w1 = walk_absorb w b (min ns (bstart b)) (max ne (bend b))"
  shows "add_inv w1 bs (min ns (bstart b)) (max ne (bend b))"
    "add_post (wbefore w1) bs (min ns (bstart b)) (max ne (bend b)) res \<Longrightarrow> add_post (wbefore w) (b # bs) ns ne res"
proof -
  have ok: "block_ok b" "blocks_ok bs" "\<forall>c \<in> set bs. bend b < bstart c" using inv by (auto simp: add_inv_def)
  have disj: "x \<notin> owned bs" if "x \<le> bend b" for x using owned_above[OF ok(3)] that by fastforce
  have "max ne (bend b) \<notin> owned bs" using inv disj by (auto simp: add_inv_def max_def)
  moreover have "\<forall>c \<in> set bs. min ns (bstart b) < bstart c" using ok by (auto simp: block_ok_def)
  ultimately show "add_inv w1 bs (min ns (bstart b)) (max ne (bend b))"
    using inv own ok by (cases "wabsorb w") (auto simp: add_inv_def w1 walk_absorb_def block_ok_def)
  have wb: "wbefore w1 = wbefore w" by (simp add: w1 walk_absorb_def split: option.split)
  have un: "{min ns (bstart b)..max ne (bend b)} = {ns..ne} \<union> {bstart b..bend b}"
    using inv ok(1) near by (auto simp: add_inv_def block_ok_def)
  have "{min ns (bstart b)..max ne (bend b)} - owned bs = ({ns..ne} - owned (b # bs)) \<union> {bstart b..bend b}"
    using disj own unfolding un by auto
  then show "add_post (wbefore w) (b # bs) ns ne res"
    if "add_post (wbefore w1) bs (min ns (bstart b)) (max ne (bend b)) res"
    using that wb own by (auto simp: add_post_def)
qed

lemma add_range_skip:
  assumes inv: "add_inv w (b # bs) ns ne" and far: "bend b + 1 < ns"
  shows "add_inv (walk_pass w b) bs ns ne"
    "add_post (wbefore (walk_pass w b)) bs ns ne res \<Longrightarrow> add_post (wbefore w) (b # bs) ns ne res"
proof -
  have no: "wabsorb w = None" using inv far by (auto simp: add_inv_def block_ok_def split: option.splits)
  then have wp: "walk_pass w b = w\<lparr>wbefore := wbefore w @ [b]\<rparr>" by (simp add: walk_pass_def)
  show "add_inv (walk_pass w b) bs ns ne" using inv far no unfolding wp by (auto simp: add_inv_def)
  show "add_post (wbefore w) (b # bs) ns ne res" if "add_post (wbefore (walk_pass w b)) bs ns ne res"
    using that far unfolding wp by (auto simp: add_post_def)
qed

lemma add_loop_ok:
  "add_inv w bs ns ne \<Longrightarrow> add_post (wbefore w) bs ns ne (add_loop True w bs ns ne 0 0)"
proof (induction bs arbitrary: w ns ne)
  case Nil
  then show ?case by (simp add: add_range_end)
next
  case (Cons b bs)
  have ok: "block_ok b" "ns \<le> ne" "ne + 1 < 2 ^ 64" "ne \<notin> owned (b # bs)" using Cons.prems by (auto simp: add_inv_def)
  have wr: "wadd (bend b) 1 = bend b + 1" "wadd ne 1 = ne + 1" "ns < bstart b \<Longrightarrow> wsub (bstart b) 1 = bstart b - 1"
    using ok by (auto simp: wadd_exact wsub_exact block_ok_def)
  consider (skip) "bend b + 1 < ns" | (gap) "\<not> bend b + 1 < ns" "ne + 1 < bstart b"
    | (near) "ns \<le> bend b + 1" "bstart b \<le> ne + 1" by linarith
  then show ?case
  proof cases
    case skip
    then show ?thesis using add_range_skip[OF Cons.prems skip] Cons.IH ok(2) wr by simp
  next
    case gap
    then show ?thesis using add_range_gap[OF Cons.prems gap(2) refl] ok(2) wr by simp
  next
    case near
    have nr: "near ns ne b" using near ok by (simp add: near_iff)
    note st = near ok(2) wr nr
    show ?thesis
    proof (cases "bowner b = 0")
      case True
      then show ?thesis using add_range_join[OF Cons.prems True near refl] Cons.IH st by (simp add: not_less)
    next
      case own: False
      show ?thesis
      proof (cases "ne \<le> bend b")
        case True
        then have lt: "ns < bstart b" using ok own by auto
        show ?thesis using add_range_last[OF Cons.prems own lt near(2) True refl] st own True lt by (simp add: not_less cong: option.case_cong)
      next
        case False
        then have lt: "bend b < ne" by simp
        note ov = add_range_over[OF Cons.prems own near(1) lt refl refl]
        show ?thesis using ov(2)[OF Cons.IH[OF ov(1)]] st own False by (simp add: not_less cong: if_cong option.case_cong)
      qed
    qed
  qed
qed

section \<open>Giving a range to a process\<close>

definition give_inv :: "walk \<Rightarrow> rsrc_block list \<Rightarrow> nat \<Rightarrow> nat \<Rightarrow> int \<Rightarrow> bool" where
  "give_inv w bs ns ne pid \<longleftrightarrow>
     ns \<le> ne \<and> ne + 1 < 2 ^ 64 \<and> (\<forall>b \<in> set (wbefore w). bend b < ns)
     \<and> (case wabsorb w of
          None \<Rightarrow> wbetween w = [] \<and> blocks_ok (wbefore w @ bs) \<and> (\<forall>b \<in> set bs. bend b < ns \<or> ne < bstart b)
        | Some a \<Rightarrow> bstart a = ns \<and> bend a = ne \<and> bowner a = pid \<and> blocks_ok (wbefore w @ a # wbetween w @ bs)
            \<and> (wbetween w \<noteq> [] \<longrightarrow> (\<forall>b \<in> set bs. ne + 1 < bstart b)))"

definition give_post :: "walk \<Rightarrow> rsrc_block list \<Rightarrow> nat \<Rightarrow> nat \<Rightarrow> int \<Rightarrow> rsrc_block list \<Rightarrow> bool" where
  "give_post w bs ns ne pid res \<longleftrightarrow>
     blocks_ok res
     \<and> (\<forall>ow. pts res ow = pts (wbefore w @ wbetween w @ bs) ow \<union> (if ow = pid then {ns..ne} else {}))"

lemma give_end:
  assumes "give_inv w [] ns ne pid"
  shows "give_post w [] ns ne pid (walk_end True w [] ns ne pid flags)"
  using assms
  by (auto simp: give_inv_def give_post_def walk_end_def walk_list_def rsrc_insert_block_def block_ok_def
      split: option.splits)

lemma give_insert:
  assumes "give_inv w (b # bs) ns ne pid" "wabsorb w = None" "ns < bstart b"
  shows "give_inv (w\<lparr>wabsorb := rsrc_insert_block True ns ne pid flags\<rparr>) (b # bs) ns ne pid"
proof -
  have "block_ok b" "\<forall>c \<in> set bs. bend b < bstart c" "bend b < ns \<or> ne < bstart b"
    using assms by (auto simp: give_inv_def)
  then have "\<forall>c \<in> set (b # bs). ne < bstart c" using assms(3) by (auto simp: block_ok_def)
  then show ?thesis using assms by (auto simp: give_inv_def rsrc_insert_block_def block_ok_def)
qed

lemma give_pass:
  assumes inv: "give_inv w (b # bs) ns ne pid" and st: "wabsorb w = None \<longrightarrow> bend b < ns"
  shows "give_inv (walk_pass w b) bs ns ne pid"
    "give_post (walk_pass w b) bs ns ne pid res \<Longrightarrow> give_post w (b # bs) ns ne pid res"
proof -
  show "give_inv (walk_pass w b) bs ns ne pid"
    using inv st by (cases "wabsorb w") (auto simp: give_inv_def walk_pass_def block_ok_def)
  show "give_post w (b # bs) ns ne pid res" if "give_post (walk_pass w b) bs ns ne pid res"
    using that inv by (cases "wabsorb w") (auto simp: give_inv_def give_post_def walk_pass_def)
qed

lemma give_join:
  assumes inv: "give_inv w (b # bs) ns ne pid" and own: "bowner b = pid"
    and near: "ns \<le> bend b + 1" "bstart b \<le> ne + 1" and st: "wabsorb w = None \<longrightarrow> bend b < ns"
    and w1: "w1 = walk_absorb w b (min ns (bstart b)) (max ne (bend b))"
  shows "give_inv w1 bs (min ns (bstart b)) (max ne (bend b)) pid"
    "give_post w1 bs (min ns (bstart b)) (max ne (bend b)) pid res \<Longrightarrow> give_post w (b # bs) ns ne pid res"
proof -
  have "give_inv w1 bs (min ns (bstart b)) (max ne (bend b)) pid
    \<and> (give_post w1 bs (min ns (bstart b)) (max ne (bend b)) pid res \<longrightarrow> give_post w (b # bs) ns ne pid res)"
  proof (cases "wabsorb w")
    case None
    then have "\<forall>c \<in> set bs. bstart c \<le> bend c \<and> bend b < bstart c \<and> (bend c < ns \<or> ne < bstart c)"
      using inv by (auto simp: give_inv_def blocks_ok_def block_ok_def sorted_wrt_append)
    moreover have "block_ok b" "bend b + 1 = ns" "wbetween w = []"
      using inv near st None by (auto simp: give_inv_def)
    ultimately have b: "block_ok b" "bend b + 1 = ns" "\<forall>c \<in> set bs. ne < bstart c" "wbetween w = []"
      by fastforce+
    then have mm: "min ns (bstart b) = bstart b" "max ne (bend b) = ne"
      using inv by (auto simp: give_inv_def block_ok_def)
    have un: "{bstart b..ne} = {ns..ne} \<union> {bstart b..bend b}"
      using inv b by (auto simp: give_inv_def block_ok_def)
    have "give_inv w1 bs (bstart b) ne pid"
      using inv b own None unfolding w1 mm walk_absorb_def by (auto simp: give_inv_def block_ok_def)
    moreover have "give_post w1 bs (bstart b) ne pid res \<longrightarrow> give_post w (b # bs) ns ne pid res"
      using b(4) own None unfolding w1 mm walk_absorb_def by (auto simp: give_post_def un)
    ultimately show ?thesis unfolding mm by simp
  next
    case (Some a)
    then have b: "block_ok b" "bstart b = ne + 1" "\<forall>c \<in> set bs. bend b < bstart c" "wbetween w = []"
      using inv near by (auto simp: give_inv_def Suc_le_eq[symmetric])
    then have mm: "min ns (bstart b) = ns" "max ne (bend b) = bend b"
      using inv by (auto simp: give_inv_def block_ok_def)
    have un: "{ns..bend b} = {ns..ne} \<union> {bstart b..bend b}"
      using inv b by (auto simp: give_inv_def block_ok_def)
    have "give_inv w1 bs ns (bend b) pid"
      using inv b Some unfolding w1 mm walk_absorb_def by (auto simp: give_inv_def block_ok_def)
    moreover have "give_post w1 bs ns (bend b) pid res \<longrightarrow> give_post w (b # bs) ns ne pid res"
      using b(4) own Some unfolding w1 mm walk_absorb_def by (auto simp: give_post_def un)
    ultimately show ?thesis unfolding mm by simp
  qed
  then show "give_inv w1 bs (min ns (bstart b)) (max ne (bend b)) pid"
    "give_post w1 bs (min ns (bstart b)) (max ne (bend b)) pid res \<Longrightarrow> give_post w (b # bs) ns ne pid res"
    by auto
qed

lemma add_pid_loop_ok:
  "give_inv w bs ns ne pid \<Longrightarrow> give_post w bs ns ne pid (add_pid_loop True w bs ns ne pid flags)"
proof (induction bs arbitrary: w ns ne)
  case Nil
  then show ?case by (simp add: give_end)
next
  case (Cons b bs)
  have ok: "block_ok b" "ns \<le> ne" "ne + 1 < 2 ^ 64" using Cons.prems by (auto simp: give_inv_def split: option.splits)
  have wr: "wadd (bend b) 1 = bend b + 1" using ok by (auto simp: wadd_exact block_ok_def)
  show ?case
  proof (cases "ns \<le> bend b + 1")
    case False
    then have "wabsorb w = None \<longrightarrow> bend b < ns" by simp
    from give_pass[OF Cons.prems this] Cons.IH False wr show ?thesis by simp
  next
    case True
    define w1 where "w1 = (if wabsorb w = None \<and> ns < bstart b
                   then w\<lparr>wabsorb := rsrc_insert_block True ns ne pid flags\<rparr> else w)"
    have inv: "give_inv w1 (b # bs) ns ne pid" using give_insert[OF Cons.prems] Cons.prems by (simp add: w1_def)
    have st: "wabsorb w1 = None \<longrightarrow> bend b < ns"
      using Cons.prems ok by (auto simp: w1_def give_inv_def rsrc_insert_block_def block_ok_def split: if_splits)
    have same: "give_post w1 (b # bs) ns ne pid res \<Longrightarrow> give_post w (b # bs) ns ne pid res" for res
      by (simp add: w1_def give_post_def split: if_splits)
    have unf: "add_pid_loop True w (b # bs) ns ne pid flags =
        (if JOIN_COMPATIBLE b pid flags \<and> near ns ne b
         then add_pid_loop True (walk_absorb w1 b (min ns (bstart b)) (max ne (bend b))) bs
                (min ns (bstart b)) (max ne (bend b)) pid flags
         else add_pid_loop True (walk_pass w1 b) bs ns ne pid flags)"
      using True wr by (simp only: add_pid_loop.simps w1_def Let_def if_True)
    show ?thesis
    proof (cases "JOIN_COMPATIBLE b pid flags \<and> near ns ne b")
      case j: True
      then have own: "bowner b = pid" and nr: "bstart b \<le> ne + 1" using ok by (auto simp: JOIN_COMPATIBLE_def near_iff)
      note gj = give_join[OF inv own True nr st refl]
      show ?thesis using same[OF gj(2)[OF Cons.IH[OF gj(1)]]] unfolding unf using j by simp
    next
      case False
      note gp = give_pass[OF inv st]
      show ?thesis using same[OF gp(2)[OF Cons.IH[OF gp(1)]]] unfolding unf using False by (simp only: if_False)
    qed
  qed
qed

end
