(* ===== verification/Range_Spec.thy ===== *)
theory Range_Spec
  imports Prelude
begin

text \<open>
  The contract of a book of ranges: which numbers are covered, who holds each of them, and what
  grabbing and releasing a range change.
\<close>

section \<open>The interface of a book of ranges\<close>

locale range_book =
  fixes inv :: "'r \<Rightarrow> bool"
    and covered :: "'r \<Rightarrow> nat set"
    and held :: "'r \<Rightarrow> nat \<Rightarrow> int option"
    and grab :: "'r \<Rightarrow> int \<Rightarrow> nat \<Rightarrow> nat \<Rightarrow> 'r"
    and release :: "'r \<Rightarrow> int \<Rightarrow> nat \<Rightarrow> nat \<Rightarrow> 'r"
  assumes grab_law: "inv r \<Longrightarrow> s \<le> e \<Longrightarrow> e + 1 < 2 ^ 64 \<Longrightarrow> \<forall>x \<in> {s..e}. held r x = Some 0 \<Longrightarrow>
      inv (grab r pid s e) \<and> covered (grab r pid s e) = covered r
      \<and> held (grab r pid s e) = (\<lambda>x. if x \<in> {s..e} then Some pid else held r x)"
    and release_law: "inv r \<Longrightarrow> s \<le> e \<Longrightarrow> e + 1 < 2 ^ 64 \<Longrightarrow> \<forall>x \<in> {s..e}. held r x = Some pid \<Longrightarrow>
      inv (release r pid s e) \<and> covered (release r pid s e) = covered r
      \<and> held (release r pid s e)
          = (\<lambda>x. if x \<in> {s..e} then if x \<in> covered r then Some 0 else None else held r x)"
begin

definition balanced :: "'r \<Rightarrow> bool" where
  "balanced r \<longleftrightarrow> inv r \<and> (\<forall>x. x \<in> covered r \<longleftrightarrow> held r x \<noteq> None)"

lemma grab_balanced:
  assumes "balanced r" "s \<le> e" "e + 1 < 2 ^ 64" "\<forall>x \<in> {s..e}. held r x = Some 0"
  shows "balanced (grab r pid s e)"
  using grab_law[OF _ assms(2-4), of pid] assms(1,4) by (auto simp: balanced_def)

lemma release_balanced:
  assumes "balanced r" "s \<le> e" "e + 1 < 2 ^ 64" "\<forall>x \<in> {s..e}. held r x = Some pid"
  shows "balanced (release r pid s e)"
  using release_law[OF _ assms(2-4)] assms(1,4) by (auto simp: balanced_def)

text \<open>What was grabbed can be given back, and then the book is as before.\<close>

lemma grab_release:
  assumes "balanced r" "s \<le> e" "e + 1 < 2 ^ 64" "\<forall>x \<in> {s..e}. held r x = Some 0"
  shows "balanced (release (grab r pid s e) pid s e)"
    "covered (release (grab r pid s e) pid s e) = covered r" "held (release (grab r pid s e) pid s e) = held r"
proof -
  have inv: "inv r" using assms(1) by (simp add: balanced_def)
  note g = grab_law[OF inv assms(2-4), of pid]
  then have h: "\<forall>x \<in> {s..e}. held (grab r pid s e) x = Some pid" by simp
  note rl = release_law[OF conjunct1[OF g] assms(2,3) h]
  show "balanced (release (grab r pid s e) pid s e)"
    by (rule release_balanced[OF grab_balanced[OF assms] assms(2,3) h])
  show "covered (release (grab r pid s e) pid s e) = covered r" using g rl by simp
  show "held (release (grab r pid s e) pid s e) = held r"
    using g rl assms(1,4) by (auto simp: balanced_def fun_eq_iff)
qed

text \<open>No range that is still held is grabbed a second time.\<close>

lemma grab_disjoint:
  assumes "inv r" "s \<le> e" "e + 1 < 2 ^ 64" "\<forall>x \<in> {s..e}. held r x = Some 0" "pid \<noteq> 0"
    and "\<forall>x \<in> {s'..e'}. held (grab r pid s e) x = Some 0"
  shows "{s..e} \<inter> {s'..e'} = {}"
  using grab_law[OF assms(1-4), of pid] assms(5,6) by fastforce

end

end
