(* ===== verification/Rsrc_Ranges.thy ===== *)
theory Rsrc_Ranges
  imports Rsrc_Blocks Range_Spec
begin

text \<open>
  Limiting a range to the created ranges, and the operations on one root: create, destroy,
  attach and detach, seen as changes of who holds a point.
\<close>

section \<open>Limiting a range to what was created\<close>

definition cov :: "rsrc_create list \<Rightarrow> nat set" where
  "cov cs = (\<Union>c \<in> set cs. {cstart c..cend c})"

definition creates_ok :: "rsrc_create list \<Rightarrow> bool" where
  "creates_ok cs \<longleftrightarrow> sorted_wrt (\<lambda>c d. cstart c \<le> cstart d) cs \<and> (\<forall>c \<in> set cs. cstart c \<le> cend c \<and> cend c + 1 < 2 ^ 64)"

lemma cov_simps [simp]:
  "cov [] = {}" "cov (c # cs) = {cstart c..cend c} \<union> cov cs" "cov (cs @ ds) = cov cs \<union> cov ds"
  by (auto simp: cov_def)

lemma creates_ok_Nil [simp]: "creates_ok []"
  by (simp add: creates_ok_def)

lemma creates_ok_Cons [simp]:
  "creates_ok (c # cs) \<longleftrightarrow>
     cstart c \<le> cend c \<and> cend c + 1 < 2 ^ 64 \<and> (\<forall>d \<in> set cs. cstart c \<le> cstart d) \<and> creates_ok cs"
  by (auto simp: creates_ok_def)

lemma cov_above: "\<forall>d \<in> set cs. s \<le> cstart d \<Longrightarrow> x \<in> cov cs \<Longrightarrow> s \<le> x"
  by (auto simp: cov_def)

definition over_pts :: "piece list \<Rightarrow> nat set" where
  "over_pts ps = (\<Union>p \<in> set ps. case p of Over s e \<Rightarrow> {s..e} | Non _ _ \<Rightarrow> {})"

definition non_pts :: "piece list \<Rightarrow> nat set" where
  "non_pts ps = (\<Union>p \<in> set ps. case p of Over _ _ \<Rightarrow> {} | Non s e \<Rightarrow> {s..e})"

definition piece_in :: "nat \<Rightarrow> piece \<Rightarrow> bool" where
  "piece_in pe p = (case p of Over s e \<Rightarrow> s \<le> e \<and> e \<le> pe | Non s e \<Rightarrow> s \<le> e \<and> e \<le> pe)"

lemma piece_pts_simps [simp]:
  "over_pts [] = {}" "over_pts (Over s e # ps) = {s..e} \<union> over_pts ps" "over_pts (Non s e # ps) = over_pts ps"
  "over_pts (ps @ qs) = over_pts ps \<union> over_pts qs"
  "non_pts [] = {}" "non_pts (Over s e # ps) = non_pts ps" "non_pts (Non s e # ps) = {s..e} \<union> non_pts ps"
  "non_pts (ps @ qs) = non_pts ps \<union> non_pts qs"
  "piece_in pe (Over s e) = (s \<le> e \<and> e \<le> pe)" "piece_in pe (Non s e) = (s \<le> e \<and> e \<le> pe)"
  by (auto simp: over_pts_def non_pts_def piece_in_def)

text \<open>A pending overlap ends just before the point where the unpurged rest begins.\<close>

definition limit_ok :: "limit \<Rightarrow> nat \<Rightarrow> bool" where
  "limit_ok l pe \<longleftrightarrow> (case loverlap l of None \<Rightarrow> True
     | Some (s, e) \<Rightarrow> s \<le> e \<and> e = min pe (lpurge l - 1) \<and> 0 < lpurge l)"

definition pending :: "limit \<Rightarrow> nat set" where
  "pending l = (case loverlap l of None \<Rightarrow> {} | Some (s, e) \<Rightarrow> {s..e})"

lemma limit_step_ok:
  assumes l: "limit_ok l pe" "lpurge l \<le> pe" and c: "cstart c \<le> cend c" "cend c + 1 < 2 ^ 64"
    and ov: "OVERLAPE (cstart c) (cend c) (lpurge l) pe" and st: "limit_step l c pe = (out, l1)"
  shows "limit_ok l1 pe" "lpurge l1 = cend c + 1" "\<forall>p \<in> set out. piece_in pe p"
    "over_pts out \<union> pending l1 = pending l \<union> ({lpurge l..pe} \<inter> {cstart c..cend c})"
    "non_pts out = {x. lpurge l \<le> x \<and> x < cstart c}"
proof -
  have o: "cstart c \<le> pe" "lpurge l \<le> cend c" using ov l c by (auto simp: OVERLAPE_iff)
  have "limit_ok l1 pe \<and> lpurge l1 = cend c + 1 \<and> (\<forall>p \<in> set out. piece_in pe p)
    \<and> over_pts out \<union> pending l1 = pending l \<union> ({lpurge l..pe} \<inter> {cstart c..cend c})
    \<and> non_pts out = {x. lpurge l \<le> x \<and> x < cstart c}"
  proof (cases "loverlap l")
    case None
    then show ?thesis using st o l c
      by (auto simp: limit_step_def limit_ok_def pending_def after_end_def ULONGLONG_MAX_def split: if_splits)
  next
    case (Some se)
    obtain s e where se: "se = (s, e)" by (cases se)
    have e: "s \<le> e" "e + 1 = lpurge l" using l Some se by (auto simp: limit_ok_def)
    show ?thesis
    proof (cases "OVERLAPE (cstart c) (cend c) s e")
      case True
      then have "cstart c \<le> e" using c e by (auto simp: OVERLAPE_iff)
      then show ?thesis using st o l c e True Some se
        by (auto simp: limit_step_def limit_ok_def pending_def after_end_def ULONGLONG_MAX_def split: if_splits)
    next
      case False
      then have "e < cstart c" using c e o by (auto simp: OVERLAPE_iff)
      then show ?thesis using st o l c e False Some se
        by (auto simp: limit_step_def limit_ok_def pending_def after_end_def ULONGLONG_MAX_def split: if_splits) linarith+
    qed
  qed
  then show "limit_ok l1 pe" "lpurge l1 = cend c + 1" "\<forall>p \<in> set out. piece_in pe p"
    "over_pts out \<union> pending l1 = pending l \<union> ({lpurge l..pe} \<inter> {cstart c..cend c})"
    "non_pts out = {x. lpurge l \<le> x \<and> x < cstart c}" by auto
qed

lemma limit_loop_ok:
  assumes "limit_ok l pe" "creates_ok cs"
  shows "over_pts (limit_loop cs l pe) = pending l \<union> ({lpurge l..pe} \<inter> cov cs)
    \<and> non_pts (limit_loop cs l pe) = {lpurge l..pe} - cov cs
    \<and> (\<forall>p \<in> set (limit_loop cs l pe). piece_in pe p)"
  using assms
proof (induction cs arbitrary: l)
  case Nil
  then show ?case by (auto simp: limit_ok_def pending_def split: option.splits)
next
  case (Cons c cs)
  show ?case
  proof (cases "lpurge l \<le> pe")
    case False
    then show ?thesis using Cons.prems by (auto simp: limit_ok_def pending_def split: option.splits)
  next
    case le: True
    show ?thesis
    proof (cases "OVERLAPE (cstart c) (cend c) (lpurge l) pe")
      case False
      then have "{lpurge l..pe} \<inter> {cstart c..cend c} = {}" using le Cons.prems by (auto simp: OVERLAPE_iff)
      then show ?thesis using Cons.IH[OF Cons.prems(1)] Cons.prems(2) False le by auto
    next
      case ov: True
      obtain out l1 where st: "limit_step l c pe = (out, l1)" by (cases "limit_step l c pe")
      have c: "cstart c \<le> cend c" "cend c + 1 < 2 ^ 64" using Cons.prems by auto
      note stp = limit_step_ok[OF Cons.prems(1) le c ov st]
      have eq: "limit_loop (c # cs) l pe = out @ limit_loop cs l1 pe" using le ov st by simp
      note IH = Cons.IH[OF stp(1), unfolded stp(2)]
      have o: "cstart c \<le> pe" "lpurge l \<le> cend c" using ov le c by (auto simp: OVERLAPE_iff)
      have above: "x \<in> cov cs \<Longrightarrow> cstart c \<le> x" for x using cov_above[of cs "cstart c"] Cons.prems by auto
      have "over_pts out \<union> (pending l1 \<union> ({cend c + 1..pe} \<inter> cov cs))
          = pending l \<union> ({lpurge l..pe} \<inter> cov (c # cs))"
        unfolding Un_assoc[symmetric] stp(4) using above o by fastforce
      moreover have "non_pts out \<union> ({cend c + 1..pe} - cov cs) = {lpurge l..pe} - cov (c # cs)"
        unfolding stp(5) using above o by fastforce
      ultimately show ?thesis using IH Cons.prems(2) stp(3) unfolding eq by auto
    qed
  qed
qed

lemma limit_pieces_ok:
  assumes "creates_ok cs"
  shows "over_pts (limit_pieces cs s e) = {s..e} \<inter> cov cs" "non_pts (limit_pieces cs s e) = {s..e} - cov cs"
    "\<forall>p \<in> set (limit_pieces cs s e). piece_in e p"
  using limit_loop_ok[OF _ assms, of "\<lparr>loverlap = None, lpurge = s\<rparr>" e]
  by (simp_all add: limit_pieces_def limit_ok_def pending_def)

section \<open>Who holds a point\<close>

definition holder :: "rsrc_block list \<Rightarrow> nat \<Rightarrow> int option" where
  "holder bs x = map_option bowner (find (\<lambda>b. bstart b \<le> x \<and> x \<le> bend b) bs)"

lemma holder_iff:
  assumes "blocks_ok bs"
  shows "holder bs x = Some ow \<longleftrightarrow> x \<in> pts bs ow"
  using assms
proof (induction bs)
  case (Cons b bs)
  have "x \<notin> pts bs ow" if "bstart b \<le> x" "x \<le> bend b"
    using pts_above[of bs "bend b" x ow] Cons.prems that by auto
  then show ?case using Cons by (auto simp: holder_def)
qed (simp add: holder_def)

lemma holder_eqI:
  assumes "blocks_ok bs" "\<And>x ow. x \<in> pts bs ow \<longleftrightarrow> f x = Some ow"
  shows "holder bs = f"
proof
  fix x
  have "\<forall>ow. holder bs x = Some ow \<longleftrightarrow> f x = Some ow" using assms holder_iff by simp
  then show "holder bs x = f x" by (metis not_None_eq)
qed

lemma owned_iff: "blocks_ok bs \<Longrightarrow> x \<in> owned bs \<longleftrightarrow> (\<exists>ow. ow \<noteq> 0 \<and> holder bs x = Some ow)"
  by (auto simp: holder_iff owned_def in_pts)

definition start_walk :: walk where
  "start_walk = \<lparr>wbefore = [], wabsorb = None, wbetween = []\<rparr>"

lemma add_holder:
  assumes ok: "blocks_ok bs" and r: "ns \<le> ne" "ne + 1 < 2 ^ 64" and e: "holder bs ne \<in> {None, Some 0}"
    and res: "res = add_loop True start_walk bs ns ne 0 0"
  shows "blocks_ok res" "holder res = (\<lambda>x. if x \<in> {ns..ne} \<and> holder bs x = None then Some 0 else holder bs x)"
proof -
  have "add_inv start_walk bs ns ne" using ok r e by (auto simp: add_inv_def start_walk_def owned_iff)
  from add_loop_ok[OF this] have p: "add_post [] bs ns ne res" by (simp add: res start_walk_def)
  then show okr: "blocks_ok res" by (simp add: add_post_def)
  show "holder res = (\<lambda>x. if x \<in> {ns..ne} \<and> holder bs x = None then Some 0 else holder bs x)"
  proof (rule holder_eqI[OF okr])
    fix x ow
    show "x \<in> pts res ow \<longleftrightarrow> (if x \<in> {ns..ne} \<and> holder bs x = None then Some 0 else holder bs x) = Some ow"
      using p ok by (cases "ow = 0") (auto simp: add_post_def owned_iff holder_iff[symmetric])
  qed
qed

lemma give_holder:
  assumes ok: "blocks_ok bs" and r: "ns \<le> ne" "ne + 1 < 2 ^ 64" and e: "\<forall>x \<in> {ns..ne}. holder bs x = None"
    and res: "res = add_pid_loop True start_walk bs ns ne pid flags"
  shows "blocks_ok res" "holder res = (\<lambda>x. if x \<in> {ns..ne} then Some pid else holder bs x)"
proof -
  have "bend b < ns \<or> ne < bstart b" if b: "b \<in> set bs" for b
  proof (rule ccontr)
    assume a: "\<not> (bend b < ns \<or> ne < bstart b)"
    have le: "bstart b \<le> bend b" using ok b by (auto simp: blocks_ok_def block_ok_def)
    have "max ns (bstart b) \<in> pts bs (bowner b)" using a le b r by (auto simp: in_pts)
    then have "holder bs (max ns (bstart b)) = Some (bowner b)" by (simp only: holder_iff[OF ok])
    then show False using e a r by auto
  qed
  then have "give_inv start_walk bs ns ne pid" using ok r by (auto simp: give_inv_def start_walk_def)
  from add_pid_loop_ok[OF this] have p: "give_post start_walk bs ns ne pid res" by (simp add: res)
  then show okr: "blocks_ok res" by (simp add: give_post_def)
  show "holder res = (\<lambda>x. if x \<in> {ns..ne} then Some pid else holder bs x)"
  proof (rule holder_eqI[OF okr])
    fix x ow
    show "x \<in> pts res ow \<longleftrightarrow> (if x \<in> {ns..ne} then Some pid else holder bs x) = Some ow"
      using p ok e by (auto simp: give_post_def start_walk_def holder_iff[symmetric])
  qed
qed

lemma remove_holder:
  assumes ok: "blocks_ok bs" and r: "ns \<le> ne" "ne < 2 ^ 64" and res: "remove_loop True bs ns ne pid = (bs', k)"
  shows "k = EOK" "blocks_ok bs'"
    "holder bs' = (\<lambda>x. if x \<in> {ns..ne} \<and> holder bs x = Some pid then None else holder bs x)"
proof -
  note p = remove_loop_ok[OF ok r res]
  show "k = EOK" and okr: "blocks_ok bs'" using p by auto
  show "holder bs' = (\<lambda>x. if x \<in> {ns..ne} \<and> holder bs x = Some pid then None else holder bs x)"
  proof (rule holder_eqI[OF okr])
    fix x ow
    show "x \<in> pts bs' ow \<longleftrightarrow> (if x \<in> {ns..ne} \<and> holder bs x = Some pid then None else holder bs x) = Some ow"
      using p[of ow] ok by (auto simp: holder_iff[symmetric])
  qed
qed

section \<open>The callouts over the pieces\<close>

definition nons :: "piece list \<Rightarrow> (nat \<times> nat) list" where
  "nons ps = concat (map (\<lambda>p. case p of Over _ _ \<Rightarrow> [] | Non s e \<Rightarrow> [(s, e)]) ps)"

definition overs :: "piece list \<Rightarrow> (nat \<times> nat) list" where
  "overs ps = concat (map (\<lambda>p. case p of Over s e \<Rightarrow> [(s, e)] | Non _ _ \<Rightarrow> []) ps)"

definition run_ranges :: "callout \<Rightarrow> (nat \<times> nat) list \<Rightarrow> rsrc_root \<times> nat \<Rightarrow> rsrc_root \<times> nat" where
  "run_ranges f rs rr = fold (\<lambda>(s, e) rr. f (fst rr) s e) rs rr"

lemma fold_nons: "fold (run_piece None (Some f)) ps rr = run_ranges f (nons ps) rr"
  by (induction ps arbitrary: rr) (auto simp: nons_def run_ranges_def run_piece_def split: piece.splits)

lemma fold_overs: "fold (run_piece (Some f) None) ps rr = run_ranges f (overs ps) rr"
  by (induction ps arbitrary: rr) (auto simp: overs_def run_ranges_def run_piece_def split: piece.splits)

definition ranges_pts :: "(nat \<times> nat) list \<Rightarrow> nat set" where
  "ranges_pts rs = (\<Union>(s, e) \<in> set rs. {s..e})"

lemma ranges_pts_simps [simp]: "ranges_pts [] = {}" "ranges_pts ((s, e) # rs) = {s..e} \<union> ranges_pts rs"
  by (auto simp: ranges_pts_def)

lemma nons_pts: "ranges_pts (nons ps) = non_pts ps"
  by (induction ps) (auto simp: nons_def non_pts_def ranges_pts_def split: piece.splits)

lemma overs_pts: "ranges_pts (overs ps) = over_pts ps"
  by (induction ps) (auto simp: overs_def over_pts_def ranges_pts_def split: piece.splits)

lemma nons_in: "\<forall>p \<in> set ps. piece_in pe p \<Longrightarrow> \<forall>(s, e) \<in> set (nons ps). s \<le> e \<and> e \<le> pe"
  by (induction ps) (auto simp: nons_def split: piece.splits)

lemma overs_in: "\<forall>p \<in> set ps. piece_in pe p \<Longrightarrow> \<forall>(s, e) \<in> set (overs ps). s \<le> e \<and> e \<le> pe"
  by (induction ps) (auto simp: overs_def split: piece.splits)

lemma run_add_ok:
  assumes "blocks_ok (active r)" "\<forall>(s, e) \<in> set rs. s \<le> e \<and> e \<le> pe" "pe + 1 < 2 ^ 64"
    "\<forall>x \<in> ranges_pts rs. holder (active r) x \<in> {None, Some 0}"
  shows "\<exists>bs. fst (run_ranges (add_callout True) rs (r, k)) = r\<lparr>active := bs\<rparr> \<and> blocks_ok bs
    \<and> holder bs = (\<lambda>x. if x \<in> ranges_pts rs \<and> holder (active r) x = None then Some 0 else holder (active r) x)"
  using assms
proof (induction rs arbitrary: r k)
  case Nil
  then show ?case by (auto simp: run_ranges_def intro!: exI[of _ "active r"])
next
  case (Cons p rs)
  obtain s e where p: "p = (s, e)" by (cases p)
  define bs where "bs = add_loop True start_walk (active r) s e 0 0"
  have se: "s \<le> e" "e + 1 < 2 ^ 64" "holder (active r) e \<in> {None, Some 0}" using Cons.prems p by auto
  note a = add_holder[OF Cons.prems(1) se bs_def]
  have r1: "add_callout True r s e = (r\<lparr>active := bs\<rparr>, 0)"
    by (simp add: add_callout_def rsrc_block_add_range_def bs_def start_walk_def)
  have "\<forall>x \<in> ranges_pts rs. holder (active (r\<lparr>active := bs\<rparr>)) x \<in> {None, Some 0}"
    using Cons.prems(4) p by (simp add: a(2))
  from Cons.IH[OF _ _ Cons.prems(3) this, of 0] obtain bs' where
    "fst (run_ranges (add_callout True) rs (r\<lparr>active := bs\<rparr>, 0)) = r\<lparr>active := bs'\<rparr>" "blocks_ok bs'"
    "holder bs' = (\<lambda>x. if x \<in> ranges_pts rs \<and> holder bs x = None then Some 0 else holder bs x)"
    using a(1) Cons.prems(2) by (auto cong: if_cong)
  then show ?case using r1 p a(2) by (auto simp: run_ranges_def fun_eq_iff)
qed

lemma run_remove_ok:
  assumes "blocks_ok (active r)" "\<forall>(s, e) \<in> set rs. s \<le> e \<and> e \<le> pe" "pe < 2 ^ 64"
  shows "\<exists>bs. fst (run_ranges (remove_callout True) rs (r, k)) = r\<lparr>active := bs\<rparr> \<and> blocks_ok bs
    \<and> holder bs = (\<lambda>x. if x \<in> ranges_pts rs \<and> holder (active r) x = Some 0 then None else holder (active r) x)"
  using assms
proof (induction rs arbitrary: r k)
  case Nil
  then show ?case by (auto simp: run_ranges_def intro!: exI[of _ "active r"])
next
  case (Cons p rs)
  obtain s e where p: "p = (s, e)" by (cases p)
  obtain bs k1 where rl: "remove_loop True (active r) s e 0 = (bs, k1)" by (cases "remove_loop True (active r) s e 0")
  have se: "s \<le> e" "e < 2 ^ 64" using Cons.prems p by auto
  note a = remove_holder[OF Cons.prems(1) se rl]
  have r1: "remove_callout True r s e = (r\<lparr>active := bs\<rparr>, k1)"
    by (simp add: remove_callout_def rsrc_block_remove_range_def rl)
  from Cons.IH[of "r\<lparr>active := bs\<rparr>" k1] obtain bs' where
    "fst (run_ranges (remove_callout True) rs (r\<lparr>active := bs\<rparr>, k1)) = r\<lparr>active := bs'\<rparr>" "blocks_ok bs'"
    "holder bs' = (\<lambda>x. if x \<in> ranges_pts rs \<and> holder bs x = Some 0 then None else holder bs x)"
    using a(2) Cons.prems(2,3) by (auto cong: if_cong)
  then show ?case using r1 p a(3) by (auto simp: run_ranges_def fun_eq_iff)
qed

section \<open>The operations on a root\<close>

definition root_ok :: "rsrc_root \<Rightarrow> bool" where
  "root_ok r \<longleftrightarrow> blocks_ok (active r) \<and> creates_ok (created r)"

definition hold :: "rsrc_root \<Rightarrow> nat \<Rightarrow> int option" where
  "hold r = holder (active r)"

text \<open>Every created point is free or held, and nothing else is in the list.\<close>

definition accounted :: "rsrc_root \<Rightarrow> bool" where
  "accounted r \<longleftrightarrow> (\<forall>x. x \<in> cov (created r) \<longleftrightarrow> hold r x \<noteq> None)"

lemma insert_create_ok:
  assumes "creates_ok cs" "cstart c \<le> cend c" "cend c + 1 < 2 ^ 64"
  shows "creates_ok (rsrc_insert_create cs c)" "set (rsrc_insert_create cs c) = insert c (set cs)"
proof -
  show *: "set (rsrc_insert_create cs c) = insert c (set cs)" for cs by (induction cs) auto
  show "creates_ok (rsrc_insert_create cs c)" using assms by (induction cs) (auto simp: *)
qed

lemma create_root_ok:
  assumes ok: "root_ok r" and c: "cstart c \<le> cend c" "cend c + 1 < 2 ^ 64"
    and free: "\<forall>x \<in> {cstart c..cend c} - cov (created r). hold r x \<in> {None, Some 0}"
  shows "root_ok (create_in_root True r c)"
    "hold (create_in_root True r c) =
      (\<lambda>x. if x \<in> {cstart c..cend c} - cov (created r) \<and> hold r x = None then Some 0 else hold r x)"
    "created (create_in_root True r c) = rsrc_insert_create (created r) c"
    "rname (create_in_root True r c) = rname r"
proof -
  define ps where "ps = limit_pieces (created r) (cstart c) (cend c)"
  have okc: "creates_ok (created r)" "blocks_ok (active r)" using ok by (auto simp: root_ok_def)
  note lp = limit_pieces_ok[OF okc(1), of "cstart c" "cend c", folded ps_def]
  obtain bs where bs: "fst (run_ranges (add_callout True) (nons ps) (r, EOK)) = r\<lparr>active := bs\<rparr>" "blocks_ok bs"
    "holder bs = (\<lambda>x. if x \<in> {cstart c..cend c} - cov (created r) \<and> hold r x = None then Some 0 else hold r x)"
    using run_add_ok[OF okc(2) nons_in[OF lp(3)] c(2), of EOK] free by (auto simp: nons_pts lp(2) hold_def cong: if_cong)
  have eq: "create_in_root True r c = r\<lparr>active := bs, created := rsrc_insert_create (created r) c\<rparr>"
    using bs(1) by (simp add: create_in_root_def rsrc_block_limit_op_def fold_nons ps_def[symmetric])
  show "root_ok (create_in_root True r c)"
    using insert_create_ok(1)[OF okc(1) c] bs(2) by (simp add: eq root_ok_def)
  show "hold (create_in_root True r c) =
      (\<lambda>x. if x \<in> {cstart c..cend c} - cov (created r) \<and> hold r x = None then Some 0 else hold r x)"
    by (simp add: eq hold_def bs(3) cong: if_cong)
  show "created (create_in_root True r c) = rsrc_insert_create (created r) c"
    "rname (create_in_root True r c) = rname r" by (simp_all add: eq)
qed

lemma attach_flags [simp]:
  "flag_set FLAG_ATTACH_RMTOPID FLAG_ATTACH_RMTOPID" "\<not> flag_set FLAG_ATTACH_RMFROMPID FLAG_ATTACH_RMTOPID"
  "flag_set FLAG_ATTACH_RMFROMPID FLAG_ATTACH_RMFROMPID" "\<not> flag_set FLAG_ATTACH_RMTOPID FLAG_ATTACH_RMFROMPID"
  "\<not> flag_set FLAG_ATTACH_RMFROMPID FLAG_ATTACH_RM" "\<not> flag_set FLAG_ATTACH_RMTOPID FLAG_ATTACH_DONTLOOK"
  "\<not> flag_set FLAG_ATTACH_RMFROMPID FLAG_ATTACH_DONTLOOK"
  by (simp_all add: flag_set_def FLAG_ATTACH_RMTOPID_def FLAG_ATTACH_RMFROMPID_def FLAG_ATTACH_RM_def FLAG_ATTACH_DONTLOOK_def)

lemma attach_root_ok:
  assumes ok: "root_ok r" and r: "s \<le> e" "e + 1 < 2 ^ 64" and free: "\<forall>x \<in> {s..e}. hold r x = Some 0"
    and res: "r' = apply_match True r q pid FLAG_ATTACH_RMTOPID s e"
  shows "root_ok r'" "hold r' = (\<lambda>x. if x \<in> {s..e} then Some pid else hold r x)"
    "created r' = created r" "rname r' = rname r"
proof -
  obtain bs k where rl: "remove_loop True (active r) s e 0 = (bs, k)" by (cases "remove_loop True (active r) s e 0")
  have okb: "blocks_ok (active r)" "e < 2 ^ 64" using ok r by (auto simp: root_ok_def)
  note a = remove_holder[OF okb(1) r(1) okb(2) rl]
  define bs' where "bs' = add_pid_loop True start_walk bs s e pid (qflags q AND FLAG_SHARE)"
  have none: "\<forall>x \<in> {s..e}. holder bs x = None" using free by (simp add: a(3) hold_def)
  note g = give_holder[OF a(2) r none bs'_def]
  have eq: "r' = r\<lparr>active := bs'\<rparr>"
    by (simp add: res apply_match_def rsrc_block_remove_range_def rl rsrc_block_add_range_pid_def bs'_def
        start_walk_def)
  show "root_ok r'" "created r' = created r" "rname r' = rname r" using g ok by (simp_all add: eq root_ok_def)
  show "hold r' = (\<lambda>x. if x \<in> {s..e} then Some pid else hold r x)"
    using free by (auto simp: eq hold_def g(2) a(3) fun_eq_iff)
qed

lemma detach_root_ok:
  assumes ok: "root_ok r" and r: "s \<le> e" "e + 1 < 2 ^ 64" and held: "\<forall>x \<in> {s..e}. hold r x = Some pid"
    and res: "r' = apply_match True r q pid FLAG_ATTACH_RMFROMPID s e"
  shows "root_ok r'" "hold r' = (\<lambda>x. if x \<in> {s..e} then if x \<in> cov (created r) then Some 0 else None else hold r x)"
    "created r' = created r" "rname r' = rname r"
proof -
  obtain bs k where rl: "remove_loop True (active r) s e pid = (bs, k)" by (cases "remove_loop True (active r) s e pid")
  have okb: "blocks_ok (active r)" "e < 2 ^ 64" "creates_ok (created r)" using ok r by (auto simp: root_ok_def)
  note a = remove_holder[OF okb(1) r(1) okb(2) rl]
  define r1 where "r1 = r\<lparr>active := bs\<rparr>"
  define ps where "ps = limit_pieces (created r) s e"
  note lp = limit_pieces_ok[OF okb(3), of s e, folded ps_def]
  have none: "\<forall>x \<in> {s..e}. holder bs x = None" using held by (simp add: a(3) hold_def)
  have ok1: "blocks_ok (active r1)" using a by (simp add: r1_def)
  obtain bs' where bs': "fst (run_ranges (add_callout True) (overs ps) (r1, EOK)) = r1\<lparr>active := bs'\<rparr>" "blocks_ok bs'"
    "holder bs' = (\<lambda>x. if x \<in> {s..e} \<inter> cov (created r) \<and> holder bs x = None then Some 0 else holder bs x)"
    using run_add_ok[OF ok1 overs_in[OF lp(3)] r(2), of EOK] none by (auto simp: overs_pts lp(1) r1_def cong: if_cong)
  have eq: "r' = r\<lparr>active := bs'\<rparr>"
    using bs'(1)
    by (simp add: res apply_match_def rsrc_block_remove_range_def rl
        rsrc_block_limit_op_def fold_overs ps_def r1_def)
  show "root_ok r'" "created r' = created r" "rname r' = rname r" using bs' ok by (simp_all add: eq root_ok_def)
  show "hold r' = (\<lambda>x. if x \<in> {s..e} then if x \<in> cov (created r) then Some 0 else None else hold r x)"
    using held none by (auto simp: eq hold_def bs'(3) a(3) fun_eq_iff)
qed

definition mine :: "string list \<Rightarrow> int \<Rightarrow> rsrc_create \<Rightarrow> bool" where
  "mine path pid c \<longleftrightarrow> cnode c = path \<and> ccreator c = pid"

lemma filter_insert_create:
  "\<not> P c \<Longrightarrow> filter P (rsrc_insert_create cs c) = filter P cs"
  by (induction cs) auto

lemma cov_filter_insert:
  "P c \<Longrightarrow> cov (filter P (rsrc_insert_create cs c)) = {cstart c..cend c} \<union> cov (filter P cs)"
  by (induction cs) auto

definition destroy_post :: "rsrc_create list \<Rightarrow> nat \<Rightarrow> nat \<Rightarrow> string list \<Rightarrow> int \<Rightarrow> rsrc_create list \<Rightarrow> bool" where
  "destroy_post cs s e path pid cs' \<longleftrightarrow>
     creates_ok cs' \<and> cov (filter (mine path pid) cs') = cov (filter (mine path pid) cs) - {s..e}
     \<and> filter (\<lambda>c. \<not> mine path pid c) cs' = filter (\<lambda>c. \<not> mine path pid c) cs
     \<and> (\<forall>c' \<in> set cs'. \<exists>c \<in> set cs. cstart c \<le> cstart c')"

lemma destroy_post_Cons:
  assumes "creates_ok (c # cs)" "destroy_post cs s e path pid cs'" "mine path pid c \<Longrightarrow> cend c < s"
  shows "destroy_post (c # cs) s e path pid (c # cs')"
  using assms by (fastforce simp: destroy_post_def)

lemma destroy_post_below:
  assumes ok: "creates_ok (c # cs)" and lt: "e < cstart c"
  shows "destroy_post (c # cs) s e path pid (c # cs)"
proof -
  have "\<forall>d \<in> set (filter (mine path pid) (c # cs)). cstart c \<le> cstart d" using ok by auto
  from cov_above[OF this] have "cov (filter (mine path pid) (c # cs)) - {s..e} = cov (filter (mine path pid) (c # cs))"
    using lt by fastforce
  then show ?thesis unfolding destroy_post_def using ok by blast
qed

text \<open>The part of an entry above the range is put back, the part below it stays in place.\<close>

lemma destroy_post_upper:
  assumes ok: "creates_ok (c # cs)" and m: "mine path pid c" and e: "cstart c \<le> e" "e < cend c"
    and p: "destroy_post (rsrc_insert_create cs (c\<lparr>cstart := e + 1\<rparr>)) s e path pid cs'"
  shows "s \<le> cstart c \<Longrightarrow> destroy_post (c # cs) s e path pid cs'"
    "cstart c < s \<Longrightarrow> s \<le> e \<Longrightarrow> destroy_post (c # cs) s e path pid (c\<lparr>cend := s - 1\<rparr> # cs')"
proof -
  let ?c = "c\<lparr>cstart := e + 1\<rparr>"
  have mc: "mine path pid ?c" "mine path pid (c\<lparr>cend := s - 1\<rparr>)" using m by (auto simp: mine_def)
  have st: "set (rsrc_insert_create cs ?c) = insert ?c (set cs)"
    using insert_create_ok(2)[of cs ?c] ok e by auto
  have cv: "cov (filter (mine path pid) cs') = ({e + 1..cend c} \<union> cov (filter (mine path pid) cs)) - {s..e}"
    and nm: "filter (\<lambda>c. \<not> mine path pid c) cs' = filter (\<lambda>c. \<not> mine path pid c) cs"
    and ok': "creates_ok cs'" using p mc by (simp_all add: destroy_post_def cov_filter_insert filter_insert_create)
  have low: "\<forall>c' \<in> set cs'. \<exists>d \<in> set (c # cs). cstart d \<le> cstart c'"
  proof
    fix c' assume "c' \<in> set cs'"
    then obtain d where "d \<in> insert ?c (set cs)" "cstart d \<le> cstart c'" using p st unfolding destroy_post_def st by blast
    then show "\<exists>d \<in> set (c # cs). cstart d \<le> cstart c'" using e by auto
  qed
  then have low': "\<forall>c' \<in> set cs'. cstart c \<le> cstart c'" using ok by force
  show "destroy_post (c # cs) s e path pid cs'" if "s \<le> cstart c"
    using ok' nm low m that e unfolding destroy_post_def cv by auto
  show "destroy_post (c # cs) s e path pid (c\<lparr>cend := s - 1\<rparr> # cs')" if "cstart c < s" "s \<le> e"
    using ok' nm low low' m mc that e ok unfolding destroy_post_def by (auto simp: cv)
qed

lemma destroy_post_lower:
  assumes ok: "creates_ok (c # cs)" and m: "mine path pid c" and e: "cstart c < s" "s \<le> cend c" "cend c \<le> e"
    and p: "destroy_post cs s e path pid cs'"
  shows "destroy_post (c # cs) s e path pid (c\<lparr>cend := s - 1\<rparr> # cs')"
proof -
  have "mine path pid (c\<lparr>cend := s - 1\<rparr>)" using m by (auto simp: mine_def)
  moreover have "\<forall>c' \<in> set cs'. cstart c \<le> cstart c'" using p ok by (force simp: destroy_post_def)
  ultimately show ?thesis using p ok m e by (auto simp: destroy_post_def)
qed

lemma destroy_loop_ok:
  assumes "creates_ok cs" "s \<le> e" "e + 1 < 2 ^ 64"
  shows "\<exists>cs'. destroy_loop True cs s e path pid = (cs', True) \<and> destroy_post cs s e path pid cs'"
  using assms
proof (induction "True" cs s e path pid rule: destroy_loop.induct)
  case (1 s e path pid)
  then show ?case by (simp add: destroy_post_def)
next
  case (2 c cs s e path pid)
  note prems = 2(6-8)
  have ok: "cstart c \<le> cend c" "cend c + 1 < 2 ^ 64" "creates_ok cs" using prems by auto
  show ?case
  proof (cases "e < cstart c")
    case True
    then show ?thesis using destroy_post_below[OF prems(1) True] by simp
  next
    case le: False
    show ?thesis
    proof (cases "mine path pid c \<and> OVERLAPE (cstart c) (cend c) s e")
      case False
      then have skip: "cnode c \<noteq> path \<or> ccreator c \<noteq> pid \<or> \<not> OVERLAPE (cstart c) (cend c) s e" by (auto simp: mine_def)
      from 2(1)[OF le skip ok(3) prems(2,3)] obtain cs' where
        cs': "destroy_loop True cs s e path pid = (cs', True)" "destroy_post cs s e path pid cs'" by auto
      have "mine path pid c \<Longrightarrow> cend c < s" using False le ok prems by (auto simp: OVERLAPE_iff)
      from destroy_post_Cons[OF prems(1) cs'(2) this] show ?thesis using cs' le skip by auto
    next
      case m: True
      then have hit: "\<not> (cnode c \<noteq> path \<or> ccreator c \<noteq> pid \<or> \<not> OVERLAPE (cstart c) (cend c) s e)" by (auto simp: mine_def)
      have mc: "mine path pid c" and ov: "cstart c \<le> e" "s \<le> cend c" using m ok prems by (auto simp: OVERLAPE_iff)
      have ins: "creates_ok (rsrc_insert_create cs (c\<lparr>cstart := e + 1\<rparr>))" if "e < cend c"
        using insert_create_ok(1)[OF ok(3), of "c\<lparr>cstart := e + 1\<rparr>"] that ok by auto
      consider (all) "s \<le> cstart c \<and> cend c \<le> e" | (mid) "cstart c < s \<and> e < cend c"
        | (low) "s \<le> cstart c" "e < cend c" | (high) "cstart c < s" "cend c \<le> e" by linarith
      then show ?thesis
      proof cases
        case all
        from 2(2)[OF le hit all ok(3) prems(2,3)] show ?thesis using le hit all mc by (fastforce simp: destroy_post_def)
      next
        case mid
        then have na: "\<not> (s \<le> cstart c \<and> cend c \<le> e)" by auto
        show ?thesis using 2(3)[OF le hit na mid _ ins prems(2,3)] mid le hit
            destroy_post_upper(2)[OF prems(1) mc ov(1)] prems(2) by fastforce
      next
        case low
        then have na: "\<not> (s \<le> cstart c \<and> cend c \<le> e)" "\<not> (cstart c < s \<and> e < cend c)" by auto
        show ?thesis using 2(4)[OF le hit na low(1) ins[OF low(2)] prems(2,3)] low le hit na
            destroy_post_upper(1)[OF prems(1) mc ov(1) low(2)] by fastforce
      next
        case high
        then have na: "\<not> (s \<le> cstart c \<and> cend c \<le> e)" "\<not> (cstart c < s \<and> e < cend c)" "\<not> s \<le> cstart c" by auto
        show ?thesis using 2(5)[OF le hit na ok(3) prems(2,3)] high le hit na
            destroy_post_lower[OF prems(1) mc high(1) ov(2) high(2)] by fastforce
      qed
    qed
  qed
qed

interpretation rb: range_book root_ok "\<lambda>r. cov (created r)" hold
  "\<lambda>r pid s e. apply_match True r q pid FLAG_ATTACH_RMTOPID s e"
  "\<lambda>r pid s e. apply_match True r q pid FLAG_ATTACH_RMFROMPID s e" for q
  by unfold_locales (use attach_root_ok[OF _ _ _ _ refl] detach_root_ok[OF _ _ _ _ refl] in auto)

lemma balanced_root: "rb.balanced r \<longleftrightarrow> root_ok r \<and> accounted r"
  by (simp add: rb.balanced_def accounted_def)

end
