(* ===== verification/Rsrc_Search.thy ===== *)
theory Rsrc_Search
  imports Rsrc_Ranges
begin

text \<open>
  The search for a range: it ends, it finds a range when there is one, and what it finds fits.
\<close>

section \<open>The search\<close>

definition search_ok :: "search \<Rightarrow> bool" where
  "search_ok q \<longleftrightarrow> 0 < slength q \<and> 0 < salign q \<and> slimit_end q + salign q < 2 ^ 64"

definition lo :: "search \<Rightarrow> rsrc_block \<Rightarrow> nat" where
  "lo q b = max (bstart b) (slimit_start q)"

definition hi :: "search \<Rightarrow> rsrc_block \<Rightarrow> nat" where
  "hi q b = min (bend b) (slimit_end q)"

definition fits :: "search \<Rightarrow> rsrc_block \<Rightarrow> nat \<Rightarrow> bool" where
  "fits q b s \<longleftrightarrow> BLOCK_SHARE_COMPATABLE b (sflags q) (sowner q)
     \<and> lo q b \<le> s \<and> s + slength q - 1 \<le> hi q b \<and> salign q dvd s"

lemma align_up:
  fixes t a :: nat
  assumes "0 < a"
  shows "a dvd t + (a - t mod a)" "t \<le> s \<Longrightarrow> a dvd s \<Longrightarrow> t mod a \<noteq> 0 \<Longrightarrow> t + (a - t mod a) \<le> s"
proof -
  have "(t div a + 1) * a = t div a * a + a" by simp
  then have eq: "t + (a - t mod a) = (t div a + 1) * a"
    using mod_less_divisor[OF assms, of t] div_mult_mod_eq[of t a] by linarith
  show "a dvd t + (a - t mod a)" unfolding eq by simp
  assume s: "t \<le> s" "a dvd s" "t mod a \<noteq> 0"
  then obtain k where k: "s = k * a" by (metis dvd_def mult.commute)
  have "\<not> k \<le> t div a"
  proof
    assume "k \<le> t div a"
    then have "k * a \<le> t div a * a" by simp
    then show False using s k div_mult_mod_eq[of t a] by linarith
  qed
  then show "t + (a - t mod a) \<le> s" unfolding eq k by (simp add: mult_le_mono1 del: mult_Suc)
qed

lemma align_down:
  fixes t a :: nat
  assumes "0 < a" "s \<le> t" "a dvd s"
  shows "s \<le> t - t mod a"
proof -
  obtain k where k: "s = k * a" using assms by (metis dvd_def mult.commute)
  then have "k \<le> t div a" using assms by (simp add: less_eq_div_iff_mult_less_eq)
  then show ?thesis unfolding k minus_mod_eq_div_mult by (rule mult_le_mono1)
qed

text \<open>The first candidate: the lowest (forward) or highest aligned start in the window.\<close>

lemma fit_start_ok:
  assumes q: "search_ok q" and t: "ts \<le> te" "te \<le> slimit_end q" "slength q \<le> te - ts + 1"
  shows "salign q dvd fit_start q ts te" "fit_start q ts te \<le> (if forward q then te + salign q else te)"
    "forward q \<Longrightarrow> ts \<le> fit_start q ts te"
    "wadd (fit_start q ts te) (wsub (slength q) 1) = fit_start q ts te + slength q - 1"
    "salign q dvd s \<Longrightarrow> ts \<le> s \<Longrightarrow> s + slength q - 1 \<le> te \<Longrightarrow>
       (if forward q then fit_start q ts te \<le> s else s \<le> fit_start q ts te \<and> fit_start q ts te + slength q - 1 \<le> te)"
proof -
  have b: "0 < slength q" "0 < salign q" "te + salign q < 2 ^ 64" using q t by (auto simp: search_ok_def)
  have ml: "ts mod salign q < salign q" using b by simp
  have w: "wsub (slength q) 1 = slength q - 1" "wsub te (slength q - 1) = te - (slength q - 1)"
    using b t by (auto simp: wsub_exact)
  have fs: "fit_start q ts te =
      (if forward q then (if ts mod salign q = 0 then ts else ts + (salign q - ts mod salign q))
       else te - (slength q - 1) - (te - (slength q - 1)) mod salign q)"
    using b t ml by (auto simp: fit_start_def Let_def w wadd_exact simp del: One_nat_def)
  show dv: "salign q dvd fit_start q ts te" 
    using align_up(1)[OF b(2)] dvd_minus_mod[of "salign q" "te - (slength q - 1)"]
    by (auto simp: fs mod_eq_0_iff_dvd simp del: diff_diff_left)
  show "fit_start q ts te \<le> (if forward q then te + salign q else te)"
  proof -
    have "ts + (salign q - ts mod salign q) \<le> te + salign q" "ts \<le> te + salign q"
      "te - (slength q - 1) - (te - (slength q - 1)) mod salign q \<le> te" using t by linarith+
    then show ?thesis by (simp only: fs split: if_split) simp
  qed
  have up: "fit_start q ts te + slength q - 1 < 2 ^ 64"
  proof (cases "forward q")
    case True
    then have "fit_start q ts te \<le> ts + salign q" using ml by (simp add: fs)
    then show ?thesis using b t by linarith
  next
    case False
    then have "fit_start q ts te \<le> te - (slength q - 1)" by (simp add: fs)
    then show ?thesis using b t by linarith
  qed
  then show "wadd (fit_start q ts te) (wsub (slength q) 1) = fit_start q ts te + slength q - 1"
    using b(1) by (simp add: w wadd_exact del: One_nat_def)
  show "forward q \<Longrightarrow> ts \<le> fit_start q ts te" by (simp add: fs)
  assume s: "salign q dvd s" "ts \<le> s" "s + slength q - 1 \<le> te"
  then show "if forward q then fit_start q ts te \<le> s else s \<le> fit_start q ts te \<and> fit_start q ts te + slength q - 1 \<le> te"
    using align_up(2)[OF b(2) s(2,1)] align_down[OF b(2) _ s(1), of "te - (slength q - 1)"] b t
    by (auto simp: fs)
qed

lemma next_priority_loop_mono:
  "if backward then next_priority_loop cs s e backward cur p v \<le> v else v \<le> next_priority_loop cs s e backward cur p v"
proof (induction cs arbitrary: p v)
  case (Cons c cs)
  show ?case
    using Cons.IH[of "max (create_priority c) p" v] Cons.IH[of p v]
      Cons.IH[of "max (create_priority c) p" "min v (wsub (cstart c) 1)"]
      Cons.IH[of "max (create_priority c) p" "max v (wadd (cend c) 1)"]
    by (auto simp: Let_def split: if_splits)
qed simp

lemma find_next_mono:
  assumes "find_next_priority root s e backward = (again, v)" "e + 1 < 2 ^ 64"
  shows "if backward then v \<le> s - 1 else e < v" "again \<longleftrightarrow> (if backward then v \<noteq> e else v \<noteq> s)"
  using assms next_priority_loop_mono[of True "created root" s e "find_range_priority root s e" 0 "s - 1"]
    next_priority_loop_mono[of False "created root" s e "find_range_priority root s e" 0 "e + 1"]
  by (auto simp: find_next_priority_def Let_def ULONGLONG_MAX_def split: if_splits)

definition found :: "rsrc_root \<Rightarrow> search \<Rightarrow> rsrc_block \<Rightarrow> saved \<Rightarrow> bool" where
  "found root q b sv \<longleftrightarrow> (\<exists>s. fits q b s \<and> sv = Some (s, s + slength q - 1, find_range_priority root s (s + slength q - 1)))"

text \<open>The window of a pass: its upper end is that of the block forward, its lower end backward.\<close>

definition window :: "search \<Rightarrow> rsrc_block \<Rightarrow> nat \<Rightarrow> nat \<Rightarrow> bool" where
  "window q b ts te \<longleftrightarrow> (if forward q then te = hi q b \<and> lo q b \<le> ts else ts = lo q b \<and> te \<le> hi q b)"

definition passes :: "search \<Rightarrow> rsrc_block \<Rightarrow> nat \<Rightarrow> nat \<Rightarrow> nat" where
  "passes q b ts te = (if forward q then hi q b + 1 - ts else te)"

lemma fits_none_outside:
  assumes q: "search_ok q" and w: "window q b ts te" and t: "ts \<le> te" "slength q \<le> te - ts + 1"
    and out: "fit_start q ts te < lo q b \<or> hi q b < fit_start q ts te + slength q - 1"
  shows "\<not> (fits q b s \<and> ts \<le> s \<and> s + slength q - 1 \<le> te)"
proof
  assume s: "fits q b s \<and> ts \<le> s \<and> s + slength q - 1 \<le> te"
  have te: "te \<le> slimit_end q" "te \<le> hi q b" using w by (auto simp: window_def hi_def split: if_splits)
  note fs = fit_start_ok[OF q t(1) te(1) t(2)]
  have "if forward q then fit_start q ts te \<le> s else s \<le> fit_start q ts te \<and> fit_start q ts te + slength q - 1 \<le> te"
    using fs(5)[of s] s by (auto simp: fits_def)
  then show False using out s te w fs(3) by (auto simp: fits_def window_def split: if_splits)
qed

text \<open>One pass over the window, with what is saved and where the next pass looks.\<close>

lemma fit_block_pass:
  assumes q: "search_ok q" and w: "window q b ts te"
    and t: "BLOCK_SHARE_COMPATABLE b (sflags q) (sowner q) \<and> ts \<le> te \<and> slength q \<le> te - ts + 1"
    and inside: "\<not> (fit_start q ts te < lo q b \<or> hi q b < fit_start q ts te + slength q - 1)"
  obtains sv1 stop where "fit_block (Suc fuel) root q b ts te sv = Some (sv1, stop)" "sv1 = sv \<or> found root q b sv1" "sv1 \<noteq> None"
  | sv1 ts' te' where "fit_block (Suc fuel) root q b ts te sv = fit_block fuel root q b ts' te' sv1"
      "sv1 = sv \<or> found root q b sv1" "sv1 \<noteq> None" "window q b ts' te'" "passes q b ts' te' < passes q b ts te"
proof -
  let ?s = "fit_start q ts te" and ?L = "slength q"
  let ?e = "?s + ?L - 1"
  have te: "te \<le> slimit_end q" "te \<le> hi q b" using w by (auto simp: window_def hi_def split: if_splits)
  have L: "0 < ?L" "te + 1 < 2 ^ 64" "slimit_end q + 1 < 2 ^ 64" using q te by (auto simp: search_ok_def)
  have wa: "wadd (te - ts) 1 = te - ts + 1" using L by (intro wadd_exact) auto
  note fs = fit_start_ok[OF q _ te(1), of ts]
  have fit: "fits q b ?s" using t inside fs(1) by (auto simp: fits_def)
  have e: "?e + 1 < 2 ^ 64" "?s \<le> ?e" using inside L te by (auto simp: hi_def)
  define prio where "prio = find_range_priority root ?s ?e"
  define sv1 where "sv1 = (if better prio sv then Some (?s, ?e, prio) else sv)"
  have sv1: "sv1 = sv \<or> found root q b sv1" "sv1 \<noteq> None"
    using fit by (auto simp: sv1_def found_def prio_def better_def split: option.splits)
  obtain again v where nx: "find_next_priority root ?s ?e (\<not> forward q) = (again, v)"
    by (cases "find_next_priority root ?s ?e (\<not> forward q)")
  note mono = find_next_mono[OF nx e(1)]
  let ?ts = "if forward q then v else lo q b" and ?te = "if forward q then hi q b else v"
  have e4: "wadd ?s (wsub ?L 1) = ?e" using fs(4) t by blast
  have al: "salign q \<noteq> 0" using q by (simp add: search_ok_def)
  have unf: "fit_block (Suc fuel) root q b ts te sv =
      (if prio = 0 then Some (sv1, True)
       else if again then (if forward q then fit_block fuel root q b v (hi q b) sv1
                           else fit_block fuel root q b (lo q b) v sv1)
       else Some (sv1, False))"
    unfolding fit_block.simps Let_def wa e4 lo_def[symmetric] hi_def[symmetric] prio_def[symmetric]
      sv1_def[symmetric] nx if_P[OF t] if_not_P[OF al] if_not_P[OF inside] prod.case ..
  show ?thesis
  proof (cases "prio \<noteq> 0 \<and> again")
    case True
    have "window q b ?ts ?te" using mono(1) inside te by (auto simp: window_def split: if_splits)
    moreover have "passes q b ?ts ?te < passes q b ts te"
      using mono True w e t fs(2,3) inside by (auto simp: window_def passes_def split: if_splits)
    moreover have "fit_block (Suc fuel) root q b ts te sv = fit_block fuel root q b ?ts ?te sv1"
      unfolding unf using True by simp
    ultimately show ?thesis using that(2) sv1 by blast
  next
    case False
    then have "\<exists>stop. fit_block (Suc fuel) root q b ts te sv = Some (sv1, stop)" unfolding unf by auto
    then show ?thesis using that(1) sv1 by blast
  qed
qed

lemma fit_block_ok:
  assumes q: "search_ok q" and w: "window q b ts te" and f: "passes q b ts te < fuel"
  shows "\<exists>sv1 stop. fit_block fuel root q b ts te sv = Some (sv1, stop) \<and> (sv1 = sv \<or> found root q b sv1)
    \<and> (stop \<longrightarrow> sv1 \<noteq> None) \<and> (sv \<noteq> None \<longrightarrow> sv1 \<noteq> None)
    \<and> ((\<exists>s. fits q b s \<and> ts \<le> s \<and> s + slength q - 1 \<le> te) \<longrightarrow> sv1 \<noteq> None)"
  using w f
proof (induction fuel arbitrary: ts te sv)
  case (Suc fuel)
  have te: "te \<le> slimit_end q" using Suc.prems(1) by (auto simp: window_def hi_def split: if_splits)
  have L: "0 < slength q" "te + 1 < 2 ^ 64" "0 < salign q" using q te by (auto simp: search_ok_def)
  have wa: "wadd (te - ts) 1 = te - ts + 1" using L by (intro wadd_exact) auto
  show ?case
  proof (cases "BLOCK_SHARE_COMPATABLE b (sflags q) (sowner q) \<and> ts \<le> te \<and> slength q \<le> te - ts + 1")
    case False
    moreover have "\<not> (fits q b s \<and> ts \<le> s \<and> s + slength q - 1 \<le> te)" for s
      using False L(1) by (auto simp: fits_def)
    ultimately show ?thesis using wa by (auto simp del: One_nat_def)
  next
    case t: True
    note fs = fit_start_ok[OF q _ te, of ts]
    show ?thesis
    proof (cases "fit_start q ts te < lo q b \<or> hi q b < fit_start q ts te + slength q - 1")
      case out: True
      have "\<not> (fits q b s \<and> ts \<le> s \<and> s + slength q - 1 \<le> te)" for s
        using fits_none_outside[OF q Suc.prems(1) _ _ out] t by blast
      then show ?thesis using out t wa fs(4) L(3)
        by (auto simp: Let_def lo_def[symmetric] hi_def[symmetric] simp del: One_nat_def)
    next
      case inside: False
      show ?thesis
      proof (cases rule: fit_block_pass[OF q Suc.prems(1) t inside, of fuel root sv])
        case 1
        then show ?thesis by blast
      next
        case (2 sv1 ts' te')
        have "passes q b ts' te' < fuel" using 2(5) Suc.prems(2) by simp
        from Suc.IH[OF 2(4) this, of sv1] show ?thesis unfolding 2(1) using 2(2,3) by metis
      qed
    qed
  qed
qed simp

lemma fits_start: "search_ok q \<Longrightarrow> fits q b s \<Longrightarrow> bstart b \<le> slimit_end q \<and> slimit_start q \<le> bend b"
  by (auto simp: fits_def search_ok_def lo_def hi_def)

lemma fit_blocks_ok:
  assumes q: "search_ok q" and f: "slimit_end q + 1 < fuel"
    and srt: "sorted_wrt (\<lambda>b c. slimit_end q < bstart b \<longrightarrow> slimit_end q < bstart c) bs"
  shows "\<exists>sv1. fit_blocks fuel root q bs sv = Some sv1 \<and> (sv1 = sv \<or> (\<exists>b \<in> set bs. found root q b sv1))
    \<and> (sv \<noteq> None \<or> (\<exists>b \<in> set bs. \<exists>s. fits q b s) \<longrightarrow> sv1 \<noteq> None)"
  using srt
proof (induction bs arbitrary: sv)
  case (Cons b bs)
  show ?case
  proof (cases "bstart b \<le> slimit_end q")
    case False
    then have "\<forall>c \<in> set (b # bs). slimit_end q < bstart c" using Cons.prems by auto
    then have nofit: "\<not> (\<exists>c \<in> set (b # bs). \<exists>s. fits q c s)" using fits_start[OF q] by (meson not_less)
    have "fit_blocks fuel root q (b # bs) sv = Some sv" using False by simp
    then show ?thesis using nofit by (intro exI[of _ sv]) (simp only: simp_thms)
  next
    case True
    have w: "window q b (lo q b) (hi q b)" by (simp add: window_def)
    have p: "passes q b (lo q b) (hi q b) < fuel" using f by (auto simp: passes_def hi_def)
    obtain sv1 stop where fb: "fit_block fuel root q b (lo q b) (hi q b) sv = Some (sv1, stop)"
      "sv1 = sv \<or> found root q b sv1" "stop \<longrightarrow> sv1 \<noteq> None" "sv \<noteq> None \<longrightarrow> sv1 \<noteq> None"
      "(\<exists>s. fits q b s \<and> lo q b \<le> s \<and> s + slength q - 1 \<le> hi q b) \<longrightarrow> sv1 \<noteq> None"
      using fit_block_ok[OF q w p, of root sv] by (elim exE conjE) blast
    have fitb: "(\<exists>s. fits q b s) \<longrightarrow> sv1 \<noteq> None" using fb(5) by (auto simp: fits_def)
    have unf: "fit_blocks fuel root q (b # bs) sv = (if stop then Some sv1 else fit_blocks fuel root q bs sv1)"
      using True fb(1) by (simp add: lo_def hi_def)
    have "sorted_wrt (\<lambda>b c. slimit_end q < bstart b \<longrightarrow> slimit_end q < bstart c) bs" using Cons.prems by simp
    from Cons.IH[OF this, of sv1] obtain sv2 where ih: "fit_blocks fuel root q bs sv1 = Some sv2"
      "sv2 = sv1 \<or> (\<exists>b \<in> set bs. found root q b sv2)"
      "sv1 \<noteq> None \<or> (\<exists>b \<in> set bs. \<exists>s. fits q b s) \<longrightarrow> sv2 \<noteq> None" by blast
    show ?thesis
    proof (cases stop)
      case True
      then show ?thesis unfolding unf using fb(2,3) by auto
    next
      case False
      have "sv2 = sv \<or> (\<exists>b \<in> set (b # bs). found root q b sv2)" using ih(2) fb(2) by auto
      moreover have "sv \<noteq> None \<or> (\<exists>b \<in> set (b # bs). \<exists>s. fits q b s) \<longrightarrow> sv2 \<noteq> None"
        using ih(3) fb(4) fitb by auto
      ultimately show ?thesis unfolding unf using False ih(1) by simp
    qed
  qed
qed simp

lemma dropWhile_lost: "x \<in> set xs \<Longrightarrow> x \<notin> set (dropWhile P xs) \<Longrightarrow> P x"
  by (metis set_takeWhileD takeWhile_dropWhile_id Un_iff set_append)

lemma takeWhile_lost:
  "sorted_wrt R xs \<Longrightarrow> x \<in> set xs \<Longrightarrow> x \<notin> set (takeWhile P xs) \<Longrightarrow> \<exists>y. \<not> P y \<and> (y = x \<or> R y x)"
  by (induction xs) (auto split: if_splits)

lemma candidates_ok:
  assumes q: "search_ok q" and ok: "blocks_ok (active root)"
  shows "set (candidates root q) \<subseteq> set (active root)"
    "b \<in> set (active root) \<Longrightarrow> fits q b s \<Longrightarrow> b \<in> set (candidates root q)"
    "sorted_wrt (\<lambda>b c. slimit_end q < bstart b \<longrightarrow> slimit_end q < bstart c) (candidates root q)"
proof -
  have srt: "sorted_wrt (\<lambda>b c. bstart b < bstart c) (active root)"
    using ok unfolding blocks_ok_def by (auto simp: block_ok_def elim!: sorted_wrt_mono_rel[rotated])
  show "set (candidates root q) \<subseteq> set (active root)"
    by (auto simp: candidates_def dest: set_dropWhileD set_takeWhileD)
  show "b \<in> set (candidates root q)" if b: "b \<in> set (active root)" and f: "fits q b s"
  proof (rule ccontr)
    assume n: "b \<notin> set (candidates root q)"
    note fs = fits_start[OF q f]
    show False
    proof (cases "forward q")
      case True
      then have "\<not> (BLOCK_CONTAINS_PT b (slimit_start q) \<or> slimit_start q < bstart b)"
        using dropWhile_lost[OF b] n by (auto simp: candidates_def)
      then show False using fs by (auto simp: BLOCK_CONTAINS_PT_def)
    next
      case False
      then show False using takeWhile_lost[OF srt b, of "\<lambda>b. bstart b \<le> slimit_end q"] n fs by (auto simp: candidates_def)
    qed
  qed
  show "sorted_wrt (\<lambda>b c. slimit_end q < bstart b \<longrightarrow> slimit_end q < bstart c) (candidates root q)"
  proof (cases "forward q")
    case True
    have "sorted_wrt (\<lambda>b c. bstart b < bstart c) (dropWhile P (active root))" for P
      using srt by (metis sorted_wrt_append takeWhile_dropWhile_id)
    then have "sorted_wrt (\<lambda>b c. bstart b < bstart c) (candidates root q)" using True by (simp only: candidates_def if_True)
    then show ?thesis by (rule sorted_wrt_mono_rel[rotated]) simp
  next
    case False
    have "\<forall>b \<in> set (candidates root q). \<not> slimit_end q < bstart b"
      using False by (auto simp: candidates_def dest: set_takeWhileD)
    then show ?thesis by (auto simp: sorted_wrt_iff_nth_less)
  qed
qed

lemma find_range_ok:
  assumes q: "search_ok q" and f: "slimit_end q + 1 < fuel" and ok: "blocks_ok (active root)"
  shows "\<exists>r. rsrc_find_range fuel root q = Some r
    \<and> (r = None \<longleftrightarrow> \<not> (\<exists>b \<in> set (active root). \<exists>s. fits q b s))
    \<and> (r \<noteq> None \<longrightarrow> (\<exists>b \<in> set (active root). found root q b r))"
proof -
  note c = candidates_ok[OF q ok]
  obtain r where r: "rsrc_find_range fuel root q = Some r"
    "r = None \<or> (\<exists>b \<in> set (candidates root q). found root q b r)"
    "(\<exists>b \<in> set (candidates root q). \<exists>s. fits q b s) \<longrightarrow> r \<noteq> None"
    using fit_blocks_ok[OF q f c(3), of root None] by (auto simp: rsrc_find_range_def)
  have "r \<noteq> None \<longrightarrow> (\<exists>b \<in> set (active root). found root q b r)" using r(2) c(1) by blast
  moreover have "r = None \<longleftrightarrow> \<not> (\<exists>b \<in> set (active root). \<exists>s. fits q b s)"
    using r(2,3) c(1,2) by (fastforce simp: found_def)
  ultimately show ?thesis using r(1) by blast
qed

definition request_align :: "rsrc_request \<Rightarrow> nat" where
  "request_align q = (if flag_set (qflags q) FLAG_ALIGN \<and> qalign q \<noteq> 0 then qalign q else 1)"

definition request_ok :: "rsrc_root \<Rightarrow> rsrc_request \<Rightarrow> bool" where
  "request_ok root q \<longleftrightarrow> 0 < qlength q \<and> (\<forall>c \<in> set (created root). cend c + request_align q < 2 ^ 64)"

definition offered :: "rsrc_root \<Rightarrow> rsrc_request \<Rightarrow> int \<Rightarrow> nat \<times> nat \<Rightarrow> bool" where
  "offered root q frompid cur \<longleftrightarrow>
     (\<exists>b \<in> set (active root). \<exists>s. fits (request_search q frompid (fst cur) (snd cur)) b s)"

text \<open>What the caller may rely on for a range that was found.\<close>

definition granted :: "rsrc_root \<Rightarrow> rsrc_request \<Rightarrow> int \<Rightarrow> nat \<Rightarrow> nat \<Rightarrow> bool" where
  "granted root q frompid s e \<longleftrightarrow>
     e = s + qlength q - 1 \<and> request_align q dvd s
     \<and> (flag_set (qflags q) FLAG_RANGE \<longrightarrow> qstart q \<le> s \<and> e \<le> qend q)
     \<and> (\<exists>b \<in> set (active root). BLOCK_SHARE_COMPATABLE b (qflags q) frompid \<and> bstart b \<le> s \<and> e \<le> bend b)"

definition granted_saved :: "rsrc_root \<Rightarrow> rsrc_request \<Rightarrow> int \<Rightarrow> saved \<Rightarrow> bool" where
  "granted_saved root q frompid sv = (case sv of None \<Rightarrow> True | Some (s, e, p) \<Rightarrow> granted root q frompid s e)"

lemma offered_mono:
  "offered root q f (s, e) \<Longrightarrow> s' \<le> s \<Longrightarrow> e \<le> e' \<Longrightarrow> offered root q f (s', e')"
  unfolding offered_def fits_def lo_def hi_def request_search_def BLOCK_SHARE_COMPATABLE_def
  by (fastforce split: if_splits)

lemma search_range_ok:
  assumes ok: "root_ok root" and q: "0 < qlength q" "snd cur + request_align q < 2 ^ 64" and f: "2 ^ 64 \<le> fuel"
    and l: "granted_saved root q frompid lst"
  shows "\<exists>r. search_range fuel root q frompid td cur lst = Some r \<and> granted_saved root q frompid r
    \<and> (lst \<noteq> None \<or> offered root q frompid cur \<longrightarrow> r \<noteq> None)"
proof -
  let ?q = "request_search q frompid (fst cur) (snd cur)"
  have al: "salign ?q = request_align q" "0 < request_align q" "slength ?q = qlength q" "slimit_end ?q \<le> snd cur"
    "sflags ?q = qflags q" "sowner ?q = frompid"
    by (auto simp: request_search_def request_align_def)
  have sq: "search_ok ?q" "slimit_end ?q + 1 < fuel" using q f al by (auto simp: search_ok_def)
  obtain r where r: "rsrc_find_range fuel root ?q = Some r" "r = None \<longleftrightarrow> \<not> offered root q frompid cur"
    "r \<noteq> None \<longrightarrow> (\<exists>b \<in> set (active root). found root ?q b r)"
    using find_range_ok[OF sq, of root] ok unfolding root_ok_def offered_def by blast
  show ?thesis
  proof (cases r)
    case None
    then show ?thesis using r l by (auto simp: search_range_def)
  next
    case (Some t)
    obtain s e p where t: "t = (s, e, p)" by (cases t)
    obtain b where b: "b \<in> set (active root)" "fits ?q b s" "e = s + qlength q - 1"
      using r(3) Some t al by (auto simp: found_def)
    have "granted root q frompid s e"
      using b al unfolding granted_def fits_def
      by (auto simp: lo_def hi_def request_search_def BLOCK_SHARE_COMPATABLE_def intro!: bexI[of _ b] split: if_splits)
    then show ?thesis using r l Some t by (auto simp: search_range_def granted_saved_def improves_def split: option.splits)
  qed
qed

definition pending_offer :: "rsrc_root \<Rightarrow> rsrc_request \<Rightarrow> int \<Rightarrow> (nat \<times> nat) option \<Rightarrow> bool" where
  "pending_offer root q f cur = (case cur of None \<Rightarrow> False | Some x \<Rightarrow> offered root q f x)"

definition cur_ok :: "rsrc_request \<Rightarrow> (nat \<times> nat) option \<Rightarrow> bool" where
  "cur_ok q cur = (case cur of None \<Rightarrow> True | Some x \<Rightarrow> snd x + request_align q < 2 ^ 64)"

lemma request_loop_ok:
  assumes ok: "root_ok root" and q: "0 < qlength q" and f: "2 ^ 64 \<le> fuel"
    and cs: "\<forall>c \<in> set cs. cend c + request_align q < 2 ^ 64" and cur: "cur_ok q cur" and l: "granted_saved root q fp lst"
  shows "\<exists>cur' lst'. request_loop fuel root q fp path cs cur lst = Some (cur', lst')
    \<and> cur_ok q cur' \<and> granted_saved root q fp lst'
    \<and> (lst \<noteq> None \<or> pending_offer root q fp cur
         \<or> (\<exists>c \<in> set cs. wanted root path c \<and> offered root q fp (cstart c, cend c))
       \<longrightarrow> lst' \<noteq> None \<or> pending_offer root q fp cur')"
  using cs cur l
proof (induction cs arbitrary: cur lst)
  case (Cons c cs)
  have c: "cur_ok q (Some (cstart c, cend c))" and cs: "\<forall>c \<in> set cs. cend c + request_align q < 2 ^ 64"
    using Cons.prems by (auto simp: cur_ok_def)
  note IH = Cons.IH[OF cs]
  show ?case
  proof (cases "case lst of None \<Rightarrow> True | Some (_, _, p) \<Rightarrow> node_priority path \<le> p")
    case False
    then have "lst \<noteq> None" by (cases lst) auto
    then show ?thesis using Cons.prems False by simp
  next
    case go: True
    show ?thesis
    proof (cases "wanted root path c")
      case False
      then show ?thesis using IH[OF Cons.prems(2,3)] go by simp
    next
      case w: True
      show ?thesis
      proof (cases cur)
        case None
        then show ?thesis using IH[OF c Cons.prems(3)] go w by (simp add: pending_offer_def)
      next
        case (Some x)
        obtain s e where x: "x = (s, e)" by (cases x)
        have xe: "snd x + request_align q < 2 ^ 64" using Cons.prems(2) Some by (simp add: cur_ok_def)
        show ?thesis
        proof (cases "cstart c \<noteq> 0 \<and> e < cstart c - 1")
          case True
          obtain l1 where l1: "search_range fuel root q fp (flag_set (qflags q) FLAG_TOPDOWN) x lst = Some l1"
            "granted_saved root q fp l1" "lst \<noteq> None \<or> offered root q fp x \<longrightarrow> l1 \<noteq> None"
            using search_range_ok[OF ok q xe f Cons.prems(3)] by blast
          show ?thesis using IH[OF c l1(2)] go w Some x True l1(1,3) by (auto simp: pending_offer_def)
        next
          case False
          let ?m = "Some (min s (cstart c), max e (cend c))"
          have m: "cur_ok q ?m" using xe x c by (auto simp: cur_ok_def)
          have "offered root q fp (s, e) \<or> offered root q fp (cstart c, cend c) \<longrightarrow> pending_offer root q fp ?m"
            using offered_mono by (auto simp: pending_offer_def)
          then show ?thesis using IH[OF m Cons.prems(3)] go w Some x False by (auto simp: pending_offer_def)
        qed
      qed
    qed
  qed
qed (simp add: pending_offer_def)

lemma best_match_ok:
  assumes ok: "root_ok root" and q: "request_ok root q" and f: "2 ^ 64 \<le> fuel"
  shows "\<exists>r. best_match fuel root q fp path = Some r \<and> granted_saved root q fp r
    \<and> ((\<exists>c \<in> set (created root). wanted root path c \<and> offered root q fp (cstart c, cend c)) \<longrightarrow> r \<noteq> None)"
proof -
  have q1: "0 < qlength q" "\<forall>c \<in> set (created root). cend c + request_align q < 2 ^ 64" using q by (auto simp: request_ok_def)
  obtain cur lst where rl: "request_loop fuel root q fp path (created root) None None = Some (cur, lst)"
    "cur_ok q cur" "granted_saved root q fp lst"
    "(\<exists>c \<in> set (created root). wanted root path c \<and> offered root q fp (cstart c, cend c))
       \<longrightarrow> lst \<noteq> None \<or> pending_offer root q fp cur"
    using request_loop_ok[OF ok q1(1) f q1(2), of None fp None path]
    by (auto simp: cur_ok_def granted_saved_def pending_offer_def)
  show ?thesis
  proof (cases cur)
    case None
    then show ?thesis using rl by (auto simp: best_match_def pending_offer_def)
  next
    case (Some x)
    then have xe: "snd x + request_align q < 2 ^ 64" using rl by (simp add: cur_ok_def)
    obtain r where "search_range fuel root q fp False x lst = Some r" "granted_saved root q fp r"
      "lst \<noteq> None \<or> offered root q fp x \<longrightarrow> r \<noteq> None"
      using search_range_ok[OF ok q1(1) xe f rl(3)] by blast
    then show ?thesis using rl(1,4) Some by (auto simp: best_match_def pending_offer_def)
  qed
qed

end
