(* ===== verification/Rsrc_Db.thy ===== *)
theory Rsrc_Db
  imports Rsrc_Search
begin

text \<open>
  The database: names, roots, and the frame of an operation on one root.
\<close>

section \<open>The database\<close>

declare components.simps [simp del] rsrc_is_child.simps [simp del]

definition db_ok :: "rsrc_db \<Rightarrow> bool" where
  "db_ok db \<longleftrightarrow> distinct (map rname (g_rsrc_root db)) \<and> (\<forall>r \<in> set (g_rsrc_root db). root_ok r)"

text \<open>The root a name belongs to.\<close>

definition root_of :: "rsrc_db \<Rightarrow> string \<Rightarrow> rsrc_root option" where
  "root_of db name = root_find (g_rsrc_root db) (first_component name)"

lemma root_find_Some: "root_find rs nm = Some r \<Longrightarrow> r \<in> set rs \<and> rname r = nm"
  by (auto simp: root_find_def find_Some_iff)

lemma node_walk_lookup: "fst (node_walk mem ns path False) = ns"
proof (induction mem ns path False rule: node_walk.induct)
  case (3 mem n ns c cs)
  then show ?case by (cases n) (auto split: prod.splits)
qed auto

lemma root_update_same:
  assumes "distinct (map rname (g_rsrc_root db))" "r \<in> set (g_rsrc_root db)"
  shows "root_update db r = db"
proof -
  have "r' = r" if "r' \<in> set (g_rsrc_root db)" "rname r' = rname r" for r'
    using assms that by (auto simp: distinct_map inj_on_def)
  then have "map (\<lambda>r'. if rname r' = rname r then r else r') (g_rsrc_root db) = g_rsrc_root db"
    by (intro map_idI) auto
  then show ?thesis by (simp add: root_update_def)
qed

lemma set_errno_roots [simp]: "g_rsrc_root (set_errno e db) = g_rsrc_root db"
  by (simp add: set_errno_def split: option.split)

lemma node_locate_lookup:
  assumes ok: "db_ok db" and nl: "rsrc_node_locate mem db name False = (db1, res)"
  shows "g_rsrc_root db1 = g_rsrc_root db" "res \<noteq> None \<Longrightarrow> \<exists>root. root_of db name = Some root"
    "root_of db name = None \<Longrightarrow> res = None \<and> errno db1 = EINVAL"
proof -
  have "g_rsrc_root db1 = g_rsrc_root db \<and> (res \<noteq> None \<longrightarrow> (\<exists>root. root_of db name = Some root))
    \<and> (root_of db name = None \<longrightarrow> res = None \<and> errno db1 = EINVAL)"
  proof (cases "root_of db name")
    case None
    then show ?thesis using nl by (auto simp: rsrc_node_locate_def rsrc_root_locate_def root_of_def)
  next
    case (Some r)
    have r: "r \<in> set (g_rsrc_root db)" using Some root_find_Some by (auto simp: root_of_def)
    have same: "root_update db r = db" using root_update_same ok r by (auto simp: db_ok_def)
    define rest where "rest = skip_slashes (drop (length (first_component name)) name)"
    obtain ns k e where nw: "node_walk mem (rchild r) (components rest) False = (ns, k, e)"
      by (cases "node_walk mem (rchild r) (components rest) False")
    have "ns = rchild r" using node_walk_lookup[of mem "rchild r" "components rest"] nw by simp
    then have r1: "r\<lparr>rchild := ns\<rparr> = r" by simp
    have "rsrc_node_locate mem db name False = (if rest = [] then (db, Some []) else if components rest = [] then (db, None)
        else (set_errno e db, if k then Some (components rest) else None))"
      using Some nw r1 same
      by (simp add: rsrc_node_locate_def rsrc_root_locate_def root_of_def rest_def[symmetric] Let_def)
    then show ?thesis using nl Some by (auto split: if_splits)
  qed
  then show "g_rsrc_root db1 = g_rsrc_root db" "res \<noteq> None \<Longrightarrow> \<exists>root. root_of db name = Some root"
    "root_of db name = None \<Longrightarrow> res = None \<and> errno db1 = EINVAL" by auto
qed

lemma root_find_update:
  assumes "root_find rs nm = Some r" "rname r' = nm"
  shows "root_find (map (\<lambda>x. if rname x = nm then r' else x) rs) nm' = (if nm' = nm then Some r' else root_find rs nm')"
proof (cases "nm' = nm")
  case True
  then show ?thesis using assms by (induction rs) (auto simp: root_find_def)
next
  case False
  then show ?thesis using assms(2) by (induction rs) (auto simp: root_find_def)
qed

lemma update_names: "map rname (g_rsrc_root (root_update db r)) = map rname (g_rsrc_root db)"
  by (simp add: root_update_def)

lemma db_ok_update: "db_ok db \<Longrightarrow> root_ok r \<Longrightarrow> db_ok (root_update db r)"
  unfolding db_ok_def update_names by (auto simp: root_update_def)

text \<open>What an operation on one root leaves of the database.\<close>

lemma root_of_update:
  assumes "root_of db name = Some r" "rname r' = rname r"
  shows "root_of (root_update db r') name = Some r'"
    "first_component nm \<noteq> first_component name \<Longrightarrow> root_of (root_update db r') nm = root_of db nm"
  using root_find_update[of "g_rsrc_root db" "first_component name" r r'] root_find_Some[of "g_rsrc_root db" "first_component name" r] assms
  by (simp_all add: root_of_def root_update_def)

lemma search_op_lookup:
  assumes ok: "db_ok db" and nm: "qname q = Some name" and nl: "rsrc_node_locate True db name False = (db1, Some path)"
    and rng: "flag_set (qflags q) FLAG_RANGE \<longrightarrow> qstart q \<le> qend q"
    and look: "\<not> flag_set flags FLAG_ATTACH_DONTLOOK" and root: "root_of db name = Some root"
  shows "rsrc_block_search_op fuel True db q pid flags =
    (case best_match fuel root q (if flag_set flags FLAG_ATTACH_RMFROMPID then pid else 0) path of
       None \<Rightarrow> None | Some None \<Rightarrow> Some (db1, EINVAL, q, 0)
     | Some (Some (s, e, p)) \<Rightarrow> Some (root_update db1 (apply_match True root q pid flags s e), EOK, q\<lparr>qstart := s, qend := e\<rparr>, p))"
proof -
  note n = node_locate_lookup[OF ok nl]
  have "rsrc_root_locate True db1 name False = (db1, Some root)"
    using root n(1) by (simp add: rsrc_root_locate_def root_of_def)
  then show ?thesis using nm nl rng look by (auto simp: rsrc_block_search_op_def)
qed

lemma granted_range:
  assumes ok: "root_ok root" and g: "granted root q fp s e" and q: "0 < qlength q" "\<not> flag_set (qflags q) FLAG_SHARE"
  shows "s \<le> e" "e + 1 < 2 ^ 64" "\<forall>x \<in> {s..e}. hold root x = Some fp"
proof -
  obtain b where b: "b \<in> set (active root)" "bowner b = fp" "bstart b \<le> s" "e \<le> bend b"
    using g q(2) by (auto simp: granted_def BLOCK_SHARE_COMPATABLE_def)
  show "s \<le> e" using g q(1) by (simp add: granted_def)
  show "e + 1 < 2 ^ 64" using ok b by (auto simp: root_ok_def blocks_ok_def block_ok_def)
  have "x \<in> pts (active root) fp" if "x \<in> {s..e}" for x using b that by (auto simp: in_pts)
  then show "\<forall>x \<in> {s..e}. hold root x = Some fp" using ok by (simp add: hold_def root_ok_def holder_iff)
qed

lemma root_of_ok: "db_ok db \<Longrightarrow> root_of db name = Some root \<Longrightarrow> root_ok root"
  using root_find_Some by (auto simp: db_ok_def root_of_def)

lemma root_of_roots: "g_rsrc_root db1 = g_rsrc_root db \<Longrightarrow> root_of db1 = root_of db"
  by (simp add: root_of_def fun_eq_iff)

lemma db_ok_roots: "g_rsrc_root db1 = g_rsrc_root db \<Longrightarrow> db_ok db1 = db_ok db"
  by (simp add: db_ok_def)

text \<open>What a request that looks for a range does to the database, whichever way the range goes.\<close>

definition request_post :: "rsrc_db \<Rightarrow> rsrc_request \<Rightarrow> string \<Rightarrow> string list \<Rightarrow> rsrc_root \<Rightarrow> int
    \<Rightarrow> (nat set \<Rightarrow> nat \<Rightarrow> int option) \<Rightarrow> rsrc_db \<times> nat \<times> rsrc_request \<times> nat \<Rightarrow> bool" where
  "request_post db q name path root frompid moved res =
     (case res of (db', st, q', p) \<Rightarrow>
        db_ok db'
        \<and> (if st = EOK then
             granted root q frompid (qstart q') (qend q')
             \<and> (\<forall>x \<in> {qstart q'..qend q'}. hold root x = Some frompid)
             \<and> (\<exists>root'. root_of db' name = Some root' \<and> created root' = created root
                  \<and> hold root' = moved {qstart q'..qend q'} \<and> (accounted root \<longrightarrow> accounted root'))
             \<and> (\<forall>nm. first_component nm \<noteq> first_component name \<longrightarrow> root_of db' nm = root_of db nm)
           else st = EINVAL \<and> g_rsrc_root db' = g_rsrc_root db \<and> q' = q
             \<and> \<not> (\<exists>c \<in> set (created root). wanted root path c \<and> offered root q frompid (cstart c, cend c))))"

lemma request_ok_post:
  assumes ok: "db_ok db" and nm: "qname q = Some name" and nl: "rsrc_node_locate True db name False = (db1, Some path)"
    and root: "root_of db name = Some root" and q: "request_ok root q" "\<not> flag_set (qflags q) FLAG_SHARE"
    and rng: "flag_set (qflags q) FLAG_RANGE \<longrightarrow> qstart q \<le> qend q" and fuel: "2 ^ 64 \<le> fuel"
    and look: "\<not> flag_set flags FLAG_ATTACH_DONTLOOK"
    and fp: "fp = (if flag_set flags FLAG_ATTACH_RMFROMPID then pid else 0)"
    and op: "\<And>s e r'. s \<le> e \<Longrightarrow> e + 1 < 2 ^ 64 \<Longrightarrow> \<forall>x \<in> {s..e}. hold root x = Some fp \<Longrightarrow>
       r' = apply_match True root q pid flags s e \<Longrightarrow>
       root_ok r' \<and> created r' = created root \<and> rname r' = rname root \<and> hold r' = moved {s..e}
       \<and> (accounted root \<longrightarrow> accounted r')"
  shows "\<exists>res. rsrc_block_search_op fuel True db q pid flags = Some res
    \<and> request_post db q name path root fp moved res"
proof -
  note okr = root_of_ok[OF ok root] and n = node_locate_lookup(1)[OF ok nl]
  note so = search_op_lookup[OF ok nm nl rng look root, of fuel pid, folded fp]
  obtain r where r: "best_match fuel root q fp path = Some r" "granted_saved root q fp r"
    "(\<exists>c \<in> set (created root). wanted root path c \<and> offered root q fp (cstart c, cend c)) \<longrightarrow> r \<noteq> None"
    using best_match_ok[OF okr q(1) fuel, of fp path] by blast
  show ?thesis
  proof (cases r)
    case None
    then show ?thesis using so r n ok db_ok_roots[OF n] by (simp add: request_post_def EOK_def EINVAL_def)
  next
    case (Some t)
    obtain s e p where t: "t = (s, e, p)" by (cases t)
    have g: "granted root q fp s e" using r(2) Some t by (simp add: granted_saved_def)
    have "0 < qlength q" using q(1) by (simp add: request_ok_def)
    note gr = granted_range[OF okr g this q(2)]
    define r' where "r' = apply_match True root q pid flags s e"
    note o = op[OF gr r'_def]
    have root1: "root_of db1 name = Some root" using root root_of_roots[OF n] by simp
    have "db_ok (root_update db1 r')" using db_ok_update ok o db_ok_roots[OF n] by blast
    then have "request_post db q name path root fp moved (root_update db1 r', EOK, q\<lparr>qstart := s, qend := e\<rparr>, p)"
      using g gr o root_of_update[OF root1, of r'] root_of_roots[OF n] by (auto simp: request_post_def)
    then show ?thesis using so r Some t by (simp add: r'_def)
  qed
qed

text \<open>The lists of the root of a name, empty while there is none.\<close>

definition lists_of :: "rsrc_db \<Rightarrow> string \<Rightarrow> rsrc_create list \<times> rsrc_block list" where
  "lists_of db name = (case root_of db name of None \<Rightarrow> ([], []) | Some r \<Rightarrow> (created r, active r))"

lemma root_locate_create:
  assumes ok: "db_ok db"
  shows "\<exists>db1 r. rsrc_root_locate True db name True = (db1, Some r) \<and> db_ok db1 \<and> root_of db1 name = Some r
    \<and> (created r, active r) = lists_of db name
    \<and> (\<forall>nm. first_component nm \<noteq> first_component name \<longrightarrow> root_of db1 nm = root_of db nm)"
proof (cases "root_of db name")
  case (Some r)
  then show ?thesis using ok by (auto simp: rsrc_root_locate_def lists_of_def root_of_def)
next
  case None
  then have "\<forall>r \<in> set (g_rsrc_root db). rname r \<noteq> first_component name"
    by (auto simp: root_of_def root_find_def find_None_iff)
  then show ?thesis using ok None
    by (auto simp: rsrc_root_locate_def lists_of_def root_of_def root_find_def db_ok_def new_root_def root_ok_def Let_def)
qed

lemma node_locate_create:
  assumes ok: "db_ok db" and nl: "rsrc_node_locate True db name True = (db1, Some path)"
  shows "\<exists>r. db_ok db1 \<and> root_of db1 name = Some r \<and> (created r, active r) = lists_of db name
    \<and> (\<forall>nm. first_component nm \<noteq> first_component name \<longrightarrow> root_of db1 nm = root_of db nm)"
proof -
  obtain db2 r where r: "rsrc_root_locate True db name True = (db2, Some r)" "db_ok db2" "root_of db2 name = Some r"
    "(created r, active r) = lists_of db name"
    "\<forall>nm. first_component nm \<noteq> first_component name \<longrightarrow> root_of db2 nm = root_of db nm"
    using root_locate_create[OF ok] by blast
  define rest where "rest = skip_slashes (drop (length (first_component name)) name)"
  show ?thesis
  proof (cases "rest = []")
    case True
    then show ?thesis using nl r by (auto simp: rsrc_node_locate_def Let_def rest_def)
  next
    case False
    obtain ns k e where nw: "node_walk True (rchild r) (components rest) True = (ns, k, e)"
      by (cases "node_walk True (rchild r) (components rest) True")
    let ?r = "r\<lparr>rchild := ns\<rparr>"
    have eq: "g_rsrc_root db1 = g_rsrc_root (root_update db2 ?r)"
      using nl r(1) False nw by (auto simp: rsrc_node_locate_def Let_def rest_def[symmetric] split: if_splits)
    have "root_ok ?r" using root_of_ok[OF r(2,3)] by (simp add: root_ok_def)
    then have "db_ok db1" using db_ok_update[OF r(2)] db_ok_roots[OF eq] by blast
    then show ?thesis using root_of_update[OF r(3), of ?r] r(4,5) root_of_roots[OF eq] by auto
  qed
qed

lemma destroy_root_ok:
  assumes ok: "root_ok r" and se: "s \<le> e" "e + 1 < 2 ^ 64" and d: "destroy_post (created r) s e path pid cs'"
    and r1: "r1 = fst (rsrc_block_limit_op (r\<lparr>created := cs'\<rparr>) s e None (Some (remove_callout True)))"
  shows "root_ok r1" "created r1 = cs'" "rname r1 = rname r"
    "hold r1 = (\<lambda>x. if x \<in> {s..e} - cov cs' \<and> hold r x = Some 0 then None else hold r x)"
proof -
  define ps where "ps = limit_pieces cs' s e"
  have okc: "creates_ok cs'" "blocks_ok (active (r\<lparr>created := cs'\<rparr>))" using ok d by (auto simp: root_ok_def destroy_post_def)
  note lp = limit_pieces_ok[OF okc(1), of s e, folded ps_def]
  have e: "e < 2 ^ 64" using se by simp
  obtain bs where bs: "fst (run_ranges (remove_callout True) (nons ps) (r\<lparr>created := cs'\<rparr>, EOK)) = r\<lparr>created := cs', active := bs\<rparr>"
    "blocks_ok bs" "holder bs = (\<lambda>x. if x \<in> {s..e} - cov cs' \<and> hold r x = Some 0 then None else hold r x)"
    using run_remove_ok[OF okc(2) nons_in[OF lp(3)] e, of EOK]
    by (auto simp: nons_pts lp(2) hold_def cong: if_cong)
  have eq: "r1 = r\<lparr>created := cs', active := bs\<rparr>"
    using bs(1) by (simp add: r1 rsrc_block_limit_op_def fold_nons ps_def)
  show "root_ok r1" "created r1 = cs'" "rname r1 = rname r" using bs(2) okc by (simp_all add: eq root_ok_def)
  show "hold r1 = (\<lambda>x. if x \<in> {s..e} - cov cs' \<and> hold r x = Some 0 then None else hold r x)"
    unfolding eq by (simp add: bs(3) hold_def cong: if_cong)
qed

lemma destroy_post_cov:
  assumes "destroy_post cs s e path pid cs'"
  shows "cov cs' \<subseteq> cov cs" "cov cs - {s..e} \<subseteq> cov cs'"
proof -
  have split: "cov ds = cov (filter P ds) \<union> cov (filter (\<lambda>c. \<not> P c) ds)" for ds P by (auto simp: cov_def)
  show "cov cs' \<subseteq> cov cs" "cov cs - {s..e} \<subseteq> cov cs'"
    using assms split[of cs "mine path pid"] split[of cs' "mine path pid"] by (auto simp: destroy_post_def)
qed

end
