(* ===== verification/Rsrc_Props.thy ===== *)
theory Rsrc_Props
  imports Rsrc_Db
begin

text \<open>
  The properties of the resource database, with the concrete database its witnesses use.
\<close>

section \<open>A concrete database\<close>

definition irq_alloc :: rsrc_alloc where
  "irq_alloc = \<lparr>astart = 0, aend = 9, aflags = 0, aname = Some ''irq''\<rparr>"

definition irq_request :: rsrc_request where
  "irq_request = \<lparr>qlength = 10, qalign = 0, qstart = 0, qend = 9, qflags = FLAG_RANGE, qname = Some ''irq''\<rparr>"

abbreviation irq_node :: "rsrc_create list \<Rightarrow> rsrc_block list \<Rightarrow> rsrc_root" where
  "irq_node cs bs \<equiv> \<lparr>rname = ''irq'', rchild = [], created = cs, active = bs\<rparr>"

definition irq_db :: "rsrc_create list \<Rightarrow> rsrc_block list \<Rightarrow> rsrc_db" where
  "irq_db cs bs = \<lparr>g_rsrc_root = [irq_node cs bs], errno = 0\<rparr>"

definition irq_entry :: rsrc_create where
  "irq_entry = \<lparr>cstart = 0, cend = 9, cflags = 0, ccreator = 1, cnode = []\<rparr>"

definition blk :: "nat \<Rightarrow> nat \<Rightarrow> int \<Rightarrow> rsrc_block" where
  "blk s e pid = \<lparr>bstart = s, bend = e, bowner = pid, bflags = 0\<rparr>"

lemma irq_locate: "rsrc_node_locate True (irq_db cs bs) ''irq'' c = (irq_db cs bs, Some [])"
  "rsrc_root_locate True (irq_db cs bs) ''irq'' c = (irq_db cs bs, Some (irq_node cs bs))"
  by (simp_all add: irq_db_def first_component_def skip_slashes_def root_find_def rsrc_root_locate_def rsrc_node_locate_def Let_def)

text \<open>The database with one created range that is free or held as a whole.\<close>

lemma irq_db_ok: "db_ok (irq_db [irq_entry] [blk 0 9 pid])"
  by (simp add: db_ok_def irq_db_def root_ok_def irq_entry_def blk_def block_ok_def)

lemma irq_root: "root_of (irq_db cs bs) ''irq'' = Some (irq_node cs bs)"
  by (simp add: root_of_def root_find_def irq_db_def first_component_def)

lemma irq_request_fits: "request_ok (irq_node [irq_entry] bs) irq_request"
  by (simp add: request_ok_def irq_request_def irq_entry_def request_align_def flag_set_def FLAG_ALIGN_def FLAG_RANGE_def)

lemma irq_request_flags: "qname irq_request = Some ''irq''" "\<not> flag_set (qflags irq_request) FLAG_SHARE" "qstart irq_request \<le> qend irq_request"
  by (simp_all add: irq_request_def flag_set_def FLAG_RANGE_def FLAG_SHARE_def)

section \<open>Attach and detach\<close>

text \<open>
  (C2) Attaching is exclusive. On a well-formed database, for a request without the share flag on
  an existing node, \<open>_rsrcdbmgr_attach\<close> returns (the search ends). With \<open>EOK\<close> the range it reports
  has the length and alignment asked for, lies in the requested window and was free as a whole;
  afterwards exactly this range belongs to the process, every other point has the holder it had,
  the created ranges and all other roots are as before, and the accounts of the root still balance.
  Otherwise it returns \<open>EINVAL\<close>, the lists are unchanged, and no created range of the node had room.
\<close>

theorem attach_exclusive:
  assumes "db_ok db" "qname q = Some name" "rsrc_node_locate True db name False = (db1, Some path)"
    and "root_of db name = Some root" "request_ok root q" "\<not> flag_set (qflags q) FLAG_SHARE"
    and "flag_set (qflags q) FLAG_RANGE \<longrightarrow> qstart q \<le> qend q" "2 ^ 64 \<le> fuel"
  shows "\<exists>res. rsrcdbmgr_attach fuel True db q pid = Some res
    \<and> request_post db q name path root 0 (\<lambda>R x. if x \<in> R then Some pid else hold root x) res"
proof -
  have okr: "root_ok root" using assms(1,4) by (rule root_of_ok)
  have op: "root_ok r' \<and> created r' = created root \<and> rname r' = rname root
      \<and> hold r' = (\<lambda>x. if x \<in> {s..e} then Some pid else hold root x) \<and> (accounted root \<longrightarrow> accounted r')"
    if "s \<le> e" "e + 1 < 2 ^ 64" "\<forall>x \<in> {s..e}. hold root x = Some 0" "r' = apply_match True root q pid FLAG_ATTACH_RMTOPID s e" for s e r'
    using attach_root_ok[OF okr that] rb.grab_balanced[OF _ that(1-3), of q] okr that(4) by (simp add: balanced_root)
  show ?thesis unfolding rsrcdbmgr_attach_def by (rule request_ok_post[OF assms], simp, simp, erule (3) op)
qed

theorem attach_witness:
  "\<exists>res. rsrcdbmgr_attach (2 ^ 64) True (irq_db [irq_entry] [blk 0 9 0]) irq_request 5 = Some res
    \<and> request_post (irq_db [irq_entry] [blk 0 9 0]) irq_request ''irq'' []
        (irq_node [irq_entry] [blk 0 9 0]) 0
        (\<lambda>R x. if x \<in> R then Some 5 else hold (irq_node [irq_entry] [blk 0 9 0]) x) res"
  by (rule attach_exclusive[OF irq_db_ok irq_request_flags(1) irq_locate(1) irq_root irq_request_fits irq_request_flags(2)])
    (simp_all add: irq_request_flags)

text \<open>
  (C21) Detaching gives back. Under the same conditions \<open>_rsrcdbmgr_detach\<close> returns; with \<open>EOK\<close> the
  range it reports was held by the process as a whole, its points become free where a created range
  covers them and leave the list where none does, and nothing else changes.
\<close>

theorem detach_exclusive:
  assumes "db_ok db" "qname q = Some name" "rsrc_node_locate True db name False = (db1, Some path)"
    and "root_of db name = Some root" "request_ok root q" "\<not> flag_set (qflags q) FLAG_SHARE"
    and "flag_set (qflags q) FLAG_RANGE \<longrightarrow> qstart q \<le> qend q" "2 ^ 64 \<le> fuel"
  shows "\<exists>res. rsrcdbmgr_detach fuel True db q pid = Some res
    \<and> request_post db q name path root pid
        (\<lambda>R x. if x \<in> R then if x \<in> cov (created root) then Some 0 else None else hold root x) res"
proof -
  have okr: "root_ok root" using assms(1,4) by (rule root_of_ok)
  have op: "root_ok r' \<and> created r' = created root \<and> rname r' = rname root
      \<and> hold r' = (\<lambda>x. if x \<in> {s..e} then if x \<in> cov (created root) then Some 0 else None else hold root x) \<and> (accounted root \<longrightarrow> accounted r')"
    if "s \<le> e" "e + 1 < 2 ^ 64" "\<forall>x \<in> {s..e}. hold root x = Some pid" "r' = apply_match True root q pid FLAG_ATTACH_RMFROMPID s e" for s e r'
    using detach_root_ok[OF okr that] rb.release_balanced[OF _ that(1-3), of q] okr that(4) by (simp add: balanced_root)
  show ?thesis unfolding rsrcdbmgr_detach_def by (rule request_ok_post[OF assms], simp, simp, erule (3) op)
qed

theorem detach_witness:
  "\<exists>res. rsrcdbmgr_detach (2 ^ 64) True (irq_db [irq_entry] [blk 0 9 5]) irq_request 5 = Some res
    \<and> request_post (irq_db [irq_entry] [blk 0 9 5]) irq_request ''irq'' []
        (irq_node [irq_entry] [blk 0 9 5]) 5
        (\<lambda>R x. if x \<in> R then if x \<in> cov [irq_entry] then Some 0 else None
               else hold (irq_node [irq_entry] [blk 0 9 5]) x) res"
  using detach_exclusive[OF irq_db_ok irq_request_flags(1) irq_locate(1) irq_root irq_request_fits irq_request_flags(2),
      of "2 ^ 64" 5 5] by (simp add: irq_request_flags cong: if_cong)

text \<open>
  (C29) Attach and detach of a free range are inverse: on a root whose accounts balance, assigning a
  free range to a process and removing it from the process again restores every holder, and the
  accounts balance after both steps.
\<close>

theorem attach_detach_roundtrip:
  assumes "root_ok r" "accounted r" "s \<le> e" "e + 1 < 2 ^ 64" "\<forall>x \<in> {s..e}. hold r x = Some 0"
    and "r1 = apply_match True r q pid FLAG_ATTACH_RMTOPID s e"
  shows "root_ok r1 \<and> accounted r1 \<and> hold (apply_match True r1 q pid FLAG_ATTACH_RMFROMPID s e) = hold r
    \<and> root_ok (apply_match True r1 q pid FLAG_ATTACH_RMFROMPID s e)
    \<and> accounted (apply_match True r1 q pid FLAG_ATTACH_RMFROMPID s e)"
  using rb.grab_release[where q = q and pid = pid, of r s e] rb.grab_balanced[where q = q and pid = pid, of r s e] assms by (simp add: balanced_root)

theorem attach_detach_witness:
  "hold (apply_match True (apply_match True (irq_node [irq_entry] [blk 0 9 0])
      irq_request 5 FLAG_ATTACH_RMTOPID 2 4) irq_request 5 FLAG_ATTACH_RMFROMPID 2 4)
   = hold (irq_node [irq_entry] [blk 0 9 0])"
proof -
  let ?r = "(irq_node [irq_entry] [blk 0 9 0])"
  have "root_ok ?r" "accounted ?r" "\<forall>x \<in> {2..4}. hold ?r x = Some 0"
    by (auto simp: root_ok_def irq_entry_def blk_def block_ok_def accounted_def hold_def holder_def)
  from attach_detach_roundtrip[OF this(1,2) _ _ this(3) refl, of irq_request 5] show ?thesis by simp
qed

section \<open>Create and destroy\<close>

text \<open>
  (C19) Creating a range makes exactly its new points free. On a well-formed database, with a name
  that can be resolved and no process holding a point of the range that is not created yet,
  \<open>_rsrcdbmgr_create\<close> returns \<open>EOK\<close>, the entry is in the created list, the points that no earlier
  range covered become free, every other holder is unchanged, the accounts of the root balance if
  they did before, and the other roots are untouched.
\<close>

theorem create_adds_free:
  assumes ok: "db_ok db" and a: "aname a = Some name" "astart a \<le> aend a" "aend a + 1 < 2 ^ 64"
    and nl: "rsrc_node_locate True db name True = (db1, Some path)" and l: "lists_of db name = (cs, bs)"
    and free: "\<forall>x \<in> {astart a..aend a} - cov cs. holder bs x \<in> {None, Some 0}"
  shows "\<exists>db' root'. rsrcdbmgr_create True True db a pid = (db', EOK) \<and> db_ok db' \<and> root_of db' name = Some root'
    \<and> created root' = rsrc_insert_create cs \<lparr>cstart = astart a, cend = aend a, cflags = aflags a mod 2 ^ 16,
                                           ccreator = creator_pid a pid, cnode = path\<rparr>
    \<and> hold root' = (\<lambda>x. if x \<in> {astart a..aend a} - cov cs \<and> holder bs x = None then Some 0 else holder bs x)
    \<and> ((\<forall>x. x \<in> cov cs \<longleftrightarrow> holder bs x \<noteq> None) \<longrightarrow> accounted root')
    \<and> (\<forall>nm. first_component nm \<noteq> first_component name \<longrightarrow> root_of db' nm = root_of db nm)"
proof -
  obtain r where r: "db_ok db1" "root_of db1 name = Some r" "created r = cs" "active r = bs"
    "\<forall>nm. first_component nm \<noteq> first_component name \<longrightarrow> root_of db1 nm = root_of db nm"
    using node_locate_create[OF ok nl] l by auto
  define c where "c = \<lparr>cstart = astart a, cend = aend a, cflags = aflags a mod 2 ^ 16, ccreator = creator_pid a pid, cnode = path\<rparr>"
  define r' where "r' = create_in_root True r c"
  have "rsrc_root_locate True db1 name False = (db1, Some r)" using r(2) by (simp add: rsrc_root_locate_def root_of_def)
  then have eq: "rsrcdbmgr_create True True db a pid = (root_update db1 r', EOK)"
    using a nl by (simp add: rsrcdbmgr_create_def r'_def c_def)
  have pre: "cstart c \<le> cend c" "cend c + 1 < 2 ^ 64"
    "\<forall>x \<in> {cstart c..cend c} - cov (created r). hold r x \<in> {None, Some 0}"
    using a free r by (auto simp: c_def hold_def)
  note cr = create_root_ok[OF root_of_ok[OF r(1,2)] pre, folded r'_def]
  have okc: "creates_ok cs" using root_of_ok[OF r(1,2)] r(3) by (simp add: root_ok_def)
  have cv: "cov (created r') = {astart a..aend a} \<union> cov cs"
    unfolding cr(3) r(3) using insert_create_ok(2)[OF okc pre(1,2)] by (simp add: cov_def c_def)
  have h: "hold r' = (\<lambda>x. if x \<in> {astart a..aend a} - cov cs \<and> holder bs x = None then Some 0 else holder bs x)"
    using cr(2) r by (simp add: c_def hold_def cong: if_cong)
  have acc: "(\<forall>x. x \<in> cov cs \<longleftrightarrow> holder bs x \<noteq> None) \<longrightarrow> accounted r'"
    by (auto simp: accounted_def cv h)
  show ?thesis
    using eq db_ok_update[OF r(1) cr(1)] root_of_update[OF r(2) cr(4)] h acc cr(3) r(3,5) by (simp add: c_def)
qed

theorem create_witness:
  "\<exists>db' root'. rsrcdbmgr_create True True (irq_db [] []) irq_alloc 1 = (db', EOK) \<and> root_of db' ''irq'' = Some root'
    \<and> hold root' 7 = Some 0 \<and> hold root' 10 = None"
proof -
  have db: "db_ok (irq_db [] [])" by (simp add: db_ok_def irq_db_def root_ok_def)
  have l: "lists_of (irq_db [] []) ''irq'' = ([], [])" by (simp add: lists_of_def irq_root)
  have a: "aname irq_alloc = Some ''irq''" "astart irq_alloc \<le> aend irq_alloc" "aend irq_alloc + 1 < 2 ^ 64"
    "astart irq_alloc = 0" "aend irq_alloc = 9"
    by (simp_all add: irq_alloc_def)
  show ?thesis using create_adds_free[OF db a(1-3) irq_locate(1) l, of 1] by (auto simp: holder_def a(4,5))
qed

text \<open>
  (C20) Destroying a range withdraws it. \<open>_rsrcdbmgr_destroy\<close> on an existing node returns \<open>EOK\<close>; the
  entries of the caller at that node lose exactly the points of the range, the entries of others
  are untouched, the free points of the range that nothing covers any more leave the list, and
  every point a process holds stays with it. The accounts stay balanced when no process holds a
  point of the range.
\<close>

theorem destroy_withdraws:
  assumes ok: "db_ok db" and a: "aname a = Some name" "astart a \<le> aend a" "aend a + 1 < 2 ^ 64"
    and nl: "rsrc_node_locate True db name False = (db1, Some path)" and root: "root_of db name = Some root"
  shows "\<exists>db' root'. rsrcdbmgr_destroy True db a pid = (db', EOK) \<and> db_ok db' \<and> root_of db' name = Some root'
    \<and> destroy_post (created root) (astart a) (aend a) path (creator_pid a pid) (created root')
    \<and> hold root' = (\<lambda>x. if x \<in> {astart a..aend a} - cov (created root') \<and> hold root x = Some 0 then None else hold root x)
    \<and> (accounted root \<and> (\<forall>x \<in> {astart a..aend a}. hold root x \<in> {None, Some 0}) \<longrightarrow> accounted root')
    \<and> (\<forall>nm. first_component nm \<noteq> first_component name \<longrightarrow> root_of db' nm = root_of db nm)"
proof -
  note n = node_locate_lookup(1)[OF ok nl]
  have okr: "root_ok root" by (rule root_of_ok[OF ok root])
  then have okc: "creates_ok (created root)" by (simp add: root_ok_def)
  obtain cs' where d: "destroy_loop True (created root) (astart a) (aend a) path (creator_pid a pid) = (cs', True)"
    "destroy_post (created root) (astart a) (aend a) path (creator_pid a pid) cs'"
    using destroy_loop_ok[OF okc a(2,3)] by blast
  define r1 where "r1 = fst (rsrc_block_limit_op (root\<lparr>created := cs'\<rparr>) (astart a) (aend a) None (Some (remove_callout True)))"
  note dr = destroy_root_ok[OF okr a(2,3) d(2) r1_def]
  have root1: "root_of db1 name = Some root" using root root_of_roots[OF n] by simp
  then have eq: "rsrcdbmgr_destroy True db a pid = (root_update db1 r1, EOK)"
    using a nl d(1) by (simp add: rsrcdbmgr_destroy_def r1_def rsrc_root_locate_def root_of_def)
  have "db_ok (root_update db1 r1)" using db_ok_update[OF _ dr(1)] ok db_ok_roots[OF n] by blast
  moreover have "accounted root \<and> (\<forall>x \<in> {astart a..aend a}. hold root x \<in> {None, Some 0}) \<longrightarrow> accounted r1"
    using destroy_post_cov[OF d(2)] unfolding accounted_def dr(2,4) by auto (metis Diff_iff in_mono option.distinct(1) option.inject)
  ultimately show ?thesis
    using eq dr d(2) root_of_update[OF root1 dr(3)] root_of_roots[OF n] by auto
qed

theorem destroy_witness:
  "\<exists>db' root'. rsrcdbmgr_destroy True (irq_db [irq_entry] [blk 0 9 0]) irq_alloc 1 = (db', EOK) \<and> root_of db' ''irq'' = Some root'
    \<and> hold root' 12 = None"
proof -
  have a: "aname irq_alloc = Some ''irq''" "astart irq_alloc \<le> aend irq_alloc" "aend irq_alloc + 1 < 2 ^ 64"
    by (simp_all add: irq_alloc_def)
  have h: "hold (irq_node [irq_entry] [blk 0 9 0]) 12 = None" by (simp add: hold_def holder_def blk_def)
  obtain db' root' where "rsrcdbmgr_destroy True (irq_db [irq_entry] [blk 0 9 0]) irq_alloc 1 = (db', EOK)"
    "root_of db' ''irq'' = Some root'"
    "hold root' = (\<lambda>x. if x \<in> {astart irq_alloc..aend irq_alloc} - cov (created root')
        \<and> hold (irq_node [irq_entry] [blk 0 9 0]) x = Some 0 then None else hold (irq_node [irq_entry] [blk 0 9 0]) x)"
    using destroy_withdraws[OF irq_db_ok[of 0] a irq_locate(1) irq_root, where pid = 1] by blast
  then show ?thesis using h by auto
qed

text \<open>A class of resources without ranges, beside other classes, and one range of it.\<close>

abbreviation class_node :: "string \<Rightarrow> rsrc_node list \<Rightarrow> rsrc_create list \<Rightarrow> rsrc_block list \<Rightarrow> rsrc_root" where
  "class_node nm ks cs bs \<equiv> \<lparr>rname = nm, rchild = ks, created = cs, active = bs\<rparr>"

definition class_db :: "string \<Rightarrow> rsrc_node list \<Rightarrow> nat \<Rightarrow> rsrc_root list \<Rightarrow> rsrc_create list \<Rightarrow> rsrc_block list \<Rightarrow> rsrc_db" where
  "class_db nm ks er rs cs bs = \<lparr>g_rsrc_root = class_node nm ks cs bs # rs, errno = er\<rparr>"

definition class_ok :: "string \<Rightarrow> rsrc_root list \<Rightarrow> bool" where
  "class_ok nm rs \<longleftrightarrow> CHR ''/'' \<notin> set nm \<and> nm \<notin> rname ` set rs"

lemma class_locate:
  assumes "class_ok nm rs"
  shows "rsrc_node_locate True (class_db nm ks er rs cs bs) nm c = (class_db nm ks er rs cs bs, Some [])"
    "rsrc_root_locate True (class_db nm ks er rs cs bs) nm c = (class_db nm ks er rs cs bs, Some (class_node nm ks cs bs))"
proof -
  have "first_component nm = nm" using assms by (auto simp: class_ok_def first_component_def takeWhile_eq_all_conv)
  then show "rsrc_node_locate True (class_db nm ks er rs cs bs) nm c = (class_db nm ks er rs cs bs, Some [])"
    "rsrc_root_locate True (class_db nm ks er rs cs bs) nm c = (class_db nm ks er rs cs bs, Some (class_node nm ks cs bs))"
    by (simp_all add: class_db_def skip_slashes_def root_find_def rsrc_root_locate_def rsrc_node_locate_def Let_def)
qed

lemma class_update: "class_ok nm rs \<Longrightarrow> root_update (class_db nm ks er rs cs bs) (class_node nm ks cs' bs') = class_db nm ks er rs cs' bs'"
  by (auto simp: class_db_def root_update_def class_ok_def intro!: map_idI)

definition range_alloc :: "string \<Rightarrow> nat \<Rightarrow> nat \<Rightarrow> rsrc_alloc" where
  "range_alloc nm s e = \<lparr>astart = s, aend = e, aflags = 0, aname = Some nm\<rparr>"

definition range_request :: "string \<Rightarrow> nat \<Rightarrow> nat \<Rightarrow> rsrc_request" where
  "range_request nm s e = \<lparr>qlength = e - s + 1, qalign = 0, qstart = s, qend = e, qflags = FLAG_RANGE, qname = Some nm\<rparr>"

definition range_entry :: "nat \<Rightarrow> nat \<Rightarrow> int \<Rightarrow> rsrc_create" where
  "range_entry s e c = \<lparr>cstart = s, cend = e, cflags = 0, ccreator = c, cnode = []\<rparr>"

lemma range_create: "class_ok nm rs \<Longrightarrow> s \<le> e \<Longrightarrow> rsrcdbmgr_create True True (class_db nm ks er rs [] []) (range_alloc nm s e) c = (class_db nm ks er rs [range_entry s e c] [blk s e 0], EOK)"
  by (simp add: Let_def rsrcdbmgr_create_def range_alloc_def class_locate create_in_root_def rsrc_block_limit_op_def limit_pieces_def
      run_piece_def add_callout_def rsrc_block_add_range_def walk_end_def walk_list_def rsrc_insert_block_def class_update
      creator_pid_def flag_set_def range_entry_def blk_def)

lemma range_create_held: "class_ok nm rs \<Longrightarrow> s \<le> e \<Longrightarrow> e + 1 < 2 ^ 64 \<Longrightarrow> p \<noteq> 0 \<Longrightarrow> rsrcdbmgr_create True True (class_db nm ks er rs [] [blk s e p]) (range_alloc nm s e) c = (class_db nm ks er rs [range_entry s e c] [blk s e p, blk s e 0], EOK)"
  by (simp add: Let_def rsrcdbmgr_create_def range_alloc_def class_locate create_in_root_def rsrc_block_limit_op_def limit_pieces_def
      run_piece_def add_callout_def rsrc_block_add_range_def walk_end_def walk_list_def rsrc_insert_block_def class_update
      creator_pid_def flag_set_def range_entry_def blk_def wadd_def near_def OVERLAPE_def CONTAINSE_def walk_pass_def ULONGLONG_MAX_def)

lemma range_destroy: "class_ok nm rs \<Longrightarrow> s \<le> e \<Longrightarrow> e + 1 < 2 ^ 64 \<Longrightarrow> p \<noteq> 0 \<Longrightarrow> rsrcdbmgr_destroy True (class_db nm ks er rs [range_entry s e c] [blk s e p]) (range_alloc nm s e) c = (class_db nm ks er rs [] [blk s e p], EOK)"
  by (simp add: Let_def rsrcdbmgr_destroy_def range_alloc_def class_locate rsrc_block_limit_op_def limit_pieces_def
      run_piece_def remove_callout_def rsrc_block_remove_range_def class_update OVERLAPE_def CONTAINSE_def
      creator_pid_def flag_set_def range_entry_def blk_def)


abbreviation range_search :: "nat \<Rightarrow> nat \<Rightarrow> search" where
  "range_search s e \<equiv> \<lparr>slength = Suc (e - s), slimit_start = s, slimit_end = e, salign = Suc 0, sowner = 0, sflags = FLAG_RANGE\<rparr>"

lemma range_search_eq: "request_search (range_request nm s e) 0 s e = range_search s e"
  by (simp add: request_search_def range_request_def flag_set_def FLAG_ALIGN_def FLAG_RANGE_def)

lemma range_forward: "sflags q = FLAG_RANGE \<Longrightarrow> forward q"
  by (simp add: forward_def flag_set_def FLAG_TOPDOWN_def FLAG_RANGE_def)

lemma range_priority: "s \<le> e \<Longrightarrow> find_range_priority (class_node nm ks [range_entry s e c] bs) s e = 0"
  by (simp add: find_range_priority_def range_entry_def touches_def create_priority_def node_priority_def)

lemma range_fit_free:
  assumes "s \<le> e" "e + 1 < 2 ^ 64"
  shows "fit_block (Suc f) (class_node nm ks [range_entry s e c] bs) (range_search s e) (blk s e 0) s e None = Some (Some (s, e, 0), True)"
proof -
  have "fit_start (range_search s e) s e = s" by (simp add: fit_start_def range_forward)
  moreover have "wadd (e - s) (Suc 0) = Suc (e - s)" "wadd s (wsub (Suc (e - s)) (Suc 0)) = e" using assms by (simp_all add: wadd_exact wsub_exact)
  ultimately show ?thesis using assms by (simp add: BLOCK_SHARE_COMPATABLE_def blk_def range_priority better_def Let_def)
qed

lemma range_fit_held:
  "p \<noteq> 0 \<Longrightarrow> fit_block (Suc f) root (range_search s e) (blk s e p) s e sv = Some (sv, False)"
  by (simp add: BLOCK_SHARE_COMPATABLE_def blk_def flag_set_def FLAG_RANGE_def FLAG_SHARE_def)

lemma range_best:
  assumes "s \<le> e" "e + 1 < 2 ^ 64" "bs = [blk s e 0] \<or> (\<exists>p. p \<noteq> 0 \<and> bs = [blk s e p, blk s e 0])"
  shows "best_match (Suc f) (class_node nm ks [range_entry s e c] bs) (range_request nm s e) 0 [] = Some (Some (s, e, 0))"
proof -
  have b: "bstart (blk s e p) = s" "bend (blk s e p) = e" for p by (simp_all add: blk_def)
  have "rsrc_find_range (Suc f) (class_node nm ks [range_entry s e c] bs) (range_search s e) = Some (Some (s, e, 0))"
    using assms(3) by (auto simp: rsrc_find_range_def candidates_def range_forward BLOCK_CONTAINS_PT_def b assms(1)
        range_fit_free[OF assms(1,2)] range_fit_held simp del: fit_block.simps)
  then show ?thesis
    by (simp add: best_match_def wanted_def search_range_def range_entry_def improves_def flip: range_search_eq[of nm])
qed

lemma range_attach_free:
  "s \<le> e \<Longrightarrow> e + 1 < 2 ^ 64 \<Longrightarrow> p \<noteq> 0
    \<Longrightarrow> apply_match True (class_node nm ks cs [blk s e 0]) (range_request nm s e) p FLAG_ATTACH_RMTOPID s e = class_node nm ks cs [blk s e p]"
  by (simp add: apply_match_def rsrc_block_remove_range_def OVERLAPE_def CONTAINSE_def rsrc_block_add_range_pid_def walk_end_def walk_list_def
     rsrc_insert_block_def Let_def blk_def range_request_def FLAG_ATTACH_RMTOPID_def flag_set_def FLAG_RANGE_def FLAG_SHARE_def)

lemma range_attach_held:
  "s \<le> e \<Longrightarrow> e + 1 < 2 ^ 64 \<Longrightarrow> p \<noteq> 0 \<Longrightarrow> q \<noteq> 0 \<Longrightarrow> p \<noteq> q
    \<Longrightarrow> apply_match True (class_node nm ks cs [blk s e p, blk s e 0]) (range_request nm s e) q FLAG_ATTACH_RMTOPID s e
      = class_node nm ks cs [blk s e p, blk s e q]"
  by (simp add: apply_match_def rsrc_block_remove_range_def OVERLAPE_def CONTAINSE_def rsrc_block_add_range_pid_def walk_end_def walk_list_def
     rsrc_insert_block_def Let_def blk_def range_request_def FLAG_ATTACH_RMTOPID_def flag_set_def FLAG_RANGE_def FLAG_SHARE_def
     JOIN_COMPATIBLE_def near_def walk_pass_def ULONGLONG_MAX_def wadd_def wsub_def)

lemma range_attach:
  assumes "s \<le> e" "e + 1 < 2 ^ 64" "bs = [blk s e 0] \<or> (\<exists>p. p \<noteq> 0 \<and> bs = [blk s e p, blk s e 0])"
    "apply_match True (class_node nm ks [range_entry s e c] bs) (range_request nm s e) q FLAG_ATTACH_RMTOPID s e = class_node nm ks [range_entry s e c] bs'"
    "class_ok nm rs"
  shows "rsrcdbmgr_attach (Suc f) True (class_db nm ks er rs [range_entry s e c] bs) (range_request nm s e) q
    = Some (class_db nm ks er rs [range_entry s e c] bs', EOK, range_request nm s e, 0)"
proof -
  have n: "qname (range_request nm s e) = Some nm" "qstart (range_request nm s e) = s" "qend (range_request nm s e) = e"
    "range_request nm s e\<lparr>qstart := s, qend := e\<rparr> = range_request nm s e" by (simp_all add: range_request_def)
  have fl: "\<not> flag_set FLAG_ATTACH_RMTOPID FLAG_ATTACH_DONTLOOK" "\<not> flag_set FLAG_ATTACH_RMTOPID FLAG_ATTACH_RMFROMPID"
    by (simp_all add: flag_set_def FLAG_ATTACH_RMTOPID_def FLAG_ATTACH_DONTLOOK_def FLAG_ATTACH_RMFROMPID_def)
  show ?thesis unfolding rsrcdbmgr_attach_def rsrc_block_search_op_def
    by (simp add: n fl class_locate[OF assms(5)] range_best[OF assms(1-3)] assms(1,4) class_update[OF assms(5)] leD)
qed

text \<open>
  (C30) Creating and destroying while a range is attached gives the range to two processes, whatever
  the class, the range, the creator and the two processes, and whatever else the database holds, if
  the class had no ranges before. A process creates the range, a second attaches it, the first
  destroys and creates it again: the second creation puts a free block beside the block of the
  owner, because \<open>rsrc_block_add_range\<close> leaves its loop at an owner that covers the rest of the
  range and then inserts the whole range behind it. A third process then attaches the same range
  with \<open>EOK\<close>, and the list of blocks names both.
\<close>

theorem recreated_range_granted_twice:
  assumes "CHR ''/'' \<notin> set nm" "nm \<notin> rname ` set rs" "s \<le> e" "e + 1 < 2 ^ 64" "p \<noteq> 0" "q \<noteq> 0" "p \<noteq> q" "0 < fuel"
  shows "\<exists>db1 db2 db3 db4 db5. rsrcdbmgr_create True True (class_db nm ks er rs [] []) (range_alloc nm s e) c = (db1, EOK)
    \<and> rsrcdbmgr_attach fuel True db1 (range_request nm s e) p = Some (db2, EOK, range_request nm s e, 0)
    \<and> rsrcdbmgr_destroy True db2 (range_alloc nm s e) c = (db3, EOK)
    \<and> rsrcdbmgr_create True True db3 (range_alloc nm s e) c = (db4, EOK)
    \<and> rsrcdbmgr_attach fuel True db4 (range_request nm s e) q = Some (db5, EOK, range_request nm s e, 0)
    \<and> db5 = class_db nm ks er rs [range_entry s e c] [blk s e p, blk s e q]"
proof -
  have ok: "class_ok nm rs" using assms(1,2) by (simp add: class_ok_def)
  obtain f where f: "fuel = Suc f" using assms(8) by (cases fuel) auto
  have a: "rsrcdbmgr_attach (Suc f) True (class_db nm ks er rs [range_entry s e c] [blk s e 0]) (range_request nm s e) p
      = Some (class_db nm ks er rs [range_entry s e c] [blk s e p], EOK, range_request nm s e, 0)"
    "rsrcdbmgr_attach (Suc f) True (class_db nm ks er rs [range_entry s e c] [blk s e p, blk s e 0]) (range_request nm s e) q
      = Some (class_db nm ks er rs [range_entry s e c] [blk s e p, blk s e q], EOK, range_request nm s e, 0)"
    by (rule range_attach[OF assms(3,4) _ _ ok]; use assms range_attach_free range_attach_held in auto)+
  show ?thesis unfolding f using assms a ok by (simp add: range_create range_destroy range_create_held)
qed

theorem recreated_range_witness:
  "\<exists>db1 db2 db3 db4. rsrcdbmgr_create True True (class_db ''irq'' [] 0 [] [] []) (range_alloc ''irq'' 0 9) 1 = (db1, EOK)
    \<and> rsrcdbmgr_attach 1 True db1 (range_request ''irq'' 0 9) 5 = Some (db2, EOK, range_request ''irq'' 0 9, 0)
    \<and> rsrcdbmgr_destroy True db2 (range_alloc ''irq'' 0 9) 1 = (db3, EOK)
    \<and> rsrcdbmgr_create True True db3 (range_alloc ''irq'' 0 9) 1 = (db4, EOK)
    \<and> rsrcdbmgr_attach 1 True db4 (range_request ''irq'' 0 9) 6
      = Some (class_db ''irq'' [] 0 [] [range_entry 0 9 1] [blk 0 9 5, blk 0 9 6], EOK, range_request ''irq'' 0 9, 0)"
  using recreated_range_granted_twice[of "''irq''" "[]" 0 9 5 6 1 "[]" 0 1] by simp
section \<open>Searching\<close>

text \<open>
  (C13) The search for a range ends and is complete. With a length and an alignment that are not 0 and
  a window that leaves room to round up, \<open>rsrc_find_range\<close> on a well-formed list returns after at
  most one pass per number of the window. It fails exactly when no block that may be used has an
  aligned range of the length in the window, and otherwise its result is such a range with the
  priority of the created ranges it touches.
\<close>

theorem find_range_complete:
  assumes "0 < slength q" "0 < salign q" "slimit_end q + salign q < 2 ^ 64" "slimit_end q + 1 < fuel" "blocks_ok (active root)"
  shows "\<exists>r. rsrc_find_range fuel root q = Some r
    \<and> (r = None \<longleftrightarrow> \<not> (\<exists>b \<in> set (active root). \<exists>s. fits q b s))
    \<and> (\<forall>s e p. r = Some (s, e, p) \<longrightarrow>
         e = s + slength q - 1 \<and> p = find_range_priority root s e \<and> (\<exists>b \<in> set (active root). fits q b s))"
  using find_range_ok[of q fuel root] assms by (force simp: search_ok_def found_def)

theorem find_range_witness:
  "\<exists>r. rsrc_find_range 12 (irq_node [irq_entry] [blk 0 9 0])
     \<lparr>slength = 4, slimit_start = 1, slimit_end = 9, salign = 4, sowner = 0, sflags = 0\<rparr> = Some r"
proof -
  have "blocks_ok (active (irq_node [irq_entry] [blk 0 9 0]))"
    by (simp add: blk_def block_ok_def)
  from find_range_complete[OF _ _ _ _ this,
      of "\<lparr>slength = 4, slimit_start = 1, slimit_end = 9, salign = 4, sowner = 0, sflags = 0\<rparr>" 12]
  show ?thesis by auto
qed


text \<open>
  (C31) The pieces of \<open>_rsrc_block_limit_op\<close> are a partition: on a created list that is sorted by start
  the ranges passed to the overlap callout cover exactly the created points of the range, and those
  passed to the other callout exactly the rest; none is empty or reaches past the end.
\<close>

theorem limit_op_partitions:
  assumes "creates_ok cs"
  shows "over_pts (limit_pieces cs s e) = {s..e} \<inter> cov cs \<and> non_pts (limit_pieces cs s e) = {s..e} - cov cs
    \<and> (\<forall>p \<in> set (limit_pieces cs s e). piece_in e p)"
  using limit_pieces_ok[OF assms] by simp

theorem limit_op_witness: "non_pts (limit_pieces [irq_entry] 5 12) = {10..12}"
proof -
  have "creates_ok [irq_entry]" by (simp add: irq_entry_def)
  from limit_op_partitions[OF this, of 5 12] show ?thesis by (auto simp: irq_entry_def)
qed

section \<open>Refinement\<close>

text \<open>
  The book that a root stands for: the created points, and who holds each point. The abstract
  operations work on the book alone.
\<close>

definition book :: "rsrc_root \<Rightarrow> nat set \<times> (nat \<Rightarrow> int option)" where
  "book r = (cov (created r), hold r)"

definition book_create :: "nat set \<Rightarrow> nat set \<times> (nat \<Rightarrow> int option) \<Rightarrow> nat set \<times> (nat \<Rightarrow> int option)" where
  "book_create R b = (R \<union> fst b, (\<lambda>x. if x \<in> R - fst b \<and> snd b x = None then Some 0 else snd b x))"

definition book_attach :: "nat set \<Rightarrow> int \<Rightarrow> nat set \<times> (nat \<Rightarrow> int option) \<Rightarrow> nat set \<times> (nat \<Rightarrow> int option)" where
  "book_attach R pid b = (fst b, (\<lambda>x. if x \<in> R then Some pid else snd b x))"

definition book_detach :: "nat set \<Rightarrow> nat set \<times> (nat \<Rightarrow> int option) \<Rightarrow> nat set \<times> (nat \<Rightarrow> int option)" where
  "book_detach R b = (fst b, (\<lambda>x. if x \<in> R then if x \<in> fst b then Some 0 else None else snd b x))"

text \<open>
  (C10) The block and create lists refine the book: on a well-formed root whose accounts balance,
  creating a range, giving a free range to a process and taking a held range back commute with the
  abstract operations on the book.
\<close>

theorem root_refines_book:
  assumes ok: "root_ok r" "accounted r" and se: "s \<le> e" "e + 1 < 2 ^ 64"
  shows "(cstart c = s \<and> cend c = e \<longrightarrow> book (create_in_root True r c) = book_create {s..e} (book r))
    \<and> ((\<forall>x \<in> {s..e}. hold r x = Some 0) \<longrightarrow>
        book (apply_match True r q pid FLAG_ATTACH_RMTOPID s e) = book_attach {s..e} pid (book r))
    \<and> ((\<forall>x \<in> {s..e}. hold r x = Some pid) \<longrightarrow>
        book (apply_match True r q pid FLAG_ATTACH_RMFROMPID s e) = book_detach {s..e} (book r))"
proof (intro conjI impI)
  assume c: "cstart c = s \<and> cend c = e"
  have "\<forall>x \<in> {cstart c..cend c} - cov (created r). hold r x \<in> {None, Some 0}"
    using ok(2) by (auto simp: accounted_def)
  from create_root_ok[OF ok(1) _ _ this] show "book (create_in_root True r c) = book_create {s..e} (book r)"
    using insert_create_ok(2)[of "created r" c] ok(1) se c
    by (auto simp: root_ok_def book_def book_create_def cov_def cong: if_cong)
next
  assume "\<forall>x \<in> {s..e}. hold r x = Some 0"
  then show "book (apply_match True r q pid FLAG_ATTACH_RMTOPID s e) = book_attach {s..e} pid (book r)"
    using attach_root_ok[OF ok(1) se _ refl] by (simp add: book_def book_attach_def cong: if_cong)
next
  assume "\<forall>x \<in> {s..e}. hold r x = Some pid"
  then show "book (apply_match True r q pid FLAG_ATTACH_RMFROMPID s e) = book_detach {s..e} (book r)"
    using detach_root_ok[OF ok(1) se _ refl] by (simp add: book_def book_detach_def cong: if_cong)
qed

theorem root_refines_witness:
  "book (apply_match True (irq_node [irq_entry] [blk 0 9 0]) irq_request 5 FLAG_ATTACH_RMTOPID 2 4)
   = book_attach {2..4} 5 (book (irq_node [irq_entry] [blk 0 9 0]))"
proof -
  let ?r = "(irq_node [irq_entry] [blk 0 9 0])"
  have "root_ok ?r" "accounted ?r" "\<forall>x \<in> {2..4}. hold ?r x = Some 0"
    by (auto simp: root_ok_def irq_entry_def blk_def block_ok_def accounted_def hold_def holder_def)
  from root_refines_book[OF this(1,2), of 2 4] this(3) show ?thesis by simp
qed

section \<open>Behaviour that departs from the intent\<close>

text \<open>
  \<open>_rsrc_is_child\<close> accepts strangers: a node with a leaf among its children is reported to be an
  ancestor of every node that is not that leaf, because the last loop returns on a recursive result
  of 0 where it means 1.
\<close>

theorem is_child_accepts_strangers:
  assumes "k \<in> set kids" "node_child k = []" "target \<noteq> path @ [node_name k]"
  shows "rsrc_is_child path kids target"
proof -
  have "\<not> rsrc_is_child (path @ [node_name k]) (node_child k) target"
    using assms(2,3) by (simp add: rsrc_is_child.simps[of "path @ [node_name k]"])
  then show ?thesis using assms(1) by (subst rsrc_is_child.simps) (auto simp: list_ex_iff)
qed

theorem is_child_witness: "rsrc_is_child [''pci''] [Node ''dev0'' []] [''isa'', ''dev1'']"
  using is_child_accepts_strangers[of "Node ''dev0'' []" "[Node ''dev0'' []]" "[''isa'', ''dev1'']" "[''pci'']"] by simp


text \<open>
  Giving a range to a process can delete the block of another process: when the range joins
  blocks of the process on both sides of a foreign block, \<open>rsrc_block_add_range_pid\<close> links the block
  it grows past the foreign one, which leaves the list and is lost.
\<close>

theorem add_range_pid_drops_foreign_block:
  assumes "p \<noteq> f" "a < b" "b < c" "c \<le> d" "d + 1 < 2 ^ 64"
    and "active r = [blk a (b - 1) p, blk b (c - 1) f, blk c d p]"
  shows "active (rsrc_block_add_range_pid True r b (c - 1) p 0) = [blk a d p]"
  using assms
  by (auto simp: rsrc_block_add_range_pid_def blk_def wadd_exact near_def OVERLAPE_iff JOIN_COMPATIBLE_def flag_set_def
      walk_pass_def walk_absorb_def walk_end_def walk_list_def ULONGLONG_MAX_def Let_def)

theorem add_range_pid_drops_witness:
  "active (rsrc_block_add_range_pid True
     (irq_node [irq_entry] [blk 0 4 5, blk 5 9 6, blk 10 14 5]) 5 9 5 0) = [blk 0 14 5]"
  using add_range_pid_drops_foreign_block[of 5 6 0 5 10 14
      "(irq_node [irq_entry] [blk 0 4 5, blk 5 9 6, blk 10 14 5])"] by simp


end
