(* ===== verification/Prio_Spec.thy ===== *)
theory Prio_Spec
  imports Prelude "HOL-Library.Multiset"
begin

text \<open>
  The contract of a list ordered by priority: a priority queue that serves equal priorities in
  order of arrival. The kernel's priority lists implement it and its clients rely on it.
\<close>

text \<open>The specification of an insertion: behind everything of at least its priority.\<close>

definition insert_prio :: "('e \<Rightarrow> nat) \<Rightarrow> 'e \<Rightarrow> 'e list \<Rightarrow> 'e list" where
  "insert_prio f x xs = takeWhile (\<lambda>y. f x \<le> f y) xs @ x # dropWhile (\<lambda>y. f x \<le> f y) xs"

fun add_all :: "('s \<Rightarrow> 'e \<Rightarrow> 's option) \<Rightarrow> 's \<Rightarrow> 'e list \<Rightarrow> 's option" where
  "add_all add s [] = Some s"
| "add_all add s (x # xs) = (case add s x of None \<Rightarrow> None | Some s' \<Rightarrow> add_all add s' xs)"

lemma insert_prio_split:
  assumes "\<forall>y \<in> set us. f x \<le> f y" "\<forall>y \<in> set vs. f y < f x"
  shows "insert_prio f x (us @ vs) = us @ x # vs"
proof -
  have "takeWhile (\<lambda>y. f x \<le> f y) vs = []" "dropWhile (\<lambda>y. f x \<le> f y) vs = vs"
    using assms(2) by (cases vs; auto simp: not_le)+
  then show ?thesis using assms(1) by (simp add: insert_prio_def takeWhile_append dropWhile_append)
qed

lemma set_insert_prio [simp]: "set (insert_prio f x xs) = insert x (set xs)"
proof -
  have "set (takeWhile P xs) \<union> set (dropWhile P xs) = set xs" for P by (metis set_append takeWhile_dropWhile_id)
  then show ?thesis by (auto simp: insert_prio_def)
qed

lemma mset_insert_prio: "mset (insert_prio f x xs) = add_mset x (mset xs)"
proof -
  have "mset (takeWhile P xs) + mset (dropWhile P xs) = mset xs" for P by (metis mset_append takeWhile_dropWhile_id)
  then show ?thesis by (simp add: insert_prio_def)
qed

text \<open>A descending list splits at the insertion point.\<close>

lemma descending_split:
  fixes n :: nat
  assumes "sorted_wrt (\<lambda>x y. f y \<le> f x) xs"
  shows "\<exists>us vs. xs = us @ vs \<and> (\<forall>y \<in> set us. n \<le> f y) \<and> (\<forall>y \<in> set vs. f y < n)"
  using assms
proof (induction xs)
  case (Cons x xs)
  then obtain us vs where uv: "xs = us @ vs" "\<forall>y \<in> set us. n \<le> f y" "\<forall>y \<in> set vs. f y < n" by auto
  show ?case
  proof (cases "n \<le> f x")
    case True
    then show ?thesis using uv by (intro exI[of _ "x # us"] exI[of _ vs]) simp
  next
    case False
    have "\<forall>y \<in> set xs. f y < n" using Cons.prems False by fastforce
    then show ?thesis using False by (intro exI[of _ "[]"] exI[of _ "x # xs"]) simp
  qed
qed simp

lemma insert_prio_sorts:
  assumes "sorted_wrt (\<lambda>x y. f y \<le> f x) xs"
  shows "sorted_wrt (\<lambda>x y. f y \<le> f x) (insert_prio f x xs)" "filter (\<lambda>y. f y = k) (insert_prio f x xs) = filter (\<lambda>y. f y = k) (xs @ [x])"
proof -
  obtain us vs where uv: "xs = us @ vs" "\<forall>y \<in> set us. f x \<le> f y" "\<forall>y \<in> set vs. f y < f x"
    using descending_split[OF assms, of "f x"] by blast
  have eq: "insert_prio f x xs = us @ x # vs" unfolding uv(1) by (rule insert_prio_split[OF uv(2,3)])
  show "sorted_wrt (\<lambda>x y. f y \<le> f x) (insert_prio f x xs)"
    unfolding eq using assms uv by (auto simp: sorted_wrt_append intro: less_imp_le order_trans)
  show "filter (\<lambda>y. f y = k) (insert_prio f x xs) = filter (\<lambda>y. f y = k) (xs @ [x])"
  proof -
    have "filter (\<lambda>y. f y = f x) vs = []" using uv(3) by (auto simp: filter_empty_conv)
    then show ?thesis unfolding eq using uv(1) by auto
  qed
qed

lemma remove_insert_prio: "x \<notin> set xs \<Longrightarrow> remove1 x (insert_prio f x xs) = xs"
proof -
  assume x: "x \<notin> set xs"
  have "x \<notin> set (takeWhile P xs)" for P using x by (meson set_takeWhileD)
  then show ?thesis by (simp add: insert_prio_def remove1_append)
qed

section \<open>The interface\<close>

locale prio_queue =
  fixes queue :: "'s \<Rightarrow> 'e list \<Rightarrow> bool" and prio :: "'s \<Rightarrow> 'e \<Rightarrow> nat" and ready :: "'s \<Rightarrow> 'e \<Rightarrow> bool"
    and add :: "'s \<Rightarrow> 'e \<Rightarrow> 's option" and rem :: "'s \<Rightarrow> 'e \<Rightarrow> 's option"
  assumes ordered: "queue s xs \<Longrightarrow> sorted_wrt (\<lambda>x y. prio s y \<le> prio s x) xs"
    and add_law: "queue s xs \<Longrightarrow> ready s x \<Longrightarrow> x \<notin> set xs \<Longrightarrow>
      \<exists>s'. add s x = Some s' \<and> queue s' (insert_prio (prio s) x xs) \<and> prio s' = prio s \<and> ready s' = ready s"
    and rem_law: "queue s xs \<Longrightarrow> x \<in> set xs \<Longrightarrow> \<exists>s'. rem s x = Some s' \<and> queue s' (remove1 x xs) \<and> prio s' = prio s \<and> ready s' = ready s"
begin

lemma first_is_highest: "queue s (x # xs) \<Longrightarrow> y \<in> set xs \<Longrightarrow> prio s y \<le> prio s x"
  using ordered by fastforce

lemma add_rem_roundtrip:
  assumes "queue s xs" "ready s x" "x \<notin> set xs"
  shows "\<exists>s1 s2. add s x = Some s1 \<and> rem s1 x = Some s2 \<and> queue s2 xs \<and> prio s2 = prio s"
  using add_law[OF assms] rem_law[where x = x] remove_insert_prio[OF assms(3), of "prio s"] by fastforce

lemma add_all_queue:
  assumes "queue s ys" "distinct (ys @ xs)" "\<forall>x \<in> set xs. ready s x"
  shows "\<exists>s'. add_all add s xs = Some s' \<and> queue s' (fold (insert_prio (prio s)) xs ys) \<and> prio s' = prio s \<and> ready s' = ready s"
  using assms
proof (induction xs arbitrary: s ys)
  case (Cons x xs)
  obtain s1 where s1: "add s x = Some s1" "queue s1 (insert_prio (prio s) x ys)" "prio s1 = prio s" "ready s1 = ready s"
    using add_law[OF Cons.prems(1), of x] Cons.prems by auto
  have "distinct (insert_prio (prio s) x ys @ xs)" 
    using Cons.prems(2) mset_insert_prio[of "prio s" x ys] by (auto simp: mset_eq_imp_distinct_iff[of _ "x # ys"])
  then show ?case using Cons.IH[OF s1(2)] Cons.prems(3) s1 by auto
qed simp

end

lemma fold_insert_prio:
  assumes "sorted_wrt (\<lambda>x y. f y \<le> f x) ys"
  shows "sorted_wrt (\<lambda>x y. f y \<le> f x) (fold (insert_prio f) xs ys)
    \<and> mset (fold (insert_prio f) xs ys) = mset ys + mset xs
    \<and> filter (\<lambda>y. f y = k) (fold (insert_prio f) xs ys) = filter (\<lambda>y. f y = k) (ys @ xs)"
  using assms
proof (induction xs arbitrary: ys)
  case (Cons x xs)
  show ?case using Cons.IH[OF insert_prio_sorts(1)[OF Cons.prems, of x]] insert_prio_sorts(2)[OF Cons.prems, of k x]
    by (simp add: mset_insert_prio)
qed simp

lemma fold_insert_prio_sort: "fold (insert_prio f) xs [] = sort_key (\<lambda>x. - int (f x)) xs"
proof (rule properties_for_sort_key[symmetric])
  have *: "sorted_wrt (\<lambda>x y. f y \<le> f x) []" by simp
  show "mset (fold (insert_prio f) xs []) = mset xs" using fold_insert_prio[OF *] by auto
  show "sorted (map (\<lambda>x. - int (f x)) (fold (insert_prio f) xs []))" using fold_insert_prio[OF *] by (auto simp: sorted_map)
  show "filter (\<lambda>x. - int (f k) = - int (f x)) (fold (insert_prio f) xs []) = filter (\<lambda>x. - int (f k) = - int (f x)) xs" for k
    using fold_insert_prio[OF *, where k = "f k" and xs = xs] by (simp add: eq_commute)
qed

end
