(* ===== verification/Pril.thy ===== *)
theory Pril
  imports Prio_Spec
begin

text \<open>
  The priority lists of the kernel, the pril functions of \<open>kernel/nano/nano_misc.c\<close>, and the pulse
  queues of \<open>kernel/nano/nano_pulse.c\<close> on top of them.

  An entry is a record in a store from addresses to entries, 0 is NULL. The functions work on
  every record that begins with the fields of \<open>PRIL_ENTRY_FIELDS\<close>, as the C macro intends: they are
  polymorphic in the record extension. The union \<open>prev\<close> is a datatype with one constructor per
  member in use. The priority byte is read as a number. A load through NULL or of the member that was not stored is \<open>None\<close>, and so is a
  walk that does not end.
\<close>

section \<open>Entries\<close>

datatype owner = Data | Next addr

datatype prev = Prio_tail addr | Pril owner

record pril_entry =
  nextp :: addr
  prevp :: prev
  type :: "8 word"
  priority :: nat

record 'e pril_list =
  pdata :: addr
  store :: "addr \<Rightarrow> 'e option"

definition TYPE_FLAG_FIRST :: "8 word" where "TYPE_FLAG_FIRST = 0x10"
definition FLAG_TAIL :: "8 word" where "FLAG_TAIL = 0x20"
definition FLAG_HEAD :: "8 word" where "FLAG_HEAD = 0x40"
definition FLAG_UPDATER :: "8 word" where "FLAG_UPDATER = 0x80"

definition NUM_PRI :: nat where
  "NUM_PRI = 256"

definition PRIL_PRIORITY :: "'a pril_entry_scheme \<Rightarrow> nat" where
  "PRIL_PRIORITY p = priority p + (if type p AND TYPE_FLAG_FIRST \<noteq> 0 then NUM_PRI else 0)"

text \<open>Loads and stores through an owner, a pointer to a pointer.\<close>

fun get_owner :: "'a pril_entry_scheme pril_list \<Rightarrow> owner \<Rightarrow> addr option" where
  "get_owner ph Data = Some (pdata ph)"
| "get_owner ph (Next a) = map_option nextp (store ph a)"

fun set_owner :: "'a pril_entry_scheme pril_list \<Rightarrow> owner \<Rightarrow> addr \<Rightarrow> 'a pril_entry_scheme pril_list option" where
  "set_owner ph Data x = Some (ph\<lparr>pdata := x\<rparr>)"
| "set_owner ph (Next a) x =
     (case store ph a of None \<Rightarrow> None | Some n \<Rightarrow> Some (ph\<lparr>store := (store ph)(a \<mapsto> n\<lparr>nextp := x\<rparr>)\<rparr>))"

definition update :: "'e pril_list \<Rightarrow> addr \<Rightarrow> ('e \<Rightarrow> 'e) \<Rightarrow> 'e pril_list option" where
  "update ph a f = (case store ph a of None \<Rightarrow> None | Some n \<Rightarrow> Some (ph\<lparr>store := (store ph)(a \<mapsto> f n)\<rparr>))"

definition prio_tail :: "'a pril_entry_scheme \<Rightarrow> addr option" where
  "prio_tail n = (case prevp n of Prio_tail t \<Rightarrow> Some t | Pril _ \<Rightarrow> None)"

definition prev_pril :: "'a pril_entry_scheme \<Rightarrow> owner option" where
  "prev_pril n = (case prevp n of Prio_tail _ \<Rightarrow> None | Pril w \<Rightarrow> Some w)"

section \<open>The list functions\<close>

definition pril_first :: "'a pril_entry_scheme pril_list \<Rightarrow> addr" where
  "pril_first ph = pdata ph"

definition pril_next :: "'a pril_entry_scheme pril_list \<Rightarrow> addr \<Rightarrow> addr option" where
  "pril_next ph p = map_option nextp (store ph p)"

definition pril_next_prio :: "'a pril_entry_scheme pril_list \<Rightarrow> addr \<Rightarrow> addr option" where
  "pril_next_prio ph d =
     do { p \<leftarrow> store ph d;
          if type p AND FLAG_HEAD = 0 then None
          else do { t \<leftarrow> prio_tail p; tl \<leftarrow> store ph t; Some (nextp tl) } }"

text \<open>
  The consistency check that debug kernels run around every operation. \<open>present\<close> becomes NULL once
  that entry was met; a failed check is \<open>None\<close>.
\<close>

partial_function (option) validate_from :: "'a pril_entry_scheme pril_list \<Rightarrow> addr \<Rightarrow> owner \<Rightarrow> addr \<Rightarrow> addr option" where
  "validate_from ph not_present w present =
     do { x \<leftarrow> get_owner ph w;
          if x = 0 then Some present
          else do {
            p \<leftarrow> (if x = not_present then None else store ph x);
            _ \<leftarrow> (if type p AND FLAG_HEAD \<noteq> 0
                  then do { t \<leftarrow> prio_tail p; n \<leftarrow> store ph t; if PRIL_PRIORITY p \<noteq> PRIL_PRIORITY n then None else Some () }
                  else do { v \<leftarrow> prev_pril p; if v \<noteq> w then None else Some () });
            _ \<leftarrow> (if type p AND FLAG_TAIL \<noteq> 0
                  then (if nextp p = 0 then Some ()
                        else do { n \<leftarrow> store ph (nextp p); if PRIL_PRIORITY p \<le> PRIL_PRIORITY n then None else Some () })
                  else do { n \<leftarrow> store ph (nextp p); if PRIL_PRIORITY p \<noteq> PRIL_PRIORITY n then None else Some () });
            validate_from ph not_present (Next x) (if x = present then 0 else present) } }"

definition pril_validate :: "'a pril_entry_scheme pril_list \<Rightarrow> addr \<Rightarrow> addr \<Rightarrow> unit option" where
  "pril_validate ph present not_present =
     do { left \<leftarrow> validate_from ph not_present Data present; if left \<noteq> 0 then None else Some () }"

text \<open>
  The loop that \<open>pril_find_insertion\<close> and \<open>pril_add\<close> share: from an owner along the first entries
  of the levels to the first one whose priority is not above \<open>n_prio\<close>. The result is the owner and
  what it points at.
\<close>

partial_function (option) pril_seek :: "'a pril_entry_scheme pril_list \<Rightarrow> nat \<Rightarrow> owner \<Rightarrow> (owner \<times> addr) option" where
  "pril_seek ph n_prio w =
     do { head \<leftarrow> get_owner ph w;
          if head = 0 then Some (w, head)
          else do { h \<leftarrow> store ph head;
                    if PRIL_PRIORITY h \<le> n_prio then Some (w, head)
                    else do { tail \<leftarrow> prio_tail h; pril_seek ph n_prio (Next tail) } } }"

definition PULSE_PRIO_BOOST :: "32 word" where "PULSE_PRIO_BOOST = 0x4000"
definition PULSE_PRIO_HEAD :: "32 word" where "PULSE_PRIO_HEAD = 0x80000000"

definition wanted_priority :: "32 word \<Rightarrow> nat" where
  "wanted_priority prio = unat (ucast prio :: 8 word) + (if prio AND PULSE_PRIO_BOOST \<noteq> 0 then NUM_PRI else 0)"

definition pril_find_insertion :: "'a pril_entry_scheme pril_list \<Rightarrow> 32 word \<Rightarrow> addr option" where
  "pril_find_insertion ph prio =
     do { (w, head) \<leftarrow> pril_seek ph (wanted_priority prio) Data;
          if head = 0 then Some 0
          else do { h \<leftarrow> store ph head;
                    if PRIL_PRIORITY h < wanted_priority prio then Some 0
                    else do { tail \<leftarrow> prio_tail h;
                              Some (if prio AND PULSE_PRIO_HEAD \<noteq> 0 then head else tail) } } }"

definition new_level :: "'a pril_entry_scheme pril_list \<Rightarrow> owner \<Rightarrow> addr \<Rightarrow> addr \<Rightarrow> 'a pril_entry_scheme pril_list option" where
  "new_level ph w head d =
     do { ph1 \<leftarrow> update ph d (\<lambda>n. n\<lparr>nextp := head, type := type n OR (FLAG_HEAD OR FLAG_TAIL), prevp := Prio_tail d\<rparr>);
          set_owner ph1 w d }"

definition add_to_level :: "'a pril_entry_scheme pril_list \<Rightarrow> addr \<Rightarrow> addr \<Rightarrow> addr \<Rightarrow> 'a pril_entry_scheme pril_list option" where
  "add_to_level ph head tail d =
     do { ph1 \<leftarrow> update ph head (\<lambda>n. n\<lparr>prevp := Prio_tail d\<rparr>);
          t \<leftarrow> store ph1 tail;
          ph2 \<leftarrow> update ph1 d (\<lambda>n. n\<lparr>nextp := nextp t, type := (type n AND NOT FLAG_HEAD) OR FLAG_TAIL\<rparr>);
          ph3 \<leftarrow> update ph2 tail (\<lambda>n. n\<lparr>type := type n AND NOT FLAG_TAIL, nextp := d\<rparr>);
          update ph3 d (\<lambda>n. n\<lparr>prevp := Pril (Next tail)\<rparr>) }"

definition pril_add :: "'a pril_entry_scheme pril_list \<Rightarrow> addr \<Rightarrow> 'a pril_entry_scheme pril_list option" where
  "pril_add ph d =
     do { n \<leftarrow> store ph d;
          (w, head) \<leftarrow> pril_seek ph (PRIL_PRIORITY n) Data;
          if head = 0 then new_level ph w head d
          else do { h \<leftarrow> store ph head;
                    if PRIL_PRIORITY h < PRIL_PRIORITY n then new_level ph w head d
                    else do { tail \<leftarrow> prio_tail h; add_to_level ph head tail d } } }"

text \<open>The loop of \<open>pril_rem\<close> to the level of the entry; it does not test for NULL.\<close>

partial_function (option) pril_level :: "'a pril_entry_scheme pril_list \<Rightarrow> nat \<Rightarrow> owner \<Rightarrow> (owner \<times> addr) option" where
  "pril_level ph p_prio w =
     do { head \<leftarrow> get_owner ph w;
          h \<leftarrow> store ph head;
          if PRIL_PRIORITY h = p_prio then Some (w, head)
          else do { tail \<leftarrow> prio_tail h; pril_level ph p_prio (Next tail) } }"

text \<open>
  The unlinking of \<open>pril_rem\<close>: of the first but not last entry of its level, of the last but not
  first, of the only one, and of one in the middle. The entry that a tail leaves behind is computed
  from the address of its \<open>next\<close> field; an owner that is the list head itself has no such entry.
\<close>

definition rem_head :: "'a pril_entry_scheme pril_list \<Rightarrow> owner \<Rightarrow> 'a pril_entry_scheme \<Rightarrow> 'a pril_entry_scheme pril_list option" where
  "rem_head ph w p =
     do { ph1 \<leftarrow> set_owner ph w (nextp p);
          t \<leftarrow> prio_tail p;
          update ph1 (nextp p) (\<lambda>n. n\<lparr>prevp := Prio_tail t, type := type n OR FLAG_HEAD\<rparr>) }"

definition rem_tail :: "'a pril_entry_scheme pril_list \<Rightarrow> addr \<Rightarrow> 'a pril_entry_scheme \<Rightarrow> 'a pril_entry_scheme pril_list option" where
  "rem_tail ph head p =
     do { w \<leftarrow> prev_pril p;
          ph1 \<leftarrow> set_owner ph w (nextp p);
          t \<leftarrow> (case w of Data \<Rightarrow> None | Next t \<Rightarrow> Some t);
          ph2 \<leftarrow> update ph1 head (\<lambda>n. n\<lparr>prevp := Prio_tail t\<rparr>);
          update ph2 t (\<lambda>n. n\<lparr>type := type n OR FLAG_TAIL\<rparr>) }"

definition rem_middle :: "'a pril_entry_scheme pril_list \<Rightarrow> 'a pril_entry_scheme \<Rightarrow> 'a pril_entry_scheme pril_list option" where
  "rem_middle ph p =
     do { w \<leftarrow> prev_pril p;
          ph1 \<leftarrow> update ph (nextp p) (\<lambda>n. n\<lparr>prevp := Pril w\<rparr>);
          set_owner ph1 w (nextp p) }"

definition pril_unlink :: "'a pril_entry_scheme pril_list \<Rightarrow> addr \<Rightarrow> 'a pril_entry_scheme pril_list option" where
  "pril_unlink ph d =
     do { p \<leftarrow> store ph d;
          if type p AND (FLAG_HEAD OR FLAG_TAIL) \<noteq> 0 then
            do { (w, head) \<leftarrow> pril_level ph (PRIL_PRIORITY p) Data;
                 ph1 \<leftarrow> (if type p AND FLAG_TAIL = 0 then rem_head ph w p
                         else if type p AND FLAG_HEAD = 0 then rem_tail ph head p
                         else set_owner ph w (nextp p));
                 update ph1 d (\<lambda>n. n\<lparr>type := type n AND NOT (FLAG_HEAD OR FLAG_TAIL)\<rparr>) }
          else rem_middle ph p }"

section \<open>Updaters\<close>

text \<open>
  A caller that keeps a position in a list across other work registers it. The global list
  \<open>update_list\<close> is a list of the registrations in link order, each with its identity and the entry
  it stands at.
\<close>

type_synonym updaters = "(nat \<times> addr) list"

fun rem_updaters :: "'a pril_entry_scheme pril_list \<Rightarrow> updaters \<Rightarrow> addr \<Rightarrow> addr
    \<Rightarrow> ('a pril_entry_scheme pril_list \<times> updaters) option" where
  "rem_updaters ph [] p next = Some (ph, [])"
| "rem_updaters ph ((u, e) # us) p next =
     (if e = p then
        do { ph1 \<leftarrow> update ph next (\<lambda>n. n\<lparr>type := type n OR FLAG_UPDATER\<rparr>);
             (ph2, us2) \<leftarrow> rem_updaters ph1 us p next;
             Some (ph2, (u, next) # us2) }
      else
        do { (ph2, us2) \<leftarrow> rem_updaters ph us p next; Some (ph2, (u, e) # us2) })"

definition pril_rem :: "'a pril_entry_scheme pril_list \<Rightarrow> updaters \<Rightarrow> addr
    \<Rightarrow> ('a pril_entry_scheme pril_list \<times> updaters) option" where
  "pril_rem ph us d =
     do { p \<leftarrow> store ph d;
          ph1 \<leftarrow> pril_unlink ph d;
          if type p AND FLAG_UPDATER \<noteq> 0 then rem_updaters ph1 us d (nextp p) else Some (ph1, us) }"

fun insert_updater :: "updaters \<Rightarrow> nat \<times> addr \<Rightarrow> updaters" where
  "insert_updater [] upp = [upp]"
| "insert_updater (chk # us) upp = (if snd upp \<le> snd chk then upp # chk # us else chk # insert_updater us upp)"

definition pril_update_register :: "'a pril_entry_scheme pril_list \<Rightarrow> updaters \<Rightarrow> nat \<times> addr
    \<Rightarrow> ('a pril_entry_scheme pril_list \<times> updaters) option" where
  "pril_update_register ph us upp =
     do { ph1 \<leftarrow> (if snd upp \<noteq> 0 then update ph (snd upp) (\<lambda>n. n\<lparr>type := type n OR FLAG_UPDATER\<rparr>) else Some ph);
          Some (ph1, insert_updater us upp) }"

text \<open>Unlinking a registration tells whether a neighbour stands at the same entry.\<close>

fun drop_updater :: "updaters \<Rightarrow> addr option \<Rightarrow> nat \<Rightarrow> (updaters \<times> addr \<times> bool) option" where
  "drop_updater [] before u = None"
| "drop_updater ((v, e) # us) before u =
     (if v = u then
        Some (us, e, (case us of [] \<Rightarrow> False | (_, e') # _ \<Rightarrow> e' = e) \<or> before = Some e)
      else do { (us', e', more) \<leftarrow> drop_updater us (Some e) u; Some ((v, e) # us', e', more) })"

definition pril_update_unregister :: "'a pril_entry_scheme pril_list \<Rightarrow> updaters \<Rightarrow> nat
    \<Rightarrow> ('a pril_entry_scheme pril_list \<times> updaters) option" where
  "pril_update_unregister ph us u =
     do { (us', pril, more_updaters) \<leftarrow> drop_updater us None u;
          ph1 \<leftarrow> (if pril \<noteq> 0 \<and> \<not> more_updaters
                   then update ph pril (\<lambda>n. n\<lparr>type := type n AND NOT FLAG_UPDATER\<rparr>) else Some ph);
          Some (ph1, us') }"

section \<open>Pulses\<close>

record pulse = pril_entry +
  code :: "8 word"
  val :: "32 word"
  ident :: "32 word"
  count :: "32 word"

definition PULSE_PRIO_REPLACE :: "32 word" where "PULSE_PRIO_REPLACE = 0x10000000"
definition PULSE_PRIO_SIGNAL :: "32 word" where "PULSE_PRIO_SIGNAL = 0x20000000"
definition PULSE_PRIO_VTID :: "32 word" where "PULSE_PRIO_VTID = 0x40000000"

definition TYPE_PULSE :: "8 word" where "TYPE_PULSE = 1"
definition TYPE_SIGNAL :: "8 word" where "TYPE_SIGNAL = 2"
definition TYPE_VPULSE :: "8 word" where "TYPE_VPULSE = 6"

definition PULSE_COUNT_MAX :: "32 word" where
  "PULSE_COUNT_MAX = push_bit 31 2 - 1"

type_synonym pulse_queue = "pulse pril_list"

text \<open>The scan for a pulse to replace: NULL when an entry of another priority or the end comes first.\<close>

partial_function (option) pulse_scan :: "pulse_queue \<Rightarrow> nat \<Rightarrow> 8 word \<Rightarrow> 32 word \<Rightarrow> addr \<Rightarrow> addr option" where
  "pulse_scan q prio cd i pup =
     (if pup = 0 then Some 0
      else do { p \<leftarrow> store q pup;
                if priority p \<noteq> prio then Some 0
                else if code p = cd \<and> ident p = i then Some pup
                else pulse_scan q prio cd i (nextp p) })"

definition pulse_type :: "32 word \<Rightarrow> 8 word" where
  "pulse_type prio =
     (if prio AND PULSE_PRIO_VTID \<noteq> 0 then TYPE_VPULSE
      else if prio AND PULSE_PRIO_SIGNAL \<noteq> 0 then TYPE_SIGNAL else TYPE_PULSE)
     OR (if prio AND PULSE_PRIO_BOOST \<noteq> 0 then TYPE_FLAG_FIRST else 0)"

text \<open>
  \<open>pulse_add\<close>. The allocation of the entry is an argument: nothing, or an address and what its
  memory held before. The result is the queue, the pulse that carries the event (0 for NULL) and
  whether the global \<open>overrun\<close> was set.
\<close>

definition pulse_new :: "pulse_queue \<Rightarrow> (addr \<times> pulse) option \<Rightarrow> 32 word \<Rightarrow> 8 word \<Rightarrow> 32 word \<Rightarrow> 32 word
    \<Rightarrow> (pulse_queue \<times> addr \<times> bool) option" where
  "pulse_new q new prio cd v i =
     (case new of
        None \<Rightarrow> Some (q, 0, False)
      | Some (a, e) \<Rightarrow>
          do { q1 \<leftarrow> pril_add (q\<lparr>store := (store q)(a \<mapsto>
                        e\<lparr>type := pulse_type prio, count := 1, priority := unat (ucast prio :: 8 word),
                           code := cd, val := v, ident := i\<rparr>)\<rparr>) a;
               Some (q1, a, False) })"

definition pulse_add :: "pulse_queue \<Rightarrow> (addr \<times> pulse) option \<Rightarrow> 32 word \<Rightarrow> 32 word \<Rightarrow> 32 word \<Rightarrow> 32 word
    \<Rightarrow> (pulse_queue \<times> addr \<times> bool) option" where
  "pulse_add q new prio cd v i =
     (if prio AND PULSE_PRIO_REPLACE \<noteq> 0 then
        do { first \<leftarrow> pril_find_insertion q (prio OR PULSE_PRIO_HEAD);
             pup \<leftarrow> pulse_scan q (unat (ucast prio :: 8 word)) (ucast cd) i first;
             if pup \<noteq> 0 then do { q1 \<leftarrow> update q pup (\<lambda>p. p\<lparr>val := v\<rparr>); Some (q1, pup, True) }
             else pulse_new q new prio (ucast cd) v i }
      else
        do { pup \<leftarrow> pril_find_insertion q prio;
             if pup = 0 then pulse_new q new prio (ucast cd) v i
             else do { p \<leftarrow> store q pup;
                       if code p = ucast cd \<and> ident p = i \<and> val p = v \<and> count p < PULSE_COUNT_MAX
                       then do { q1 \<leftarrow> update q pup (\<lambda>p. p\<lparr>count := count p + 1\<rparr>); Some (q1, pup, False) }
                       else pulse_new q new prio (ucast cd) v i } })"

text \<open>\<open>pulse_remove\<close>; the flag says that the entry went back to its pool.\<close>

definition pulse_remove :: "pulse_queue \<Rightarrow> updaters \<Rightarrow> addr \<Rightarrow> (pulse_queue \<times> updaters \<times> bool) option" where
  "pulse_remove q us pup =
     do { q1 \<leftarrow> update q pup (\<lambda>p. p\<lparr>count := count p - 1\<rparr>);
          p \<leftarrow> store q1 pup;
          if count p = 0 then
            do { (q2, us2) \<leftarrow> pril_rem q1 us pup; Some (q2, us2, True) }
          else Some (q1, us, False) }"

end
