(* ===== verification/Pril_Levels.thy ===== *)
theory Pril_Levels
  imports Pril
begin

text \<open>
  The levels of a priority list: the flag bits of the entries, what the fields of one level are, and
  how a level changes when an entry joins or leaves it.
\<close>

section \<open>Flag bits\<close>

lemma type_bits:
  "t AND FLAG_HEAD = 0 \<longleftrightarrow> \<not> bit t 6" "t AND FLAG_TAIL = 0 \<longleftrightarrow> \<not> bit t 5"
  "t AND FLAG_UPDATER = 0 \<longleftrightarrow> \<not> bit t 7" "t AND TYPE_FLAG_FIRST = 0 \<longleftrightarrow> \<not> bit t 4"
  for t :: "8 word"
  using and_exp_eq_0_iff_not_bit[of t 6] and_exp_eq_0_iff_not_bit[of t 5] and_exp_eq_0_iff_not_bit[of t 7]
    and_exp_eq_0_iff_not_bit[of t 4]
  by (simp_all add: FLAG_HEAD_def FLAG_TAIL_def FLAG_UPDATER_def TYPE_FLAG_FIRST_def)

lemma flag_const_bits:
  "bit FLAG_HEAD i \<longleftrightarrow> i = 6" "bit FLAG_TAIL i \<longleftrightarrow> i = 5" "bit FLAG_UPDATER i \<longleftrightarrow> i = 7" "bit TYPE_FLAG_FIRST i \<longleftrightarrow> i = 4"
proof -
  have "bit (2 ^ k :: 8 word) i \<longleftrightarrow> i = k" if "k < 8" for k using that by (auto simp: bit_exp_iff)
  from this[of 6] this[of 5] this[of 7] this[of 4]
  show "bit FLAG_HEAD i \<longleftrightarrow> i = 6" "bit FLAG_TAIL i \<longleftrightarrow> i = 5" "bit FLAG_UPDATER i \<longleftrightarrow> i = 7" "bit TYPE_FLAG_FIRST i \<longleftrightarrow> i = 4"
    by (simp_all add: FLAG_HEAD_def FLAG_TAIL_def FLAG_UPDATER_def TYPE_FLAG_FIRST_def)
qed

lemma flag_both: "t AND (FLAG_HEAD OR FLAG_TAIL) = 0 \<longleftrightarrow> \<not> bit t 6 \<and> \<not> bit t 5" for t :: "8 word"
proof -
  have "t AND (FLAG_HEAD OR FLAG_TAIL) = (t AND FLAG_HEAD) OR (t AND FLAG_TAIL)" by (simp add: bit.conj_disj_distrib)
  then show ?thesis by (simp add: or_eq_0_iff type_bits)
qed

lemma bit_ops:
  "bit (t OR u) i \<longleftrightarrow> bit t i \<or> bit u i" "bit (t AND NOT u) i \<longleftrightarrow> bit t i \<and> \<not> bit u i"
  "bit (t AND NOT u AND NOT v) i \<longleftrightarrow> bit t i \<and> \<not> bit u i \<and> \<not> bit v i" for t u v :: "8 word"
  by (auto simp: bit_simps dest: bit_imp_le_length)

lemmas flag_simps = type_bits flag_const_bits flag_both bit_ops

lemma PRIL_PRIORITY_iff: "PRIL_PRIORITY p = priority p + (if bit (type p) 4 then 256 else 0)"
  by (simp add: PRIL_PRIORITY_def NUM_PRI_def type_bits)

section \<open>Levels\<close>

text \<open>
  A list is a sequence of levels, each with its priority and its entries in order. \<open>level_ok\<close> says
  what the fields of the entries of one level are; \<open>nxt\<close> is where the last one points.
\<close>

definition entry_ok :: "addr list \<Rightarrow> addr \<Rightarrow> nat \<Rightarrow> nat \<Rightarrow> 'a pril_entry_scheme \<Rightarrow> bool" where
  "entry_ok l nxt p i n \<longleftrightarrow>
     PRIL_PRIORITY n = p \<and> nextp n = (if Suc i < length l then l ! Suc i else nxt)
     \<and> (bit (type n) 6 \<longleftrightarrow> i = 0) \<and> (bit (type n) 5 \<longleftrightarrow> Suc i = length l)
     \<and> prevp n = (if i = 0 then Prio_tail (last l) else Pril (Next (l ! (i - 1))))"

definition level_ok :: "(addr \<Rightarrow> 'a pril_entry_scheme option) \<Rightarrow> addr list \<Rightarrow> addr \<Rightarrow> nat \<Rightarrow> bool" where
  "level_ok m l nxt p \<longleftrightarrow> l \<noteq> [] \<and> (\<forall>i < length l. \<exists>n. m (l ! i) = Some n \<and> entry_ok l nxt p i n)"

type_synonym levels = "(nat \<times> addr list) list"

fun start :: "levels \<Rightarrow> addr \<Rightarrow> addr" where
  "start [] e = e"
| "start ((p, l) # ls) e = hd l"

fun levels_ok :: "(addr \<Rightarrow> 'a pril_entry_scheme option) \<Rightarrow> levels \<Rightarrow> addr \<Rightarrow> bool" where
  "levels_ok m [] e = True"
| "levels_ok m ((p, l) # ls) e \<longleftrightarrow> level_ok m l (start ls e) p \<and> (\<forall>x \<in> set ls. fst x < p) \<and> levels_ok m ls e"

definition entries :: "levels \<Rightarrow> addr list" where
  "entries ls = concat (map snd ls)"

lemma entries_simps [simp]: "entries [] = []" "entries ((p, l) # ls) = l @ entries ls" "entries (us @ vs) = entries us @ entries vs"
  by (simp_all add: entries_def)

lemma start_append: "start (us @ vs) e = start us (start vs e)"
  by (cases us) auto

lemma levels_ok_append:
  "levels_ok m (us @ vs) e \<longleftrightarrow> levels_ok m us (start vs e) \<and> levels_ok m vs e \<and> (\<forall>u \<in> set us. \<forall>v \<in> set vs. fst v < fst u)"
proof (induction us)
  case (Cons x us)
  then show ?case by (cases x) (simp add: start_append ball_Un, blast)
qed simp

lemma level_ok_cong: "(\<And>x. x \<in> set l \<Longrightarrow> m' x = m x) \<Longrightarrow> level_ok m' l nxt p = level_ok m l nxt p"
  by (auto simp: level_ok_def)

lemma levels_ok_cong: "(\<And>x. x \<in> set (entries ls) \<Longrightarrow> m' x = m x) \<Longrightarrow> levels_ok m' ls e = levels_ok m ls e"
proof (induction ls)
  case (Cons q ls)
  obtain p l where q: "q = (p, l)" by (cases q)
  have "level_ok m' l (start ls e) p = level_ok m l (start ls e) p" by (rule level_ok_cong) (use Cons.prems q in auto)
  then show ?case using Cons q by simp
qed simp

lemma level_entry:
  assumes "level_ok m l nxt p" "x \<in> set l"
  obtains i n where "i < length l" "x = l ! i" "m x = Some n" "entry_ok l nxt p i n"
  using assms by (auto simp: level_ok_def in_set_conv_nth)

lemma level_some: "level_ok m l nxt p \<Longrightarrow> x \<in> set l \<Longrightarrow> \<exists>n. m x = Some n"
  by (auto simp: level_ok_def in_set_conv_nth)

lemma level_head: "level_ok m l nxt p \<Longrightarrow> \<exists>n. m (hd l) = Some n \<and> entry_ok l nxt p 0 n"
  by (auto simp: level_ok_def hd_conv_nth)

lemma level_last:
  assumes "level_ok m l nxt p"
  shows "\<exists>n. m (last l) = Some n \<and> entry_ok l nxt p (length l - 1) n \<and> nextp n = nxt"
proof -
  have "l \<noteq> []" using assms by (simp add: level_ok_def)
  then have "\<exists>n. m (l ! (length l - 1)) = Some n \<and> entry_ok l nxt p (length l - 1) n" using assms by (simp add: level_ok_def)
  then show ?thesis using \<open>l \<noteq> []\<close> by (auto simp: last_conv_nth entry_ok_def)
qed

text \<open>Turning the last entry of a level to another successor.\<close>

lemma level_turn:
  assumes ok: "level_ok m l nxt p" and d: "distinct l" and n: "m (last l) = Some n"
  shows "level_ok (m(last l \<mapsto> n\<lparr>nextp := e\<rparr>)) l e p"
proof -
  have ne: "l \<noteq> []" using ok by (simp add: level_ok_def)
  have "\<exists>n'. (m(last l \<mapsto> n\<lparr>nextp := e\<rparr>)) (l ! i) = Some n' \<and> entry_ok l e p i n'" if i: "i < length l" for i
  proof (cases "Suc i = length l")
    case True
    then have "l ! i = last l" using ne by (metis last_conv_nth diff_Suc_1)
    moreover obtain n' where "m (l ! i) = Some n'" "entry_ok l nxt p i n'" using ok i by (auto simp: level_ok_def)
    ultimately show ?thesis using n True by (auto simp: entry_ok_def PRIL_PRIORITY_def)
  next
    case False
    then have "l ! i \<noteq> last l" using i ne d by (simp add: last_conv_nth nth_eq_iff_index_eq)
    moreover obtain n' where "m (l ! i) = Some n'" "entry_ok l nxt p i n'" using ok i by (auto simp: level_ok_def)
    ultimately show ?thesis using i False by (auto simp: entry_ok_def)
  qed
  then show ?thesis using ne by (simp add: level_ok_def)
qed

lemma level_single:
  assumes "m d = Some n" "PRIL_PRIORITY n = p" "nextp n = nxt" "bit (type n) 6" "bit (type n) 5" "prevp n = Prio_tail d"
  shows "level_ok m [d] nxt p"
  using assms by (simp add: level_ok_def entry_ok_def)

text \<open>An entry at the end of a level.\<close>

lemma level_snoc:
  assumes ok: "level_ok m l nxt p" and dl: "distinct l"
    and m': "\<And>x n. x \<in> set l \<Longrightarrow> m x = Some n \<Longrightarrow> m' x = Some (n\<lparr>prevp := if x = hd l then Prio_tail d else prevp n,
        nextp := if x = last l then d else nextp n, type := if x = last l then type n AND NOT FLAG_TAIL else type n\<rparr>)"
    and d: "m' d = Some nd" "PRIL_PRIORITY nd = p" "nextp nd = nxt" "\<not> bit (type nd) 6" "bit (type nd) 5"
      "prevp nd = Pril (Next (last l))"
  shows "level_ok m' (l @ [d]) nxt p"
proof -
  have ne: "l \<noteq> []" using ok by (simp add: level_ok_def)
  have "\<exists>n'. m' ((l @ [d]) ! i) = Some n' \<and> entry_ok (l @ [d]) nxt p i n'" if i: "i < length (l @ [d])" for i
  proof (cases "i = length l")
    case True
    then show ?thesis using d ne by (auto simp: entry_ok_def nth_append last_conv_nth)
  next
    case False
    then have il: "i < length l" using i by simp
    then obtain n where n: "m (l ! i) = Some n" "entry_ok l nxt p i n" using ok by (auto simp: level_ok_def)
    have h: "l ! i = hd l \<longleftrightarrow> i = 0" using dl il ne by (simp add: hd_conv_nth nth_eq_iff_index_eq)
    have t: "l ! i = last l \<longleftrightarrow> Suc i = length l"
      using dl il ne by (auto simp: last_conv_nth nth_eq_iff_index_eq)
    show ?thesis using m'[OF _ n(1)] il n(2) h t
      by (auto simp: entry_ok_def nth_append PRIL_PRIORITY_iff flag_simps)
  qed
  then show ?thesis by (simp add: level_ok_def)
qed

text \<open>The first entry of a level goes; its successor becomes the head.\<close>

lemma level_tl:
  assumes ok: "level_ok m (d # l) nxt p" and dl: "distinct (d # l)" and ne: "l \<noteq> []"
    and m': "\<And>x n. x \<in> set l \<Longrightarrow> m x = Some n \<Longrightarrow> m' x = Some (if x = hd l then n\<lparr>prevp := Prio_tail (last l), type := type n OR FLAG_HEAD\<rparr> else n)"
  shows "level_ok m' l nxt p"
proof -
  have "\<exists>n'. m' (l ! i) = Some n' \<and> entry_ok l nxt p i n'" if i: "i < length l" for i
  proof -
    obtain n where n: "m (l ! i) = Some n" "entry_ok (d # l) nxt p (Suc i) n"
      using ok i by (auto simp: level_ok_def dest: spec[of _ "Suc i"])
    have h: "l ! i = hd l \<longleftrightarrow> i = 0" using dl i ne by (auto simp: hd_conv_nth nth_eq_iff_index_eq)
    show ?thesis using m'[OF _ n(1)] i n(2) h
      by (auto simp: entry_ok_def PRIL_PRIORITY_iff flag_simps nth_Cons')
  qed
  then show ?thesis using ne by (simp add: level_ok_def)
qed

text \<open>The last entry of a level goes; its predecessor becomes the tail.\<close>

lemma level_butlast:
  assumes ok: "level_ok m (l @ [d]) nxt p" and dl: "distinct (l @ [d])" and ne: "l \<noteq> []"
    and m': "\<And>x n. x \<in> set l \<Longrightarrow> m x = Some n \<Longrightarrow> m' x = Some (n\<lparr>prevp := if x = hd l then Prio_tail (last l) else prevp n,
        nextp := if x = last l then nxt else nextp n, type := if x = last l then type n OR FLAG_TAIL else type n\<rparr>)"
  shows "level_ok m' l nxt p"
proof -
  have "\<exists>n'. m' (l ! i) = Some n' \<and> entry_ok l nxt p i n'" if i: "i < length l" for i
  proof -
    obtain n where n: "m (l ! i) = Some n" "entry_ok (l @ [d]) nxt p i n"
      using ok i by (auto simp: level_ok_def nth_append dest: spec[of _ i])
    have h: "l ! i = hd l \<longleftrightarrow> i = 0" using dl i ne by (auto simp: hd_conv_nth nth_eq_iff_index_eq)
    have t: "l ! i = last l \<longleftrightarrow> Suc i = length l"
      using dl i ne by (auto simp: last_conv_nth nth_eq_iff_index_eq)
    show ?thesis using m'[OF _ n(1)] i n(2) h t
      by (auto simp: entry_ok_def PRIL_PRIORITY_iff flag_simps nth_append)
  qed
  then show ?thesis using ne by (simp add: level_ok_def)
qed

text \<open>An entry in the middle of a level goes.\<close>

lemma level_mid:
  assumes ok: "level_ok m (a @ d # b) nxt p" and dl: "distinct (a @ d # b)" and ne: "a \<noteq> []" "b \<noteq> []"
    and m': "\<And>x n. x \<in> set (a @ b) \<Longrightarrow> m x = Some n \<Longrightarrow> m' x = Some (n\<lparr>prevp := if x = hd b then Pril (Next (last a)) else prevp n,
        nextp := if x = last a then hd b else nextp n\<rparr>)"
  shows "level_ok m' (a @ b) nxt p"
proof -
  have len: "0 < length a" "0 < length b" using ne by auto
  have "\<exists>n'. m' ((a @ b) ! i) = Some n' \<and> entry_ok (a @ b) nxt p i n'" if i: "i < length (a @ b)" for i
  proof (cases "i < length a")
    case True
    then obtain n where n: "m (a ! i) = Some n" "entry_ok (a @ d # b) nxt p i n"
      using ok by (auto simp: level_ok_def nth_append dest: spec[of _ i])
    have h: "a ! i \<noteq> hd b" using dl True ne by (auto simp: disjoint_iff) (metis hd_in_set nth_mem)
    have t: "a ! i = last a \<longleftrightarrow> Suc i = length a"
      using dl True ne by (auto simp: last_conv_nth nth_eq_iff_index_eq)
    have "Suc i < length a + length b" using True len by linarith
    then show ?thesis using m'[OF _ n(1)] True n(2) h t ne
      by (auto simp: entry_ok_def PRIL_PRIORITY_iff nth_append hd_conv_nth)
  next
    case False
    define k where "k = i - length a"
    have k: "k < length b" "i = length a + k" using i False by (auto simp: k_def)
    obtain n where n: "m (b ! k) = Some n" "entry_ok (a @ d # b) nxt p (Suc i) n"
      using ok k by (auto simp: level_ok_def nth_append dest: spec[of _ "Suc i"])
    have t: "b ! k \<noteq> last a" using dl k ne by (auto simp: disjoint_iff) (metis last_in_set nth_mem)
    have h: "b ! k = hd b \<longleftrightarrow> k = 0" using dl k ne by (auto simp: hd_conv_nth nth_eq_iff_index_eq)
    show ?thesis using m'[OF _ n(1)] k n(2) h t ne len
      by (auto simp: entry_ok_def PRIL_PRIORITY_iff nth_append last_conv_nth nth_Cons')
  qed
  then show ?thesis using ne by (simp add: level_ok_def)
qed

end
