(* ===== verification/Pril_Lists.thy ===== *)
theory Pril_Lists
  imports Pril_Levels
begin

text \<open>
  Whole lists as sequences of levels: the walks to an insertion point, insertion as \<open>insert_prio\<close>, and
  the four ways an entry is unlinked.
\<close>

section \<open>Lists\<close>

definition own :: "levels \<Rightarrow> owner" where
  "own us = (if us = [] then Data else Next (last (snd (last us))))"

definition rep :: "'a pril_entry_scheme pril_list \<Rightarrow> levels \<Rightarrow> addr \<Rightarrow> bool" where
  "rep ph ls e \<longleftrightarrow> levels_ok (store ph) ls e \<and> pdata ph = start ls e"

definition pril_ok :: "'a pril_entry_scheme pril_list \<Rightarrow> levels \<Rightarrow> bool" where
  "pril_ok ph ls \<longleftrightarrow> rep ph ls 0 \<and> distinct (entries ls) \<and> 0 \<notin> set (entries ls)"

text \<open>What the list functions never change of an entry.\<close>

definition view :: "'a pril_entry_scheme \<Rightarrow> nat \<times> bool \<times> 'a" where
  "view n = (priority n, bit (type n) 4, pril_entry.more n)"

definition keeps :: "'a pril_entry_scheme pril_list \<Rightarrow> 'a pril_entry_scheme pril_list \<Rightarrow> bool" where
  "keeps ph ph' \<longleftrightarrow> (\<forall>x. map_option view (store ph' x) = map_option view (store ph x))"

lemma rep_append:
  "rep ph (us @ vs) e \<longleftrightarrow> rep ph us (start vs e) \<and> levels_ok (store ph) vs e \<and> (\<forall>u \<in> set us. \<forall>v \<in> set vs. fst v < fst u)"
  by (auto simp: rep_def levels_ok_append start_append)

lemma levels_ok_nonempty: "levels_ok m ls e \<Longrightarrow> x \<in> set ls \<Longrightarrow> snd x \<noteq> []"
  by (induction ls) (auto simp: level_ok_def)

lemma get_own:
  assumes "rep ph us e"
  shows "get_owner ph (own us) = Some e"
proof (cases us rule: rev_cases)
  case Nil
  then show ?thesis using assms by (simp add: own_def rep_def)
next
  case (snoc us' q)
  obtain p l where q: "q = (p, l)" by (cases q)
  have "level_ok (store ph) l e p" using assms snoc q by (simp add: rep_append)
  from level_last[OF this] show ?thesis using snoc q by (auto simp: own_def)
qed

lemma set_own:
  assumes rep: "rep ph us e" and d: "distinct (entries us)"
  shows "\<exists>ph'. set_owner ph (own us) e' = Some ph' \<and> rep ph' us e' \<and> keeps ph ph'
    \<and> (\<forall>x. x \<notin> set (entries us) \<longrightarrow> store ph' x = store ph x)"
proof (cases us rule: rev_cases)
  case Nil
  then show ?thesis using rep by (simp add: own_def rep_def keeps_def)
next
  case (snoc us' q)
  obtain p l where q: "q = (p, l)" by (cases q)
  have r: "rep ph us' (hd l)" "level_ok (store ph) l e p" "\<forall>u \<in> set us'. p < fst u" using rep snoc q by (auto simp: rep_append)
  obtain n where n: "store ph (last l) = Some n" using level_last[OF r(2)] by auto
  have dl: "distinct l" "l \<noteq> []" "set l \<inter> set (entries us') = {}" using d snoc q r(2) by (auto simp: level_ok_def)
  then have ll: "last l \<notin> set (entries us')" by (meson disjoint_iff last_in_set)
  let ?m = "(store ph)(last l \<mapsto> n\<lparr>nextp := e'\<rparr>)"
  have "levels_ok ?m us' (hd l) = levels_ok (store ph) us' (hd l)" by (rule levels_ok_cong) (use ll in auto)
  then have "rep (ph\<lparr>store := ?m\<rparr>) us e'"
    using r snoc q level_turn[OF r(2) dl(1) n, of e'] by (simp add: rep_append) (simp add: rep_def)
  moreover have "set_owner ph (own us) e' = Some (ph\<lparr>store := ?m\<rparr>)" using snoc q n by (simp add: own_def)
  moreover have "keeps ph (ph\<lparr>store := ?m\<rparr>)" using n by (simp add: keeps_def view_def)
  moreover have "\<forall>x. x \<notin> set (entries us) \<longrightarrow> ?m x = store ph x" using snoc q dl(2) by auto
  ultimately show ?thesis by fastforce
qed

lemma level_prio_tail:
  assumes "level_ok m l nxt p"
  shows "\<exists>h. m (hd l) = Some h \<and> PRIL_PRIORITY h = p \<and> prio_tail h = Some (last l)"
  using level_head[OF assms] by (auto simp: entry_ok_def prio_tail_def)

lemma own_snoc: "own (us @ [(p, l)]) = Next (last l)"
  by (simp add: own_def)

lemma pril_seek_ok:
  assumes "rep ph (us0 @ us @ vs) 0" "0 \<notin> set (entries (us @ vs))" "\<forall>u \<in> set us. n < fst u" "vs \<noteq> [] \<longrightarrow> fst (hd vs) \<le> n"
  shows "pril_seek ph n (own us0) = Some (own (us0 @ us), start vs 0)"
  using assms
proof (induction us arbitrary: us0)
  case Nil
  have r: "rep ph us0 (start vs 0)" "levels_ok (store ph) vs 0" using Nil.prems(1) by (auto simp: rep_append)
  show ?case
  proof (cases vs)
    case Nil
    then show ?thesis using get_own[OF r(1)] by (subst pril_seek.simps) simp
  next
    case (Cons q vs')
    obtain p l where q: "q = (p, l)" by (cases q)
    have l: "level_ok (store ph) l (start vs' 0) p" using r(2) Cons q by simp
    have "hd l \<noteq> 0" using Nil.prems(2) Cons q l by (cases l) (auto simp: level_ok_def)
    then show ?thesis using get_own[OF r(1)] level_prio_tail[OF l] Nil.prems(4) Cons q by (subst pril_seek.simps) auto
  qed
next
  case (Cons q us)
  obtain p l where q: "q = (p, l)" by (cases q)
  have r: "rep ph us0 (hd l)" "level_ok (store ph) l (start (us @ vs) 0) p"
    using Cons.prems(1) q by (auto simp: rep_append[of ph us0])
  have "hd l \<noteq> 0" using Cons.prems(2) q r(2) by (cases l) (auto simp: level_ok_def)
  moreover have "pril_seek ph n (Next (last l)) = Some (own (us0 @ q # us), start vs 0)"
    using Cons.IH[of "us0 @ [q]"] Cons.prems q by (simp add: own_snoc)
  ultimately show ?case
    using get_own[OF r(1)] level_prio_tail[OF r(2)] Cons.prems(3) q by (subst pril_seek.simps) auto
qed

lemma pril_level_ok:
  assumes "rep ph (us0 @ us @ (p, l) # vs) 0"
  shows "pril_level ph p (own us0) = Some (own (us0 @ us), hd l)"
  using assms
proof (induction us arbitrary: us0)
  case Nil
  have r: "rep ph us0 (hd l)" "level_ok (store ph) l (start vs 0) p" using Nil.prems by (auto simp: rep_append)
  then show ?case using get_own[OF r(1)] level_prio_tail[OF r(2)] by (subst pril_level.simps) auto
next
  case (Cons q us)
  obtain p' l' where q: "q = (p', l')" by (cases q)
  have r: "rep ph us0 (hd l')" "level_ok (store ph) l' (start (us @ (p, l) # vs) 0) p'" "p < p'"
    using Cons.prems q by (auto simp: rep_append[of ph us0])
  moreover have "pril_level ph p (Next (last l')) = Some (own (us0 @ q # us), hd l)"
    using Cons.IH[of "us0 @ [q]"] Cons.prems q by (simp add: own_snoc)
  ultimately show ?case
    using get_own[OF r(1)] level_prio_tail[OF r(2)] q by (subst pril_level.simps) auto
qed

definition prio_of :: "'a pril_entry_scheme pril_list \<Rightarrow> addr \<Rightarrow> nat" where
  "prio_of ph x = (case store ph x of None \<Rightarrow> 0 | Some n \<Rightarrow> PRIL_PRIORITY n)"

lemma level_prios: "level_ok (store ph) l nxt p \<Longrightarrow> x \<in> set l \<Longrightarrow> prio_of ph x = p"
  by (erule (1) level_entry) (auto simp: prio_of_def entry_ok_def)

lemma levels_prios: "levels_ok (store ph) ls e \<Longrightarrow> x \<in> set (entries ls) \<Longrightarrow> \<exists>u \<in> set ls. prio_of ph x = fst u \<and> x \<in> set (snd u)"
  by (induction ls) (auto simp: level_prios)

lemma keeps_trans: "keeps a b \<Longrightarrow> keeps b c \<Longrightarrow> keeps a c"
  by (simp add: keeps_def)

lemma keeps_prio: "keeps ph ph' \<Longrightarrow> prio_of ph' x = prio_of ph x"
proof -
  assume "keeps ph ph'"
  then have "map_option view (store ph' x) = map_option view (store ph x)" by (simp add: keeps_def)
  then show ?thesis by (cases "store ph x"; cases "store ph' x") (auto simp: prio_of_def view_def PRIL_PRIORITY_iff)
qed

lemma update_keeps:
  assumes "store ph a = Some n" "view (f n) = view n"
  shows "\<exists>ph'. update ph a f = Some ph' \<and> store ph' = (store ph)(a \<mapsto> f n) \<and> pdata ph' = pdata ph \<and> keeps ph ph'"
  using assms by (auto simp: update_def keeps_def)

lemma rep_frame: "rep ph us e \<Longrightarrow> pdata ph' = pdata ph \<Longrightarrow> (\<And>x. x \<in> set (entries us) \<Longrightarrow> store ph' x = store ph x) \<Longrightarrow> rep ph' us e"
  using levels_ok_cong[of us "store ph'" "store ph" e] by (simp add: rep_def)

lemma new_level_ok:
  assumes r: "rep ph us (start vs 0)" "levels_ok (store ph) vs 0" and n: "store ph d = Some n"
    and d: "d \<notin> set (entries (us @ vs))" "distinct (entries (us @ vs))"
    and p: "\<forall>u \<in> set us. PRIL_PRIORITY n < fst u" "\<forall>v \<in> set vs. fst v < PRIL_PRIORITY n"
      "\<forall>u \<in> set us. \<forall>v \<in> set vs. fst v < fst u"
  shows "\<exists>ph'. new_level ph (own us) (start vs 0) d = Some ph' \<and> rep ph' (us @ (PRIL_PRIORITY n, [d]) # vs) 0 \<and> keeps ph ph'"
proof -
  let ?f = "\<lambda>n. n\<lparr>nextp := start vs 0, type := type n OR (FLAG_HEAD OR FLAG_TAIL), prevp := Prio_tail d\<rparr>"
  obtain ph1 where ph1: "update ph d ?f = Some ph1" "store ph1 = (store ph)(d \<mapsto> ?f n)" "pdata ph1 = pdata ph" "keeps ph ph1"
    using update_keeps[OF n, of ?f] by (auto simp: view_def flag_simps)
  have "rep ph1 us (start vs 0)" by (rule rep_frame[OF r(1) ph1(3)]) (use d(1) ph1(2) in auto)
  from set_own[OF this, of d] obtain ph2 where ph2: "set_owner ph1 (own us) d = Some ph2" "rep ph2 us d" "keeps ph1 ph2"
    "\<forall>x. x \<notin> set (entries us) \<longrightarrow> store ph2 x = store ph1 x" using d(2) by auto
  have sd: "store ph2 d = Some (?f n)" using ph2(4) ph1(2) d(1) by simp
  have "level_ok (store ph2) [d] (start vs 0) (PRIL_PRIORITY n)"
    by (rule level_single[where m = "store ph2", OF sd]) (auto simp: PRIL_PRIORITY_iff flag_simps)
  moreover have "levels_ok (store ph2) vs 0 = levels_ok (store ph) vs 0"
    by (rule levels_ok_cong) (use ph1(2) ph2(4) d in auto)
  ultimately have "rep ph2 (us @ (PRIL_PRIORITY n, [d]) # vs) 0" using r ph2(2) p by (auto simp: rep_append)
  then show ?thesis using ph1 ph2 keeps_trans by (auto simp: new_level_def)
qed

lemma add_to_level_store:
  assumes h: "store ph (hd l) = Some h" and t: "store ph (last l) = Some t" and n: "store ph d = Some n"
    and d: "d \<notin> set l" "l \<noteq> []"
  shows "\<exists>ph'. add_to_level ph (hd l) (last l) d = Some ph' \<and> pdata ph' = pdata ph \<and> keeps ph ph'
    \<and> store ph' d = Some (n\<lparr>nextp := nextp t, type := (type n AND NOT FLAG_HEAD) OR FLAG_TAIL, prevp := Pril (Next (last l))\<rparr>)
    \<and> (\<forall>x n. x \<noteq> d \<longrightarrow> store ph x = Some n \<longrightarrow> store ph' x = Some (n\<lparr>prevp := if x = hd l then Prio_tail d else prevp n,
        nextp := if x = last l then d else nextp n, type := if x = last l then type n AND NOT FLAG_TAIL else type n\<rparr>))"
proof -
  have ne: "d \<noteq> hd l" "d \<noteq> last l" using d by auto
  define t1 where "t1 = (if hd l = last l then t\<lparr>prevp := Prio_tail d\<rparr> else t)"
  let ?m = "(store ph)(hd l \<mapsto> h\<lparr>prevp := Prio_tail d\<rparr>, last l \<mapsto> t1\<lparr>type := type t AND NOT FLAG_TAIL, nextp := d\<rparr>,
    d \<mapsto> n\<lparr>nextp := nextp t, type := (type n AND NOT FLAG_HEAD) OR FLAG_TAIL, prevp := Pril (Next (last l))\<rparr>)"
  have eq: "add_to_level ph (hd l) (last l) d = Some (ph\<lparr>store := ?m\<rparr>)"
  proof (cases "hd l = last l")
    case True
    then show ?thesis using h t n ne by (auto simp: add_to_level_def update_def t1_def fun_eq_iff intro!: pril_list.equality)
  next
    case False
    then show ?thesis using h t n ne by (auto simp: add_to_level_def update_def t1_def fun_eq_iff intro!: pril_list.equality)
  qed
  show ?thesis unfolding eq using h t n ne
    by (auto simp: keeps_def view_def flag_simps t1_def split: if_splits)
qed

lemma levels_split:
  assumes "levels_ok m ls e"
  obtains us vs where "ls = us @ vs" "\<forall>u \<in> set us. n < fst u" "vs \<noteq> [] \<longrightarrow> fst (hd vs) \<le> n" "\<forall>v \<in> set (tl vs). fst v < n"
proof
  show "ls = takeWhile (\<lambda>u. n < fst u) ls @ dropWhile (\<lambda>u. n < fst u) ls" by simp
  show "\<forall>u \<in> set (takeWhile (\<lambda>u. n < fst u) ls). n < fst u" by (auto dest: set_takeWhileD)
  show h: "dropWhile (\<lambda>u. n < fst u) ls \<noteq> [] \<longrightarrow> fst (hd (dropWhile (\<lambda>u. n < fst u) ls)) \<le> n"
    using hd_dropWhile[of "\<lambda>u. n < fst u" ls] by (metis not_less)
  have "levels_ok m (takeWhile (\<lambda>u. n < fst u) ls @ dropWhile (\<lambda>u. n < fst u) ls) e" using assms by simp
  then have "levels_ok m (dropWhile (\<lambda>u. n < fst u) ls) e" unfolding levels_ok_append by blast
  moreover have "levels_ok m ws e \<Longrightarrow> ws \<noteq> [] \<longrightarrow> fst (hd ws) \<le> n \<Longrightarrow> \<forall>v \<in> set (tl ws). fst v < n" for ws :: levels
    by (cases ws) (simp, clarsimp, metis fst_conv order_less_le_trans)
  ultimately show "\<forall>v \<in> set (tl (dropWhile (\<lambda>u. n < fst u) ls)). fst v < n" using h by blast
qed

lemma add_to_level_ok:
  assumes r: "rep ph (us @ (PRIL_PRIORITY n, l) # vs) 0" and n: "store ph d = Some n"
    and d: "d \<notin> set (entries (us @ (PRIL_PRIORITY n, l) # vs))" "distinct (entries (us @ (PRIL_PRIORITY n, l) # vs))"
  shows "\<exists>ph'. add_to_level ph (hd l) (last l) d = Some ph' \<and> rep ph' (us @ (PRIL_PRIORITY n, l @ [d]) # vs) 0 \<and> keeps ph ph'"
proof -
  have lev: "rep ph us (hd l)" "level_ok (store ph) l (start vs 0) (PRIL_PRIORITY n)" "levels_ok (store ph) vs 0"
    "\<forall>v \<in> set vs. fst v < PRIL_PRIORITY n" "\<forall>u \<in> set us. PRIL_PRIORITY n < fst u" "\<forall>u \<in> set us. \<forall>v \<in> set vs. fst v < fst u"
    using r by (auto simp: rep_append)
  have ne: "l \<noteq> []" using lev(2) by (simp add: level_ok_def)
  obtain h where h: "store ph (hd l) = Some h" using level_head[OF lev(2)] by auto
  obtain t where t: "store ph (last l) = Some t" "nextp t = start vs 0" using level_last[OF lev(2)] by auto
  have dl: "d \<notin> set l" "distinct l" using d by auto
  obtain ph' where a: "add_to_level ph (hd l) (last l) d = Some ph'" "pdata ph' = pdata ph" "keeps ph ph'"
    "store ph' d = Some (n\<lparr>nextp := nextp t, type := (type n AND NOT FLAG_HEAD) OR FLAG_TAIL, prevp := Pril (Next (last l))\<rparr>)"
    "\<forall>x n. x \<noteq> d \<longrightarrow> store ph x = Some n \<longrightarrow> store ph' x = Some (n\<lparr>prevp := if x = hd l then Prio_tail d else prevp n,
        nextp := if x = last l then d else nextp n, type := if x = last l then type n AND NOT FLAG_TAIL else type n\<rparr>)"
    using add_to_level_store[OF h t(1) n dl(1) ne] by blast
  have frame: "store ph' x = store ph x" if "x \<in> set (entries us) \<or> x \<in> set (entries vs)" for x
  proof -
    have "x \<noteq> d" "x \<notin> set l" using d that by auto
    then have "x \<noteq> hd l" "x \<noteq> last l" using ne by auto
    moreover have "map_option view (store ph' x) = map_option view (store ph x)" using a(3) by (simp add: keeps_def)
    ultimately show ?thesis using a(5) \<open>x \<noteq> d\<close> by (cases "store ph x") auto
  qed
  have "level_ok (store ph') (l @ [d]) (start vs 0) (PRIL_PRIORITY n)"
  proof (rule level_snoc[where m = "store ph" and m' = "store ph'", OF lev(2) dl(2) _ a(4)])
    fix x n' assume "x \<in> set l" "store ph x = Some n'"
    then show "store ph' x = Some (n'\<lparr>prevp := if x = hd l then Prio_tail d else prevp n',
        nextp := if x = last l then d else nextp n', type := if x = last l then type n' AND NOT FLAG_TAIL else type n'\<rparr>)"
      using a(5) dl(1) by auto
  qed (use t in \<open>auto simp: PRIL_PRIORITY_iff flag_simps\<close>)
  moreover have "levels_ok (store ph') vs 0 = levels_ok (store ph) vs 0" by (rule levels_ok_cong) (use frame in auto)
  moreover have "rep ph' us (hd l)" by (rule rep_frame[OF lev(1) a(2)]) (use frame in auto)
  ultimately show ?thesis using a(1,3) lev ne by (auto simp: rep_append)
qed

text \<open>Which of the two insertions \<open>pril_add\<close> makes.\<close>

lemma pril_add_at:
  assumes ok: "pril_ok ph (us @ vs)" and n: "store ph d = Some n" and p: "p = PRIL_PRIORITY n"
    and us: "\<forall>u \<in> set us. p < fst u" and vs: "vs \<noteq> [] \<longrightarrow> fst (hd vs) \<le> p"
  shows "pril_add ph d = (if vs \<noteq> [] \<and> fst (hd vs) = p then add_to_level ph (start vs 0) (last (snd (hd vs))) d
    else new_level ph (own us) (start vs 0) d)"
proof -
  have rep: "rep ph (us @ vs) 0" "0 \<notin> set (entries (us @ vs))" using ok by (auto simp: pril_ok_def)
  have seek: "pril_seek ph p Data = Some (own us, start vs 0)"
    using pril_seek_ok[of ph "[]" us vs p] rep us vs by (simp add: own_def)
  show ?thesis
  proof (cases vs)
    case Nil
    then show ?thesis using n p seek by (simp add: pril_add_def)
  next
    case (Cons v ws)
    obtain q l where v: "v = (q, l)" by (cases v)
    have lev: "level_ok (store ph) l (start ws 0) q" using rep(1) Cons v by (simp add: rep_append)
    then have "hd l \<noteq> 0" using rep(2) Cons v by (cases l) (auto simp: level_ok_def)
    then show ?thesis using n p seek Cons v level_prio_tail[OF lev] vs by (auto simp: pril_add_def)
  qed
qed

lemma pril_add_ok:
  assumes ok: "pril_ok ph ls" and d: "d \<noteq> 0" "d \<notin> set (entries ls)" and n: "store ph d = Some n"
  shows "\<exists>ph' ls'. pril_add ph d = Some ph' \<and> pril_ok ph' ls' \<and> keeps ph ph'
    \<and> entries ls' = insert_prio (prio_of ph) d (entries ls)"
proof -
  define p where "p = PRIL_PRIORITY n"
  have rep: "rep ph ls 0" "levels_ok (store ph) ls 0" "distinct (entries ls)" "0 \<notin> set (entries ls)"
    using ok by (auto simp: pril_ok_def rep_def)
  obtain us vs where uv: "ls = us @ vs" "\<forall>u \<in> set us. p < fst u" "vs \<noteq> [] \<longrightarrow> fst (hd vs) \<le> p" "\<forall>v \<in> set (tl vs). fst v < p"
    using levels_split[OF rep(2)] by blast
  note at = pril_add_at[OF ok[unfolded uv(1)] n p_def uv(2,3)]
  have pd: "prio_of ph d = p" using n by (simp add: prio_of_def p_def)
  have r: "rep ph us (start vs 0)" "levels_ok (store ph) vs 0" "\<forall>u \<in> set us. \<forall>v \<in> set vs. fst v < fst u"
    using rep(1) uv(1) by (auto simp: rep_append)
  have up: "\<forall>x \<in> set (entries us). p \<le> prio_of ph x"
    using levels_prios[of ph us "start vs 0"] r(1) uv(2) by (fastforce simp: rep_def)
  have low: "\<forall>x \<in> set (entries ws). prio_of ph x < p" if "levels_ok (store ph) ws 0" "\<forall>v \<in> set ws. fst v < p" for ws
    using levels_prios[OF that(1)] that(2) by fastforce
  have res: "\<exists>ls'. pril_ok ph' ls' \<and> entries ls' = insert_prio (prio_of ph) d (entries ls)"
    if "rep ph' ls' 0" "entries ls' = insert_prio (prio_of ph) d (entries ls)" for ph' :: "'a pril_entry_scheme pril_list" and ls'
  proof -
    have "mset (entries ls') = mset (d # entries ls)" using that(2) by (simp add: mset_insert_prio)
    then have "distinct (entries ls')" using mset_eq_imp_distinct_iff rep(3) d(2) by (metis distinct.simps(2))
    then show ?thesis using that rep(4) d(1) by (auto simp: pril_ok_def)
  qed
  show ?thesis
  proof (cases "vs \<noteq> [] \<and> fst (hd vs) = p")
    case True
    then obtain l vs' where vs: "vs = (p, l) # vs'" by (cases vs) (auto simp: prod_eq_iff)
    have lev: "level_ok (store ph) l (start vs' 0) p" "levels_ok (store ph) vs' 0" using r(2) vs by auto
    have "insert_prio (prio_of ph) d (entries ls) = (entries us @ l) @ d # entries vs'"
      unfolding uv(1) vs entries_simps append_assoc[symmetric]
      by (rule insert_prio_split) (use up level_prios[OF lev(1)] low[OF lev(2)] uv(4) vs pd in auto)
    then show ?thesis
      using add_to_level_ok[of ph us n l vs' d] rep uv(1) vs n d at res[of _ "us @ (p, l @ [d]) # vs'"] by (auto simp: p_def)
  next
    case False
    then have lt: "\<forall>v \<in> set vs. fst v < p" using uv(3,4) by (cases vs) auto
    have "insert_prio (prio_of ph) d (entries ls) = entries us @ d # entries vs"
      unfolding uv(1) entries_simps by (rule insert_prio_split) (use up low[OF r(2) lt] pd in auto)
    then show ?thesis
      using new_level_ok[OF r(1,2) n, folded p_def, OF _ _ uv(2) lt r(3)] rep(3) uv(1) d at False res[of _ "us @ (p, [d]) # vs"] by auto
  qed
qed

lemma update_rep:
  assumes "rep ph ls e" "store ph d = Some n" "d \<notin> set (entries ls)" "view (f n) = view n"
  shows "\<exists>ph'. update ph d f = Some ph' \<and> rep ph' ls e \<and> keeps ph ph'"
proof -
  obtain ph' where ph': "update ph d f = Some ph'" "store ph' = (store ph)(d \<mapsto> f n)" "pdata ph' = pdata ph" "keeps ph ph'"
    using update_keeps[where f = f, OF assms(2,4)] by blast
  have "rep ph' ls e" by (rule rep_frame[OF assms(1) ph'(3)]) (use ph'(2) assms(3) in auto)
  then show ?thesis using ph' by blast
qed

lemma rep_join:
  assumes "rep ph (us @ (p, l) # vs) 0" "rep ph' us (hd l')" "level_ok (store ph') l' (start vs 0) p"
    "\<forall>x \<in> set (entries vs). store ph' x = store ph x"
  shows "rep ph' (us @ (p, l') # vs) 0"
proof -
  have "levels_ok (store ph') vs 0 = levels_ok (store ph) vs 0" by (rule levels_ok_cong) (use assms(4) in auto)
  then show ?thesis using assms by (auto simp: rep_append)
qed

lemma rem_head_ok:
  assumes r: "rep ph (us @ (p, d # l) # vs) 0" and dl: "distinct (entries (us @ (p, d # l) # vs))" and ne: "l \<noteq> []"
    and n: "store ph d = Some n"
  shows "\<exists>ph'. rem_head ph (own us) n = Some ph' \<and> rep ph' (us @ (p, l) # vs) 0 \<and> keeps ph ph'"
proof -
  have lev: "rep ph us d" "level_ok (store ph) (d # l) (start vs 0) p" using r by (auto simp: rep_append)
  have nd: "nextp n = hd l" "prio_tail n = Some (last l)"
    using level_head[OF lev(2)] n ne by (auto simp: entry_ok_def prio_tail_def hd_conv_nth)
  obtain ph1 where ph1: "set_owner ph (own us) (hd l) = Some ph1" "rep ph1 us (hd l)" "keeps ph ph1"
    "\<forall>x. x \<notin> set (entries us) \<longrightarrow> store ph1 x = store ph x" using set_own[OF lev(1), of "hd l"] dl by auto
  obtain h where "store ph (hd l) = Some h" using lev(2) ne by (cases l) (auto simp: level_ok_def dest: spec[of _ 1])
  then have h: "store ph1 (hd l) = Some h" using ph1(4) dl ne by (cases l) auto
  let ?f = "\<lambda>n. n\<lparr>prevp := Prio_tail (last l), type := type n OR FLAG_HEAD\<rparr>"
  obtain ph2 where ph2: "update ph1 (hd l) ?f = Some ph2" "store ph2 = (store ph1)(hd l \<mapsto> ?f h)" "pdata ph2 = pdata ph1" "keeps ph1 ph2"
    using update_keeps[OF h, of ?f] by (auto simp: view_def flag_simps)
  have "rep ph2 us (hd l)" by (rule rep_frame[OF ph1(2) ph2(3)]) (use ph2(2) dl ne in \<open>cases l; auto\<close>)
  moreover have "level_ok (store ph2) l (start vs 0) p"
    by (rule level_tl[where m = "store ph", OF lev(2) _ ne]) (use dl ph1(4) ph2(2) h in auto)
  moreover have "\<forall>x \<in> set (entries vs). store ph2 x = store ph x" using ph2(2) ph1(4) dl ne by (cases l) auto
  ultimately have "rep ph2 (us @ (p, l) # vs) 0" by (rule rep_join[OF r])
  then show ?thesis using ph1 ph2 nd keeps_trans by (auto simp: rem_head_def)
qed

lemma rem_tail_store:
  assumes h: "store ph (hd l) = Some h" and t: "store ph (last l) = Some t"
    and n: "prev_pril n = Some (Next (last l))"
  shows "\<exists>ph'. rem_tail ph (hd l) n = Some ph' \<and> pdata ph' = pdata ph \<and> keeps ph ph'
    \<and> (\<forall>x e. store ph x = Some e \<longrightarrow> store ph' x = Some (e\<lparr>prevp := if x = hd l then Prio_tail (last l) else prevp e,
        nextp := if x = last l then nextp n else nextp e, type := if x = last l then type e OR FLAG_TAIL else type e\<rparr>))"
proof -
  define t1 where "t1 = (if hd l = last l then t\<lparr>prevp := Prio_tail (last l)\<rparr> else t)"
  let ?m = "(store ph)(hd l \<mapsto> h\<lparr>prevp := Prio_tail (last l)\<rparr>, last l \<mapsto> t1\<lparr>type := type t OR FLAG_TAIL, nextp := nextp n\<rparr>)"
  have eq: "rem_tail ph (hd l) n = Some (ph\<lparr>store := ?m\<rparr>)"
    using h t n
    by (cases "hd l = last l") (auto simp: rem_tail_def update_def t1_def fun_eq_iff intro!: pril_list.equality)
  show ?thesis unfolding eq using h t by (auto simp: keeps_def view_def flag_simps t1_def split: if_splits)
qed

lemma rem_tail_ok:
  assumes r: "rep ph (us @ (p, l @ [d]) # vs) 0" and dl: "distinct (entries (us @ (p, l @ [d]) # vs))" and ne: "l \<noteq> []"
    and n: "store ph d = Some n"
  shows "\<exists>ph'. rem_tail ph (hd l) n = Some ph' \<and> rep ph' (us @ (p, l) # vs) 0 \<and> keeps ph ph'"
proof -
  have lev: "rep ph us (hd l)" "level_ok (store ph) (l @ [d]) (start vs 0) p" using r ne by (auto simp: rep_append)
  have nd: "nextp n = start vs 0" "prev_pril n = Some (Next (last l))"
    using level_last[OF lev(2)] n ne by (auto simp: entry_ok_def prev_pril_def nth_append last_conv_nth)
  obtain h where h: "store ph (hd l) = Some h" using level_head[OF lev(2)] ne by auto
  obtain t where t: "store ph (last l) = Some t" using level_some[OF lev(2), of "last l"] ne by auto
  obtain ph' where ph': "rem_tail ph (hd l) n = Some ph'" "pdata ph' = pdata ph" "keeps ph ph'"
    "\<forall>x e. store ph x = Some e \<longrightarrow> store ph' x = Some (e\<lparr>prevp := if x = hd l then Prio_tail (last l) else prevp e,
        nextp := if x = last l then nextp n else nextp e, type := if x = last l then type e OR FLAG_TAIL else type e\<rparr>)"
    using rem_tail_store[OF h t nd(2)] by blast
  have frame: "store ph' x = store ph x" if "x \<in> set (entries us) \<or> x \<in> set (entries vs)" for x
  proof -
    have "x \<notin> set l" using dl that by auto
    then have "x \<noteq> hd l" "x \<noteq> last l" using ne by auto
    moreover have "map_option view (store ph' x) = map_option view (store ph x)" using ph'(3) by (simp add: keeps_def)
    ultimately show ?thesis using ph'(4) by (cases "store ph x") auto
  qed
  have "rep ph' us (hd l)" by (rule rep_frame[OF lev(1) ph'(2)]) (use frame in auto)
  moreover have "level_ok (store ph') l (start vs 0) p"
    by (rule level_butlast[where m = "store ph", OF lev(2) _ ne]) (use dl ph'(4) nd in auto)
  ultimately have "rep ph' (us @ (p, l) # vs) 0" by (rule rep_join[OF r]) (use frame in auto)
  then show ?thesis using ph' by blast
qed

lemma rem_middle_ok:
  assumes r: "rep ph (us @ (p, a @ d # b) # vs) 0" and dl: "distinct (entries (us @ (p, a @ d # b) # vs))"
    and ne: "a \<noteq> []" "b \<noteq> []" and n: "store ph d = Some n"
  shows "\<exists>ph'. rem_middle ph n = Some ph' \<and> rep ph' (us @ (p, a @ b) # vs) 0 \<and> keeps ph ph'"
proof -
  have lev: "rep ph us (hd a)" "level_ok (store ph) (a @ d # b) (start vs 0) p" using r ne by (auto simp: rep_append)
  obtain n' where "store ph d = Some n'" "entry_ok (a @ d # b) (start vs 0) p (length a) n'"
    using lev(2) by (auto simp: level_ok_def dest: spec[of _ "length a"])
  then have nd: "nextp n = hd b" "prev_pril n = Some (Next (last a))"
    using n ne by (auto simp: entry_ok_def prev_pril_def nth_append last_conv_nth hd_conv_nth)
  obtain h where h: "store ph (hd b) = Some h" using level_some[OF lev(2), of "hd b"] ne by auto
  obtain t where t: "store ph (last a) = Some t" using level_some[OF lev(2), of "last a"] ne by auto
  have "set a \<inter> set b = {}" using dl by auto
  then have nn: "hd b \<noteq> last a" using ne by (metis disjoint_iff hd_in_set last_in_set)
  let ?m = "(store ph)(hd b \<mapsto> h\<lparr>prevp := Pril (Next (last a))\<rparr>, last a \<mapsto> t\<lparr>nextp := hd b\<rparr>)"
  have eq: "rem_middle ph n = Some (ph\<lparr>store := ?m\<rparr>)" using nd h t nn by (simp add: rem_middle_def update_def)
  have frame: "?m x = store ph x" if "x \<in> set (entries us) \<or> x \<in> set (entries vs)" for x
  proof -
    have "x \<notin> set a" "x \<notin> set b" using dl that by auto
    then have "x \<noteq> hd b" "x \<noteq> last a" using ne by auto
    then show ?thesis by simp
  qed
  have "rep (ph\<lparr>store := ?m\<rparr>) us (hd (a @ b))" by (rule rep_frame[OF lev(1)[folded hd_append2[OF ne(1), of b]]]) (use frame in auto)
  moreover have "level_ok (store (ph\<lparr>store := ?m\<rparr>)) (a @ b) (start vs 0) p"
    by (rule level_mid[where m = "store ph", OF lev(2) _ ne]) (use dl h t nn in auto)
  ultimately have "rep (ph\<lparr>store := ?m\<rparr>) (us @ (p, a @ b) # vs) 0" by (rule rep_join[OF r]) (use frame in auto)
  moreover have "keeps ph (ph\<lparr>store := ?m\<rparr>)" using h t by (simp add: keeps_def view_def)
  ultimately show ?thesis using eq by blast
qed

end
