(* ===== verification/Pril_Ops.thy ===== *)
theory Pril_Ops
  imports Pril_Lists
begin

text \<open>
  Removal with registered positions, the searches, and the contract of \<open>Prio_Spec\<close> discharged for the
  kernel lists.
\<close>

lemma entries_split:
  assumes "d \<in> set (entries ls)"
  obtains us p a b vs where "ls = us @ (p, a @ d # b) # vs"
proof -
  obtain u where u: "u \<in> set ls" "d \<in> set (snd u)" using assms by (auto simp: entries_def)
  obtain us vs where "ls = us @ u # vs" using split_list[OF u(1)] by blast
  moreover obtain a b where "snd u = a @ d # b" using split_list[OF u(2)] by blast
  ultimately show ?thesis using that[of us "fst u" a b vs] by (metis prod.collapse)
qed

lemma level_at:
  assumes "level_ok m (a @ d # b) nxt p"
  shows "\<exists>n. m d = Some n \<and> PRIL_PRIORITY n = p \<and> (bit (type n) 6 \<longleftrightarrow> a = []) \<and> (bit (type n) 5 \<longleftrightarrow> b = [])
    \<and> nextp n = (if b = [] then nxt else hd b) \<and> prevp n = (if a = [] then Prio_tail (last (a @ d # b)) else Pril (Next (last a)))"
proof -
  obtain n where "m d = Some n" "entry_ok (a @ d # b) nxt p (length a) n"
    using assms by (auto simp: level_ok_def dest: spec[of _ "length a"])
  then show ?thesis by (auto simp: entry_ok_def nth_append hd_conv_nth last_conv_nth)
qed

lemma unlink_rep:
  assumes r: "rep ph (us @ (p, a @ d # b) # vs) 0" and dl: "distinct (entries (us @ (p, a @ d # b) # vs))"
    and ls': "ls' = us @ (if a @ b = [] then [] else [(p, a @ b)]) @ vs"
  shows "\<exists>ph'. pril_unlink ph d = Some ph' \<and> rep ph' ls' 0 \<and> keeps ph ph'"
proof -
  have lev: "rep ph us (hd (a @ d # b))" "level_ok (store ph) (a @ d # b) (start vs 0) p" "levels_ok (store ph) vs 0"
    "\<forall>u \<in> set us. \<forall>v \<in> set vs. fst v < fst u" using r by (auto simp: rep_append)
  obtain n where n: "store ph d = Some n" "PRIL_PRIORITY n = p" "bit (type n) 6 \<longleftrightarrow> a = []" "bit (type n) 5 \<longleftrightarrow> b = []"
    "nextp n = (if b = [] then start vs 0 else hd b)" using level_at[OF lev(2)] by blast
  have seek: "pril_level ph p Data = Some (own us, hd (a @ d # b))"
    using pril_level_ok[of ph "[]" us p "a @ d # b" vs] r by (simp add: own_def)
  have dn: "d \<notin> set (entries ls')" using dl ls' by auto
  let ?f = "\<lambda>n. n\<lparr>type := type n AND NOT (FLAG_HEAD OR FLAG_TAIL)\<rparr>"
  have vf: "view (?f e) = view e" for e :: "'a pril_entry_scheme" by (simp add: view_def flag_simps)
  have clear: "\<exists>ph'. update ph1 d ?f = Some ph' \<and> rep ph' ls' 0 \<and> keeps ph ph'" if k: "keeps ph ph1" "rep ph1 ls' 0" for ph1
  proof -
    have "map_option view (store ph1 d) = map_option view (store ph d)" using k(1) by (simp add: keeps_def)
    then obtain e where e: "store ph1 d = Some e" using n(1) by auto
    show ?thesis using update_rep[where f = ?f, OF k(2) e dn vf] keeps_trans[OF k(1)] by blast
  qed
  show ?thesis
  proof (cases "a = []"; cases "b = []")
    assume ab: "a = []" "b = []"
    then obtain ph1 where ph1: "set_owner ph (own us) (start vs 0) = Some ph1" "rep ph1 us (start vs 0)" "keeps ph ph1"
      "\<forall>x. x \<notin> set (entries us) \<longrightarrow> store ph1 x = store ph x" using set_own[OF lev(1), of "start vs 0"] dl by auto
    have "levels_ok (store ph1) vs 0 = levels_ok (store ph) vs 0" by (rule levels_ok_cong) (use ph1(4) dl in auto)
    then have "rep ph1 ls' 0" using ph1(2) lev ls' ab by (auto simp: rep_append)
    from clear[OF ph1(3) this] show ?thesis using n seek ph1(1) ab by (auto simp: pril_unlink_def flag_simps)
  next
    assume ab: "a = []" "b \<noteq> []"
    obtain ph1 where ph1: "rem_head ph (own us) n = Some ph1" "rep ph1 (us @ (p, b) # vs) 0" "keeps ph ph1"
      using rem_head_ok[of ph us p d b vs n] r dl ab n(1) by auto
    then have "rep ph1 ls' 0" using ls' ab by simp
    from clear[OF ph1(3) this] show ?thesis using n seek ph1(1) ab by (auto simp: pril_unlink_def flag_simps)
  next
    assume ab: "a \<noteq> []" "b = []"
    obtain ph1 where ph1: "rem_tail ph (hd a) n = Some ph1" "rep ph1 (us @ (p, a) # vs) 0" "keeps ph ph1"
      using rem_tail_ok[of ph us p a d vs n] r dl ab n(1) by auto
    then have "rep ph1 ls' 0" using ls' ab by simp
    from clear[OF ph1(3) this] show ?thesis using n seek ph1(1) ab by (auto simp: pril_unlink_def flag_simps)
  next
    assume ab: "a \<noteq> []" "b \<noteq> []"
    then show ?thesis using rem_middle_ok[OF r dl ab n(1)] n ls' by (auto simp: pril_unlink_def flag_simps)
  qed
qed

lemma remove1_append_mid: "distinct (xs @ d # ys) \<Longrightarrow> remove1 d (xs @ d # ys) = xs @ ys"
  by (simp add: remove1_append)

lemma pril_unlink_ok:
  assumes ok: "pril_ok ph ls" and d: "d \<in> set (entries ls)"
  shows "\<exists>ph' ls'. pril_unlink ph d = Some ph' \<and> pril_ok ph' ls' \<and> keeps ph ph' \<and> entries ls' = remove1 d (entries ls)"
proof -
  obtain us p a b vs where ls: "ls = us @ (p, a @ d # b) # vs" using entries_split[OF d] .
  have ok': "rep ph ls 0" "distinct (entries ls)" "0 \<notin> set (entries ls)" using ok by (auto simp: pril_ok_def)
  define ls' where "ls' = us @ (if a @ b = [] then [] else [(p, a @ b)]) @ vs"
  obtain ph' where ph': "pril_unlink ph d = Some ph'" "rep ph' ls' 0" "keeps ph ph'"
    using unlink_rep[of ph us p a d b vs ls'] ok'(1,2) unfolding ls ls'_def by auto
  have en: "entries ls' = (entries us @ a) @ b @ entries vs" by (auto simp: ls'_def)
  moreover have "entries ls = (entries us @ a) @ d # b @ entries vs" by (simp add: ls)
  ultimately have rm: "entries ls' = remove1 d (entries ls)" using ok'(2) remove1_append_mid by metis
  have "pril_ok ph' ls'" using ph'(2) ok'(2,3) rm by (auto simp: pril_ok_def dest: notin_set_remove1)
  then show ?thesis using ph' rm by blast
qed

section \<open>Removal with updaters\<close>

lemma entry_ok_type:
  "\<forall>i \<in> {4, 5, 6}. bit t i = bit (type n) i \<Longrightarrow> entry_ok l nxt p i (n\<lparr>type := t\<rparr>) = entry_ok l nxt p i n"
  by (simp add: entry_ok_def PRIL_PRIORITY_iff)

lemma level_ok_type:
  "m x = Some n \<Longrightarrow> \<forall>i \<in> {4, 5, 6}. bit t i = bit (type n) i \<Longrightarrow> level_ok m l nxt p
    \<Longrightarrow> level_ok (m(x \<mapsto> n\<lparr>type := t\<rparr>)) l nxt p"
  unfolding level_ok_def by (metis fun_upd_apply entry_ok_type option.inject)

lemma levels_ok_type:
  "m x = Some n \<Longrightarrow> \<forall>i \<in> {4, 5, 6}. bit t i = bit (type n) i \<Longrightarrow> levels_ok m ls e
    \<Longrightarrow> levels_ok (m(x \<mapsto> n\<lparr>type := t\<rparr>)) ls e"
  by (induction ls) (auto simp: level_ok_type simp del: fun_upd_apply)

lemma update_type:
  assumes "rep ph ls e" "store ph x = Some n" "\<forall>i \<in> {4, 5, 6}. bit (f (type n)) i = bit (type n) i"
  shows "\<exists>ph'. update ph x (\<lambda>n. n\<lparr>type := f (type n)\<rparr>) = Some ph' \<and> rep ph' ls e \<and> keeps ph ph'
    \<and> store ph' x = Some (n\<lparr>type := f (type n)\<rparr>)"
  using update_keeps[OF assms(2), of "\<lambda>n. n\<lparr>type := f (type n)\<rparr>"] assms(1)
    levels_ok_type[where m = "store ph", OF assms(2,3)] assms(3)
  by (auto simp: view_def rep_def)

lemma update_flag:
  assumes "rep ph ls e" "store ph x \<noteq> None"
  shows "\<exists>ph'. update ph x (\<lambda>n. n\<lparr>type := type n OR FLAG_UPDATER\<rparr>) = Some ph' \<and> rep ph' ls e \<and> keeps ph ph'"
  using assms(2) update_type[OF assms(1), of x _ "\<lambda>t. t OR FLAG_UPDATER"] by (auto simp: flag_simps)

lemma keeps_some: "keeps ph ph' \<Longrightarrow> store ph' x = None \<longleftrightarrow> store ph x = None"
  by (metis keeps_def map_option_is_None)

lemma keeps_refl: "keeps ph ph"
  by (simp add: keeps_def)

lemma rem_updaters_ok:
  assumes "rep ph ls e" "(\<exists>u. (u, d) \<in> set us) \<longrightarrow> store ph nxt \<noteq> None"
  shows "\<exists>ph'. rem_updaters ph us d nxt = Some (ph', map (\<lambda>(u, e). (u, if e = d then nxt else e)) us) \<and> rep ph' ls e \<and> keeps ph ph'"
  using assms
proof (induction us arbitrary: ph)
  case Nil
  then show ?case by (simp add: keeps_refl)
next
  case (Cons w us)
  obtain u f where w: "w = (u, f)" by (cases w)
  show ?case
  proof (cases "f = d")
    case False
    then show ?thesis using Cons.IH[OF Cons.prems(1)] Cons.prems(2) w by auto
  next
    case True
    then obtain ph1 where ph1: "update ph nxt (\<lambda>n. n\<lparr>type := type n OR FLAG_UPDATER\<rparr>) = Some ph1" "rep ph1 ls e" "keeps ph ph1"
      using update_flag[OF Cons.prems(1)] Cons.prems(2) w by auto
    have "(\<exists>u. (u, d) \<in> set us) \<longrightarrow> store ph1 nxt \<noteq> None" using Cons.prems(2) keeps_some[OF ph1(3)] w by auto
    from Cons.IH[OF ph1(2) this] show ?thesis using ph1 w True keeps_trans[OF ph1(3)] by auto
  qed
qed

lemma split_unique: "us @ x # vs = xs @ x # ys \<Longrightarrow> x \<notin> set us \<Longrightarrow> x \<notin> set xs \<Longrightarrow> vs = ys"
  by (induction us arbitrary: xs) (case_tac xs; auto)+

lemma next_entry:
  assumes r: "rep ph ls e" and d: "distinct (entries ls)" and x: "entries ls = xs @ x # ys"
  shows "\<exists>n. store ph x = Some n \<and> nextp n = (if ys = [] then e else hd ys)"
proof -
  have xin: "x \<in> set (entries ls)" using x by simp
  obtain us p a b vs where ls: "ls = us @ (p, a @ x # b) # vs" using entries_split[OF xin] .
  have lev: "level_ok (store ph) (a @ x # b) (start vs e) p" "levels_ok (store ph) vs e" using r ls by (auto simp: rep_append)
  have "(entries us @ a) @ x # b @ entries vs = xs @ x # ys" using x ls by simp
  moreover have "x \<notin> set (entries us @ a)" using d ls by auto
  moreover have "x \<notin> set xs" using d unfolding x by simp
  ultimately have ys: "ys = b @ entries vs" using split_unique by metis
  have "start vs e = (if entries vs = [] then e else hd (entries vs))"
  proof (cases vs)
    case (Cons q ws)
    then have "snd q \<noteq> []" using levels_ok_nonempty[OF lev(2), of q] by simp
    then show ?thesis using Cons by (cases q) simp
  qed simp
  then show ?thesis using level_at[OF lev(1)] ys by (cases b) auto
qed

lemma next_in_list:
  assumes ok: "pril_ok ph ls" and d: "d \<in> set (entries ls)" and n: "store ph d = Some n"
  shows "nextp n \<noteq> 0 \<longrightarrow> nextp n \<in> set (entries ls)"
proof -
  obtain xs ys where x: "entries ls = xs @ d # ys" using split_list[OF d] by blast
  from next_entry[of ph ls 0, OF _ _ x] ok n show ?thesis using x by (cases ys) (auto simp: pril_ok_def)
qed

lemma entries_some: "pril_ok ph ls \<Longrightarrow> x \<in> set (entries ls) \<Longrightarrow> store ph x \<noteq> None"
proof -
  assume ok: "pril_ok ph ls" and x: "x \<in> set (entries ls)"
  obtain xs ys where "entries ls = xs @ x # ys" using split_list[OF x] by blast
  from next_entry[of ph ls 0, OF _ _ this] ok show ?thesis by (auto simp: pril_ok_def)
qed

lemma pril_rem_ok:
  assumes ok: "pril_ok ph ls" and d: "d \<in> set (entries ls)" and n: "store ph d = Some n"
    and safe: "bit (type n) 7 \<and> nextp n = 0 \<longrightarrow> (\<forall>u. (u, d) \<notin> set us)"
  shows "\<exists>ph' ls'. pril_rem ph us d = Some (ph', if bit (type n) 7 then map (\<lambda>(u, e). (u, if e = d then nextp n else e)) us else us)
    \<and> pril_ok ph' ls' \<and> keeps ph ph' \<and> entries ls' = remove1 d (entries ls)"
proof -
  obtain ph1 ls' where ph1: "pril_unlink ph d = Some ph1" "pril_ok ph1 ls'" "keeps ph ph1" "entries ls' = remove1 d (entries ls)"
    using pril_unlink_ok[OF ok d] by blast
  show ?thesis
  proof (cases "bit (type n) 7")
    case False
    then show ?thesis using n ph1 by (auto simp: pril_rem_def type_bits)
  next
    case True
    have "(\<exists>u. (u, d) \<in> set us) \<longrightarrow> store ph1 (nextp n) \<noteq> None"
      using safe True next_in_list[OF ok d n] entries_some[OF ok] keeps_some[OF ph1(3)] by blast
    moreover have "rep ph1 ls' 0" using ph1(2) by (simp add: pril_ok_def)
    ultimately obtain ph' where ph': "rem_updaters ph1 us d (nextp n) = Some (ph', map (\<lambda>(u, e). (u, if e = d then nextp n else e)) us)"
      "rep ph' ls' 0" "keeps ph1 ph'" using rem_updaters_ok by blast
    have "pril_ok ph' ls'" using ph1(2) ph'(2) by (simp add: pril_ok_def)
    then show ?thesis using n True ph1 ph' keeps_trans[OF ph1(3) ph'(3)]
      by (intro exI[of _ ph'] exI[of _ ls']) (simp add: pril_rem_def type_bits)
  qed
qed

lemma rem_updaters_null: "store ph 0 = None \<Longrightarrow> (u, d) \<in> set us \<Longrightarrow> rem_updaters ph us d 0 = None"
  by (induction us) (auto simp: update_def)

section \<open>Searching\<close>

lemma find_insertion_ok:
  assumes ok: "pril_ok ph ls" and same: "same = filter (\<lambda>x. prio_of ph x = wanted_priority prio) (entries ls)"
  shows "pril_find_insertion ph prio =
    Some (if same = [] then 0 else if prio AND PULSE_PRIO_HEAD \<noteq> 0 then hd same else last same)"
proof -
  let ?p = "wanted_priority prio"
  have rep: "rep ph ls 0" "levels_ok (store ph) ls 0" "0 \<notin> set (entries ls)" using ok by (auto simp: pril_ok_def rep_def)
  obtain us vs where uv: "ls = us @ vs" "\<forall>u \<in> set us. ?p < fst u" "vs \<noteq> [] \<longrightarrow> fst (hd vs) \<le> ?p" "\<forall>v \<in> set (tl vs). fst v < ?p"
    using levels_split[OF rep(2)] by blast
  have seek: "pril_seek ph ?p Data = Some (own us, start vs 0)"
    using pril_seek_ok[of ph "[]" us vs ?p] rep uv by (simp add: own_def)
  have r: "levels_ok (store ph) us (start vs 0)" "levels_ok (store ph) vs 0" using rep(2) uv(1) by (auto simp: levels_ok_append)
  have none: "filter (\<lambda>x. prio_of ph x = ?p) (entries ws) = []" if "levels_ok (store ph) ws e" "\<forall>w \<in> set ws. fst w \<noteq> ?p" for ws e
    using levels_prios[OF that(1)] that(2) by (fastforce simp: filter_empty_conv)
  have usn: "filter (\<lambda>x. prio_of ph x = ?p) (entries us) = []" by (rule none[OF r(1)]) (use uv(2) in auto)
  show ?thesis
  proof (cases vs)
    case Nil
    then show ?thesis using seek usn same uv(1) by (simp add: pril_find_insertion_def)
  next
    case (Cons v ws)
    obtain p l where v: "v = (p, l)" by (cases v)
    have lev: "level_ok (store ph) l (start ws 0) p" "levels_ok (store ph) ws 0" using r(2) Cons v by auto
    have l: "l \<noteq> []" "hd l \<noteq> 0" using lev(1) rep(3) uv(1) Cons v by (cases l; auto simp: level_ok_def)+
    have wsn: "filter (\<lambda>x. prio_of ph x = ?p) (entries ws) = []" by (rule none[OF lev(2)]) (use uv(4) Cons in auto)
    have "filter (\<lambda>x. prio_of ph x = ?p) l = (if p = ?p then l else [])"
      using level_prios[OF lev(1)] by (auto simp: filter_empty_conv filter_id_conv)
    then have "same = (if p = ?p then l else [])" using same usn wsn uv(1) Cons v by simp
    moreover have "p \<le> ?p" using uv(3) Cons v by simp
    ultimately show ?thesis using seek Cons v l level_prio_tail[OF lev(1)] by (auto simp: pril_find_insertion_def)
  qed
qed

lemma next_prio_ok:
  assumes ok: "pril_ok ph ls" and ls: "ls = us @ (p, l) # vs"
  shows "pril_next_prio ph (hd l) = Some (start vs 0)" "x \<in> set (tl l) \<Longrightarrow> pril_next_prio ph x = None"
proof -
  have lev: "level_ok (store ph) l (start vs 0) p" using ok ls by (auto simp: pril_ok_def rep_append)
  obtain h where h: "store ph (hd l) = Some h" "entry_ok l (start vs 0) p 0 h" using level_head[OF lev] by auto
  then show "pril_next_prio ph (hd l) = Some (start vs 0)"
    using level_last[OF lev] by (auto simp: pril_next_prio_def entry_ok_def prio_tail_def flag_simps)
  assume "x \<in> set (tl l)"
  then obtain a b where ab: "tl l = a @ x # b" by (meson split_list)
  then have l: "l = (hd l # a) @ x # b" by (cases l) auto
  have "level_ok (store ph) ((hd l # a) @ x # b) (start vs 0) p" by (subst l[symmetric]) (rule lev)
  from level_at[OF this] show "pril_next_prio ph x = None" by (auto simp: pril_next_prio_def flag_simps)
qed

section \<open>The list a structure holds\<close>

definition pril_holds :: "'a pril_entry_scheme pril_list \<Rightarrow> addr list \<Rightarrow> bool" where
  "pril_holds ph xs \<longleftrightarrow> (\<exists>ls. pril_ok ph ls \<and> entries ls = xs)"

definition usable :: "'a pril_entry_scheme pril_list \<Rightarrow> addr \<Rightarrow> bool" where
  "usable ph d \<longleftrightarrow> d \<noteq> 0 \<and> store ph d \<noteq> None"

definition pril_rem_plain :: "'a pril_entry_scheme pril_list \<Rightarrow> addr \<Rightarrow> 'a pril_entry_scheme pril_list option" where
  "pril_rem_plain ph d = map_option fst (pril_rem ph [] d)"

lemma levels_descending:
  "levels_ok (store ph) ls e \<Longrightarrow> sorted_wrt (\<lambda>x y. prio_of ph y \<le> prio_of ph x) (entries ls)"
proof (induction ls)
  case (Cons q ls)
  obtain p l where q: "q = (p, l)" by (cases q)
  have lev: "level_ok (store ph) l (start ls e) p" "levels_ok (store ph) ls e" "\<forall>x \<in> set ls. fst x < p" using Cons.prems q by auto
  have same: "prio_of ph x = p" if "x \<in> set l" for x using level_prios[OF lev(1) that] .
  have "sorted_wrt (\<lambda>x y. prio_of ph y \<le> prio_of ph x) l" unfolding sorted_wrt_iff_nth_less using same by simp
  moreover have "prio_of ph y \<le> p" if "y \<in> set (entries ls)" for y using levels_prios[OF lev(2) that] lev(3) by fastforce
  ultimately show ?case using Cons.IH[OF lev(2)] q same by (auto simp: sorted_wrt_append)
qed simp

lemma lists_ordered: "pril_holds ph xs \<Longrightarrow> sorted_wrt (\<lambda>x y. prio_of ph y \<le> prio_of ph x) xs"
  by (auto simp: pril_holds_def pril_ok_def rep_def levels_descending)

lemma lists_distinct: "pril_holds ph xs \<Longrightarrow> distinct xs"
  by (auto simp: pril_holds_def pril_ok_def)

lemma keeps_usable: "keeps ph ph' \<Longrightarrow> usable ph' = usable ph"
  using keeps_some[of ph ph'] by (simp add: usable_def fun_eq_iff)

lemma lists_add:
  assumes "pril_holds ph xs" "usable ph d" "d \<notin> set xs"
  shows "\<exists>ph'. pril_add ph d = Some ph' \<and> pril_holds ph' (insert_prio (prio_of ph) d xs) \<and> keeps ph ph'"
proof -
  obtain ls where ls: "pril_ok ph ls" "entries ls = xs" using assms(1) by (auto simp: pril_holds_def)
  obtain n where n: "store ph d = Some n" "d \<noteq> 0" using assms(2) by (auto simp: usable_def)
  show ?thesis using pril_add_ok[OF ls(1) n(2) _ n(1)] ls(2) assms(3) unfolding pril_holds_def by blast
qed

lemma lists_rem:
  assumes "pril_holds ph xs" "d \<in> set xs" "store ph d = Some n" "bit (type n) 7 \<and> nextp n = 0 \<longrightarrow> (\<forall>u. (u, d) \<notin> set us)"
  shows "\<exists>ph'. pril_rem ph us d = Some (ph', if bit (type n) 7 then map (\<lambda>(u, e). (u, if e = d then nextp n else e)) us else us)
    \<and> pril_holds ph' (remove1 d xs) \<and> keeps ph ph'"
proof -
  obtain ls where ls: "pril_ok ph ls" "entries ls = xs" using assms(1) by (auto simp: pril_holds_def)
  show ?thesis using pril_rem_ok[OF ls(1) _ assms(3,4)] assms(2) ls(2) unfolding pril_holds_def by blast
qed

lemma lists_some: "pril_holds ph xs \<Longrightarrow> x \<in> set xs \<Longrightarrow> store ph x \<noteq> None"
  by (auto simp: pril_holds_def dest: entries_some)

lemma lists_unmark:
  assumes "pril_holds ph xs" "d \<in> set xs"
  shows "\<exists>ph' n. update ph d (\<lambda>n. n\<lparr>type := type n AND NOT FLAG_UPDATER\<rparr>) = Some ph' \<and> pril_holds ph' xs
    \<and> keeps ph ph' \<and> store ph' d = Some n \<and> \<not> bit (type n) 7"
proof -
  obtain n where n: "store ph d = Some n" using lists_some[OF assms] by auto
  obtain ls where ls: "pril_ok ph ls" "entries ls = xs" using assms(1) by (auto simp: pril_holds_def)
  then have "rep ph ls 0" by (simp add: pril_ok_def)
  from update_type[OF this n, of "\<lambda>t. t AND NOT FLAG_UPDATER"] ls show ?thesis
    unfolding pril_holds_def pril_ok_def by (fastforce simp: flag_simps)
qed

lemma lists_next:
  assumes "pril_holds ph (xs @ x # ys)"
  shows "\<exists>n. store ph x = Some n \<and> nextp n = (if ys = [] then 0 else hd ys)"
  using assms next_entry[of ph _ 0 xs x ys] by (auto simp: pril_holds_def pril_ok_def)

lemma keeps_prio_fun: "keeps ph ph' \<Longrightarrow> prio_of ph' = prio_of ph"
  using keeps_prio by auto

interpretation pril: prio_queue pril_holds prio_of usable pril_add pril_rem_plain
proof unfold_locales
  fix ph :: "'a pril_entry_scheme pril_list" and xs x
  show "pril_holds ph xs \<Longrightarrow> sorted_wrt (\<lambda>x y. prio_of ph y \<le> prio_of ph x) xs" by (rule lists_ordered)
  show "pril_holds ph xs \<Longrightarrow> usable ph x \<Longrightarrow> x \<notin> set xs \<Longrightarrow>
      \<exists>s'. pril_add ph x = Some s' \<and> pril_holds s' (insert_prio (prio_of ph) x xs) \<and> prio_of s' = prio_of ph \<and> usable s' = usable ph"
    using lists_add keeps_prio_fun keeps_usable by blast
  assume l: "pril_holds ph xs" and x: "x \<in> set xs"
  then obtain n where "store ph x = Some n" using lists_some by fastforce
  from lists_rem[OF l x this, of "[]"]
  show "\<exists>s'. pril_rem_plain ph x = Some s' \<and> pril_holds s' (remove1 x xs) \<and> prio_of s' = prio_of ph \<and> usable s' = usable ph"
    using keeps_prio_fun keeps_usable by (fastforce simp: pril_rem_plain_def)
qed

section \<open>The consistency check\<close>

lemma lists_first: "pril_holds ph xs \<Longrightarrow> pril_first ph = (if xs = [] then 0 else hd xs)"
proof -
  assume "pril_holds ph xs"
  then obtain ls where ls: "pril_ok ph ls" "entries ls = xs" by (auto simp: pril_holds_def)
  then have r: "levels_ok (store ph) ls 0" "pdata ph = start ls 0" by (auto simp: pril_ok_def rep_def)
  show ?thesis
  proof (cases ls)
    case (Cons q ws)
    then have "snd q \<noteq> []" using levels_ok_nonempty[OF r(1), of q] by simp
    then show ?thesis using r(2) ls(2) Cons by (cases q) (auto simp: pril_first_def)
  qed (use r(2) ls(2) in \<open>auto simp: pril_first_def\<close>)
qed

definition owner_after :: "addr list \<Rightarrow> owner" where
  "owner_after us = (if us = [] then Data else Next (last us))"

lemma holds_owner:
  assumes "pril_holds ph (us @ ys)"
  shows "get_owner ph (owner_after us) = Some (if ys = [] then 0 else hd ys)"
proof (cases us rule: rev_cases)
  case Nil
  then show ?thesis using lists_first[of ph ys] assms by (simp add: owner_after_def pril_first_def)
next
  case (snoc xs x)
  then show ?thesis using lists_next[of ph xs x ys] assms by (auto simp: owner_after_def)
qed

lemma holds_place:
  assumes "pril_holds ph (us @ x # ys)"
  obtains as p a b vs where "us = entries as @ a" "ys = b @ entries vs" "level_ok (store ph) (a @ x # b) (start vs 0) p"
    "\<forall>y \<in> set (entries vs). \<exists>m. store ph y = Some m \<and> PRIL_PRIORITY m < p"
proof -
  obtain ls where ls: "pril_ok ph ls" "entries ls = us @ x # ys" using assms by (auto simp: pril_holds_def)
  have xin: "x \<in> set (entries ls)" using ls(2) by simp
  obtain as p a b vs where sp: "ls = as @ (p, a @ x # b) # vs" using entries_split[OF xin] .
  have d: "distinct (entries ls)" "levels_ok (store ph) ls 0" using ls(1) by (auto simp: pril_ok_def rep_def)
  have lev: "level_ok (store ph) (a @ x # b) (start vs 0) p" "levels_ok (store ph) vs 0" "\<forall>v \<in> set vs. fst v < p"
    using d(2) sp by (auto simp: levels_ok_append)
  have eq: "(entries as @ a) @ x # b @ entries vs = us @ x # ys" using ls(2) sp by simp
  have "x \<notin> set (entries as @ a)" using d(1) sp by auto
  moreover have "x \<notin> set us" using d(1) unfolding ls(2) by simp
  ultimately have ys: "ys = b @ entries vs" using split_unique[OF eq] by simp
  have low: "\<exists>m. store ph y = Some m \<and> PRIL_PRIORITY m < p" if y: "y \<in> set (entries vs)" for y
  proof -
    have "y \<in> set (entries ls)" using y sp by simp
    then obtain m where "store ph y = Some m" using entries_some[OF ls(1)] by auto
    then show ?thesis using levels_prios[OF lev(2) y] lev(3) by (fastforce simp: prio_of_def)
  qed
  show thesis by (rule that[of as a b vs p]) (use eq ys lev(1) low in auto)
qed

lemma holds_entry:
  assumes "pril_holds ph (us @ x # ys)"
  shows "\<exists>n. store ph x = Some n \<and> nextp n = (if ys = [] then 0 else hd ys)
    \<and> (if bit (type n) 6 then \<exists>t m. prevp n = Prio_tail t \<and> store ph t = Some m \<and> PRIL_PRIORITY m = PRIL_PRIORITY n
        else prevp n = Pril (owner_after us))
    \<and> (if bit (type n) 5 then ys = [] \<or> (\<exists>m. store ph (hd ys) = Some m \<and> PRIL_PRIORITY m < PRIL_PRIORITY n)
        else ys \<noteq> [] \<and> (\<exists>m. store ph (hd ys) = Some m \<and> PRIL_PRIORITY m = PRIL_PRIORITY n))"
proof -
  obtain as p a b vs where sp: "us = entries as @ a" "ys = b @ entries vs" "level_ok (store ph) (a @ x # b) (start vs 0) p"
    "\<forall>y \<in> set (entries vs). \<exists>m. store ph y = Some m \<and> PRIL_PRIORITY m < p" using holds_place[OF assms] .
  obtain n where n: "store ph x = Some n" "PRIL_PRIORITY n = p" "bit (type n) 6 \<longleftrightarrow> a = []" "bit (type n) 5 \<longleftrightarrow> b = []"
    "prevp n = (if a = [] then Prio_tail (last (a @ x # b)) else Pril (Next (last a)))"
    using level_at[OF sp(3)] by blast
  have tail: "\<exists>m. store ph (last (a @ x # b)) = Some m \<and> PRIL_PRIORITY m = p"
    using level_last[OF sp(3)] by (auto simp: entry_ok_def)
  have nxt: "\<exists>m. store ph (hd b) = Some m \<and> PRIL_PRIORITY m = p" if "b \<noteq> []"
  proof -
    have "hd b \<in> set (a @ x # b)" using that by simp
    then show ?thesis by (rule level_entry[OF sp(3)]) (auto simp: entry_ok_def)
  qed
  have low: "\<exists>m. store ph (hd ys) = Some m \<and> PRIL_PRIORITY m < p" if "b = []" "ys \<noteq> []"
    using that sp(2,4) hd_in_set[of ys] by auto
  have st: "nextp n = (if ys = [] then 0 else hd ys)" using lists_next[OF assms] n(1) by auto
  show ?thesis
  proof (intro exI[of _ n] conjI n(1) st)
    show "if bit (type n) 6 then \<exists>t m. prevp n = Prio_tail t \<and> store ph t = Some m \<and> PRIL_PRIORITY m = PRIL_PRIORITY n
        else prevp n = Pril (owner_after us)"
      using n tail sp(1) by (cases "a = []") (auto simp: owner_after_def)
    show "if bit (type n) 5 then ys = [] \<or> (\<exists>m. store ph (hd ys) = Some m \<and> PRIL_PRIORITY m < PRIL_PRIORITY n)
        else ys \<noteq> [] \<and> (\<exists>m. store ph (hd ys) = Some m \<and> PRIL_PRIORITY m = PRIL_PRIORITY n)"
      using n(2,4) nxt low sp(2) by (cases "b = []") (auto simp: hd_append)
  qed
qed

lemma validate_ok:
  assumes "pril_holds ph (us @ ys)" "np \<notin> set ys"
  shows "validate_from ph np (owner_after us) pr = Some (if pr \<in> set ys then 0 else pr)"
  using assms
proof (induction ys arbitrary: us pr)
  case Nil
  then show ?case using holds_owner[OF Nil.prems(1)] by (subst validate_from.simps) simp
next
  case (Cons x ys)
  obtain n where n: "store ph x = Some n" "nextp n = (if ys = [] then 0 else hd ys)"
    "if bit (type n) 6 then \<exists>t m. prevp n = Prio_tail t \<and> store ph t = Some m \<and> PRIL_PRIORITY m = PRIL_PRIORITY n
        else prevp n = Pril (owner_after us)"
    "if bit (type n) 5 then ys = [] \<or> (\<exists>m. store ph (hd ys) = Some m \<and> PRIL_PRIORITY m < PRIL_PRIORITY n)
        else ys \<noteq> [] \<and> (\<exists>m. store ph (hd ys) = Some m \<and> PRIL_PRIORITY m = PRIL_PRIORITY n)"
    using holds_entry[OF Cons.prems(1)] by blast
  have z: "0 \<notin> set (x # ys)" using Cons.prems(1) unfolding pril_holds_def pril_ok_def by (metis UnI2 set_append)
  have nx: "np \<noteq> x" "owner_after (us @ [x]) = Next x" using Cons.prems(2) by (auto simp: owner_after_def)
  have ih: "validate_from ph np (Next x) pr' = Some (if pr' \<in> set ys then 0 else pr')" for pr'
    using Cons.IH[of "us @ [x]" pr'] Cons.prems nx(2) by simp
  have get: "get_owner ph (owner_after us) = Some x" using holds_owner[OF Cons.prems(1)] by simp
  have head: "(if type n AND FLAG_HEAD \<noteq> 0
      then do { t \<leftarrow> prio_tail n; m \<leftarrow> store ph t; if PRIL_PRIORITY n \<noteq> PRIL_PRIORITY m then None else Some () }
      else do { v \<leftarrow> prev_pril n; if v \<noteq> owner_after us then None else Some () }) = Some ()"
    using n(3) by (auto simp: type_bits prio_tail_def prev_pril_def split: if_splits)
  have tail: "(if type n AND FLAG_TAIL \<noteq> 0
      then (if nextp n = 0 then Some ()
            else do { m \<leftarrow> store ph (nextp n); if PRIL_PRIORITY n \<le> PRIL_PRIORITY m then None else Some () })
      else do { m \<leftarrow> store ph (nextp n); if PRIL_PRIORITY n \<noteq> PRIL_PRIORITY m then None else Some () }) = Some ()"
    using n(2,4) z by (auto simp: type_bits split: if_splits)
  show ?case using get n(1) nx(1) head tail z by (subst validate_from.simps) (simp add: ih)
qed

lemma pril_validate_ok: "pril_holds ph xs \<Longrightarrow> pr = 0 \<or> pr \<in> set xs \<Longrightarrow> np \<notin> set xs \<Longrightarrow> pril_validate ph pr np = Some ()"
  using validate_ok[of ph "[]" xs np pr] by (auto simp: pril_validate_def owner_after_def)

lemma holds_nonzero: "pril_holds ph xs \<Longrightarrow> 0 \<notin> set xs"
  unfolding pril_holds_def pril_ok_def by metis

end
