(* ===== verification/Pulse_Proofs.thy ===== *)
theory Pulse_Proofs
  imports Pril_Ops
begin

text \<open>
  What a pulse queue holds beyond its order, the number of pending events, and how the cases of
  \<open>pulse_add\<close> change them.
\<close>

section \<open>Pulse queues\<close>

text \<open>What a queued pulse says, and how many events of it are pending.\<close>

definition says :: "pulse_queue \<Rightarrow> addr \<Rightarrow> (8 word \<times> 32 word \<times> 32 word) option" where
  "says q x = map_option (\<lambda>p. (code p, ident p, val p)) (store q x)"

definition due :: "pulse_queue \<Rightarrow> addr \<Rightarrow> nat" where
  "due q x = (case store q x of None \<Rightarrow> 0 | Some p \<Rightarrow> unat (count p))"

definition events :: "pulse_queue \<Rightarrow> levels \<Rightarrow> nat" where
  "events q ls = sum_list (map (due q) (entries ls))"

definition raw_prio :: "pulse_queue \<Rightarrow> addr \<Rightarrow> nat" where
  "raw_prio q x = (case store q x of None \<Rightarrow> 0 | Some p \<Rightarrow> priority p)"

definition is_for :: "pulse_queue \<Rightarrow> 8 word \<Rightarrow> 32 word \<Rightarrow> addr \<Rightarrow> bool" where
  "is_for q cd i x = (case store q x of None \<Rightarrow> False | Some p \<Rightarrow> code p = cd \<and> ident p = i)"

lemma view_pulse:
  "view p = view p' \<Longrightarrow> priority p = priority p' \<and> code p = code p' \<and> ident p = ident p' \<and> val p = val p' \<and> count p = count p'"
  for p p' :: pulse
  by (cases p, cases p') (simp add: view_def)

lemma keeps_pulse:
  fixes q :: pulse_queue
  assumes "keeps q q'"
  shows "says q' x = says q x" "due q' x = due q x" "raw_prio q' x = raw_prio q x"
proof -
  have v: "map_option view (store q' x) = map_option view (store q x)" using assms by (simp add: keeps_def)
  show "says q' x = says q x" "due q' x = due q x" "raw_prio q' x = raw_prio q x"
    using v by (cases "store q x"; cases "store q' x"; auto simp: says_def due_def raw_prio_def dest: view_pulse)+
qed

text \<open>Changing the fields of a pulse that the lists do not use.\<close>

definition pulse_links :: "pulse \<Rightarrow> addr \<times> prev \<times> 8 word \<times> nat" where
  "pulse_links p = (nextp p, prevp p, type p, priority p)"

lemma levels_ok_pulse_links:
  assumes "\<And>x. map_option pulse_links (m' x) = map_option pulse_links (m x)"
  shows "levels_ok m' ls e = levels_ok m ls e"
proof -
  have "(\<exists>n. m' x = Some n \<and> entry_ok l nxt p i n) = (\<exists>n. m x = Some n \<and> entry_ok l nxt p i n)" for x l nxt p i
    using assms[of x] by (cases "m x"; cases "m' x") (auto simp: pulse_links_def entry_ok_def PRIL_PRIORITY_def)
  then have "level_ok m' l nxt p = level_ok m l nxt p" for l nxt p by (simp add: level_ok_def)
  then show ?thesis by (induction ls) auto
qed

lemma update_pulse:
  assumes ok: "pril_ok q ls" and p: "store q x = Some p" and f: "pulse_links (f p) = pulse_links p"
  shows "update q x f = Some (q\<lparr>store := (store q)(x \<mapsto> f p)\<rparr>)" "pril_ok (q\<lparr>store := (store q)(x \<mapsto> f p)\<rparr>) ls"
    "prio_of (q\<lparr>store := (store q)(x \<mapsto> f p)\<rparr>) y = prio_of q y"
proof -
  show "update q x f = Some (q\<lparr>store := (store q)(x \<mapsto> f p)\<rparr>)" using p by (simp add: update_def)
  have "levels_ok ((store q)(x \<mapsto> f p)) ls 0 = levels_ok (store q) ls 0" by (rule levels_ok_pulse_links) (use p f in auto)
  then show "pril_ok (q\<lparr>store := (store q)(x \<mapsto> f p)\<rparr>) ls" using ok by (simp add: pril_ok_def rep_def)
  show "prio_of (q\<lparr>store := (store q)(x \<mapsto> f p)\<rparr>) y = prio_of q y"
    using p f by (auto simp: prio_of_def pulse_links_def PRIL_PRIORITY_def)
qed

lemma events_update:
  assumes "distinct (entries ls)" "x \<in> set (entries ls)" "\<forall>y \<in> set (entries ls). y \<noteq> x \<longrightarrow> due q' y = due q y"
  shows "events q' ls + due q x = events q ls + due q' x"
proof -
  have split: "sum_list (map g (entries ls)) = g x + sum_list (map g (remove1 x (entries ls)))" for g :: "addr \<Rightarrow> nat"
    using assms(2) by (metis sum_list_map_remove1)
  have "map (due q') (remove1 x (entries ls)) = map (due q) (remove1 x (entries ls))"
    using assms by (auto simp: set_remove1_eq)
  then show ?thesis unfolding events_def split[of "due q'"] split[of "due q"] by presburger
qed

lemma pulse_scan_ok:
  assumes ok: "pril_ok q ls" and e: "entries ls = xs @ ys"
  shows "pulse_scan q p cd i (if ys = [] then 0 else hd ys) =
    Some (case find (is_for q cd i) (takeWhile (\<lambda>x. raw_prio q x = p) ys) of None \<Rightarrow> 0 | Some x \<Rightarrow> x)"
  using e
proof (induction ys arbitrary: xs)
  case Nil
  then show ?case by (subst pulse_scan.simps) simp
next
  case (Cons y ys)
  have "y \<noteq> 0" using ok Cons.prems by (auto simp: pril_ok_def)
  moreover obtain n where n: "store q y = Some n" "nextp n = (if ys = [] then 0 else hd ys)"
    using next_entry[of q ls 0 xs y ys] ok Cons.prems by (auto simp: pril_ok_def)
  moreover have "pulse_scan q p cd i (nextp n) = Some (case find (is_for q cd i) (takeWhile (\<lambda>x. raw_prio q x = p) ys) of None \<Rightarrow> 0 | Some x \<Rightarrow> x)"
    using Cons.IH[of "xs @ [y]"] Cons.prems n(2) by simp
  ultimately show ?case by (subst pulse_scan.simps) (simp add: raw_prio_def is_for_def)
qed

lemma pulse_type_first: "bit (pulse_type prio) 4 \<longleftrightarrow> prio AND PULSE_PRIO_BOOST \<noteq> 0"
proof -
  have "\<not> bit TYPE_VPULSE 4" "\<not> bit TYPE_SIGNAL 4" "\<not> bit TYPE_PULSE 4"
    by (simp_all add: TYPE_VPULSE_def TYPE_SIGNAL_def TYPE_PULSE_def)
  then show ?thesis by (simp add: pulse_type_def bit_ops flag_const_bits)
qed

lemma events_insert: "entries ls' = insert_prio f a (entries ls) \<Longrightarrow> events q ls' = due q a + events q ls"
proof -
  assume e: "entries ls' = insert_prio f a (entries ls)"
  have "sum_list (map g (takeWhile P xs)) + sum_list (map g (dropWhile P xs)) = sum_list (map g xs)"
    for g :: "addr \<Rightarrow> nat" and P xs by (metis map_append sum_list_append takeWhile_dropWhile_id)
  then show ?thesis using e by (simp add: events_def insert_prio_def ac_simps)
qed

lemma events_cong: "(\<And>x. x \<in> set (entries ls) \<Longrightarrow> due q' x = due q x) \<Longrightarrow> events q' ls = events q ls"
  by (simp add: events_def cong: map_cong)

definition same_pulse :: "pulse_queue \<Rightarrow> pulse_queue \<Rightarrow> addr \<Rightarrow> bool" where
  "same_pulse q q' x \<longleftrightarrow> says q' x = says q x \<and> due q' x = due q x \<and> prio_of q' x = prio_of q x"

lemma same_pulse_refl [simp]: "same_pulse q q x"
  by (simp add: same_pulse_def)

lemma pulse_new_ok:
  assumes ok: "pril_ok q ls" and a: "a \<noteq> 0" "a \<notin> set (entries ls)"
  shows "\<exists>q' ls'. pulse_new q (Some (a, e)) prio cd v i = Some (q', a, False) \<and> pril_ok q' ls'
    \<and> entries ls' = insert_prio (prio_of q') a (entries ls) \<and> prio_of q' a = wanted_priority prio
    \<and> says q' a = Some (cd, i, v) \<and> events q' ls' = Suc (events q ls) \<and> (\<forall>x. x \<noteq> a \<longrightarrow> same_pulse q q' x)"
proof -
  define n where "n = e\<lparr>type := pulse_type prio, count := 1, priority := unat (ucast prio :: 8 word), code := cd, val := v, ident := i\<rparr>"
  let ?q = "q\<lparr>store := (store q)(a \<mapsto> n)\<rparr>"
  have "rep ?q ls 0" by (rule rep_frame[of q]) (use ok a in \<open>auto simp: pril_ok_def\<close>)
  then have okq: "pril_ok ?q ls" using ok by (simp add: pril_ok_def)
  obtain q' ls' where q': "pril_add ?q a = Some q'" "pril_ok q' ls'" "keeps ?q q'" "entries ls' = insert_prio (prio_of ?q) a (entries ls)"
    using pril_add_ok[OF okq a, of n] by auto
  have pf: "prio_of q' = prio_of ?q" using keeps_prio[OF q'(3)] by auto
  have other: "same_pulse q q' x" if "x \<noteq> a" for x
    using keeps_pulse[OF q'(3), of x] that by (simp add: same_pulse_def says_def due_def pf prio_of_def)
  have "says q' a = Some (cd, i, v)" "due q' a = 1" "prio_of q' a = wanted_priority prio"
    using keeps_pulse[OF q'(3), of a]
    by (simp_all add: says_def due_def pf prio_of_def n_def PRIL_PRIORITY_iff pulse_type_first wanted_priority_def NUM_PRI_def)
  moreover have "events q' ls = events q ls" by (rule events_cong) (metis a(2) other same_pulse_def)
  moreover have "pulse_new q (Some (a, e)) prio cd v i = Some (q', a, False)" using q'(1) by (simp add: pulse_new_def n_def)
  ultimately show ?thesis using q'(2,4) other events_insert[OF q'(4), of q'] pf by auto
qed

text \<open>The entry that carries an added event: one to count up, one to overwrite, or none.\<close>

definition carrier :: "pulse_queue \<Rightarrow> addr list \<Rightarrow> 32 word \<Rightarrow> 8 word \<Rightarrow> 32 word \<Rightarrow> 32 word \<Rightarrow> addr option" where
  "carrier q xs prio cd v i =
     (let w = wanted_priority prio; same = filter (\<lambda>x. prio_of q x = w) xs in
      if prio AND PULSE_PRIO_REPLACE \<noteq> 0
      then find (is_for q cd i) (takeWhile (\<lambda>x. raw_prio q x = unat (ucast prio :: 8 word)) (dropWhile (\<lambda>x. prio_of q x \<noteq> w) xs))
      else let x = (if prio AND PULSE_PRIO_HEAD \<noteq> 0 then hd same else last same) in
           if same \<noteq> [] \<and> says q x = Some (cd, i, v) \<and> due q x < unat PULSE_COUNT_MAX then Some x else None)"

lemma wanted_head: "wanted_priority (prio OR PULSE_PRIO_HEAD) = wanted_priority prio"
proof -
  have "bit (2 ^ k :: 32 word) n \<longleftrightarrow> n = k" if "k < 32" for k n using that by (auto simp: bit_exp_iff)
  from this[of 31] have h: "bit PULSE_PRIO_HEAD n \<longleftrightarrow> n = 31" for n by (simp add: PULSE_PRIO_HEAD_def)
  have "(ucast (prio OR PULSE_PRIO_HEAD) :: 8 word) = ucast prio"
    by (rule bit_word_eqI) (auto simp: bit_ucast_iff bit_or_iff h)
  moreover have "(prio OR PULSE_PRIO_HEAD) AND PULSE_PRIO_BOOST = prio AND PULSE_PRIO_BOOST"
    by (simp add: bit.conj_disj_distrib2 PULSE_PRIO_HEAD_def PULSE_PRIO_BOOST_def)
  ultimately show ?thesis by (simp add: wanted_priority_def)
qed

lemma head_set: "(prio OR PULSE_PRIO_HEAD) AND PULSE_PRIO_HEAD \<noteq> 0"
  by (simp add: bit.conj_disj_distrib2 PULSE_PRIO_HEAD_def or_eq_0_iff)

lemma filter_start: "filter P xs = [] \<longleftrightarrow> dropWhile (\<lambda>x. \<not> P x) xs = []" "filter P xs \<noteq> [] \<Longrightarrow> hd (filter P xs) = hd (dropWhile (\<lambda>x. \<not> P x) xs)"
  by (induction xs) auto

lemma replace_scan:
  assumes ok: "pril_ok q ls" and r: "prio AND PULSE_PRIO_REPLACE \<noteq> 0"
  shows "\<exists>f. pril_find_insertion q (prio OR PULSE_PRIO_HEAD) = Some f
    \<and> pulse_scan q (unat (ucast prio :: 8 word)) cd i f = Some (case carrier q (entries ls) prio cd v i of None \<Rightarrow> 0 | Some x \<Rightarrow> x)"
proof -
  let ?P = "\<lambda>x. prio_of q x = wanted_priority prio"
  let ?d = "dropWhile (\<lambda>x. \<not> ?P x) (entries ls)"
  have "pril_find_insertion q (prio OR PULSE_PRIO_HEAD) = Some (if ?d = [] then 0 else hd ?d)"
    using find_insertion_ok[OF ok refl, of "prio OR PULSE_PRIO_HEAD"] filter_start[of ?P "entries ls"] head_set[of prio]
    by (auto simp: wanted_head)
  moreover have "pulse_scan q (unat (ucast prio :: 8 word)) cd i (if ?d = [] then 0 else hd ?d) =
      Some (case find (is_for q cd i) (takeWhile (\<lambda>x. raw_prio q x = unat (ucast prio :: 8 word)) ?d) of None \<Rightarrow> 0 | Some x \<Rightarrow> x)"
    by (rule pulse_scan_ok[OF ok, of "takeWhile (\<lambda>x. \<not> ?P x) (entries ls)"]) simp
  moreover have "carrier q (entries ls) prio cd v i = find (is_for q cd i) (takeWhile (\<lambda>x. raw_prio q x = unat (ucast prio :: 8 word)) ?d)"
    using r by (simp add: carrier_def)
  ultimately show ?thesis by metis
qed

lemma carrier_in:
  assumes c: "carrier q xs prio cd v i = Some x"
  shows "x \<in> set xs"
proof (cases "prio AND PULSE_PRIO_REPLACE \<noteq> 0")
  case True
  then have "x \<in> set (takeWhile (\<lambda>x. raw_prio q x = unat (ucast prio :: 8 word)) (dropWhile (\<lambda>x. prio_of q x \<noteq> wanted_priority prio) xs))"
    using c by (auto simp: carrier_def find_Some_iff)
  then show ?thesis by (meson set_dropWhileD set_takeWhileD)
next
  case False
  define same where "same = filter (\<lambda>x. prio_of q x = wanted_priority prio) xs"
  have "x = (if prio AND PULSE_PRIO_HEAD \<noteq> 0 then hd same else last same)" "same \<noteq> []"
    using c False unfolding carrier_def Let_def same_def[symmetric] by (auto split: if_splits)
  then have "x \<in> set same" by simp
  then show ?thesis by (simp add: same_def)
qed

text \<open>The entry an addition without \<open>_PULSE_PRIO_REPLACE\<close> looks at.\<close>

lemma insertion_point:
  assumes ok: "pril_ok q ls" and s: "same = filter (\<lambda>x. prio_of q x = wanted_priority prio) (entries ls)"
    and x: "x = (if prio AND PULSE_PRIO_HEAD \<noteq> 0 then hd same else last same)" and ne: "same \<noteq> []"
  shows "\<exists>p. pril_find_insertion q prio = Some x \<and> x \<noteq> 0 \<and> store q x = Some p \<and> x \<in> set (entries ls)"
proof -
  have "x \<in> set same" using x ne by simp
  then have e: "x \<in> set (entries ls)" using s by auto
  moreover have "x \<noteq> 0" using e ok unfolding pril_ok_def by metis
  ultimately show ?thesis using find_insertion_ok[OF ok s] entries_some[OF ok e] x ne by auto
qed

lemma says_iff: "store q x = Some p \<Longrightarrow> says q x = Some (cd, i, v) \<and> due q x < unat PULSE_COUNT_MAX
    \<longleftrightarrow> code p = cd \<and> ident p = i \<and> val p = v \<and> count p < PULSE_COUNT_MAX"
  by (auto simp: says_def due_def word_less_nat_alt)

lemma pulse_add_new:
  assumes ok: "pril_ok q ls" and c: "carrier q (entries ls) prio (ucast cd) v i = None"
  shows "pulse_add q new prio cd v i = pulse_new q new prio (ucast cd) v i"
proof (cases "prio AND PULSE_PRIO_REPLACE \<noteq> 0")
  case True
  then show ?thesis using replace_scan[OF ok True, of "ucast cd" i v] c by (auto simp: pulse_add_def)
next
  case False
  define same where "same = filter (\<lambda>x. prio_of q x = wanted_priority prio) (entries ls)"
  define x where "x = (if prio AND PULSE_PRIO_HEAD \<noteq> 0 then hd same else last same)"
  show ?thesis
  proof (cases "same = []")
    case True
    then show ?thesis using find_insertion_ok[OF ok same_def] False by (simp add: pulse_add_def)
  next
    case ne: False
    then obtain p where p: "pril_find_insertion q prio = Some x" "x \<noteq> 0" "store q x = Some p"
      using insertion_point[OF ok same_def x_def] by blast
    have "\<not> (says q x = Some (ucast cd, i, v) \<and> due q x < unat PULSE_COUNT_MAX)"
      using c False ne unfolding carrier_def Let_def same_def[symmetric] x_def[symmetric] by (auto split: if_splits)
    then show ?thesis unfolding says_iff[OF p(3)] using p False by (auto simp: pulse_add_def)
  qed
qed

lemma pulse_add_replace:
  assumes ok: "pril_ok q ls" and c: "carrier q (entries ls) prio (ucast cd) v i = Some x" and p: "store q x = Some p"
    and r: "prio AND PULSE_PRIO_REPLACE \<noteq> 0"
  shows "pulse_add q new prio cd v i = Some (q\<lparr>store := (store q)(x \<mapsto> p\<lparr>val := v\<rparr>)\<rparr>, x, True)"
    "code p = ucast cd" "ident p = i" "priority p = unat (ucast prio :: 8 word)"
proof -
  have "x \<noteq> 0" using carrier_in[OF c] ok unfolding pril_ok_def by metis
  then show "pulse_add q new prio cd v i = Some (q\<lparr>store := (store q)(x \<mapsto> p\<lparr>val := v\<rparr>)\<rparr>, x, True)"
    using replace_scan[OF ok r, of "ucast cd" i v] c p r by (auto simp: pulse_add_def update_def)
  have f: "find (is_for q (ucast cd) i) (takeWhile (\<lambda>x. raw_prio q x = unat (ucast prio :: 8 word))
      (dropWhile (\<lambda>x. prio_of q x \<noteq> wanted_priority prio) (entries ls))) = Some x" using c r by (simp add: carrier_def)
  then have "is_for q (ucast cd) i x" unfolding find_Some_iff by blast
  then show "code p = ucast cd" "ident p = i" using p by (auto simp: is_for_def)
  from f have "x \<in> set (takeWhile (\<lambda>x. raw_prio q x = unat (ucast prio :: 8 word))
      (dropWhile (\<lambda>x. prio_of q x \<noteq> wanted_priority prio) (entries ls)))" unfolding find_Some_iff by (metis nth_mem)
  from set_takeWhileD[OF this] have "raw_prio q x = unat (ucast prio :: 8 word)" by simp
  then show "priority p = unat (ucast prio :: 8 word)" using p by (simp add: raw_prio_def)
qed

lemma pulse_add_count:
  assumes ok: "pril_ok q ls" and c: "carrier q (entries ls) prio (ucast cd) v i = Some x" and p: "store q x = Some p"
    and r: "prio AND PULSE_PRIO_REPLACE = 0"
  shows "pulse_add q new prio cd v i = Some (q\<lparr>store := (store q)(x \<mapsto> p\<lparr>count := count p + 1\<rparr>)\<rparr>, x, False)"
    "says q x = Some (ucast cd, i, v)" "count p < PULSE_COUNT_MAX" "prio_of q x = wanted_priority prio"
proof -
  define same where "same = filter (\<lambda>x. prio_of q x = wanted_priority prio) (entries ls)"
  have x: "x = (if prio AND PULSE_PRIO_HEAD \<noteq> 0 then hd same else last same)" "same \<noteq> []"
    and s: "says q x = Some (ucast cd, i, v)" "due q x < unat PULSE_COUNT_MAX"
    using c r unfolding carrier_def Let_def same_def[symmetric] by (auto split: if_splits)
  then show "says q x = Some (ucast cd, i, v)" "count p < PULSE_COUNT_MAX"
    using says_iff[OF p, of "ucast cd" i v] by simp_all
  have f: "pril_find_insertion q prio = Some x" "x \<noteq> 0" using insertion_point[OF ok same_def x] by auto
  then show "pulse_add q new prio cd v i = Some (q\<lparr>store := (store q)(x \<mapsto> p\<lparr>count := count p + 1\<rparr>)\<rparr>, x, False)"
    using says_iff[OF p, of "ucast cd" i v] s p r by (simp add: pulse_add_def update_def)
  have "x \<in> set same" using x by simp
  then show "prio_of q x = wanted_priority prio" by (simp add: same_def)
qed

definition queued :: "pulse_queue \<Rightarrow> addr list \<Rightarrow> nat" where
  "queued q xs = sum_list (map (due q) xs)"

lemma queued_events: "queued q (entries ls) = events q ls"
  by (simp add: queued_def events_def)

lemma replace_effect:
  assumes ok: "pril_ok q ls" and c: "carrier q (entries ls) prio (ucast cd) v i = Some x" and r: "prio AND PULSE_PRIO_REPLACE \<noteq> 0"
  shows "\<exists>q'. (\<forall>new. pulse_add q new prio cd v i = Some (q', x, True)) \<and> pril_ok q' ls \<and> says q' x = Some (ucast cd, i, v)
    \<and> raw_prio q' x = unat (ucast prio :: 8 word) \<and> (\<forall>y. y \<noteq> x \<longrightarrow> same_pulse q q' y) \<and> events q' ls = events q ls"
proof -
  obtain p where p: "store q x = Some p" using entries_some[OF ok carrier_in[OF c]] by auto
  let ?q = "q\<lparr>store := (store q)(x \<mapsto> p\<lparr>val := v\<rparr>)\<rparr>"
  note r4 = pulse_add_replace[OF ok c p r]
  have l: "pulse_links (p\<lparr>val := v\<rparr>) = pulse_links p" by (simp add: pulse_links_def)
  have "same_pulse q ?q y" if "y \<noteq> x" for y using that by (simp add: same_pulse_def says_def due_def prio_of_def)
  moreover have "events ?q ls = events q ls" by (rule events_cong) (use p in \<open>auto simp: due_def\<close>)
  moreover have "says ?q x = Some (ucast cd, i, v)" "raw_prio ?q x = unat (ucast prio :: 8 word)"
    using r4(2-4) by (simp_all add: says_def raw_prio_def)
  moreover have "pril_ok ?q ls" by (rule update_pulse(2)[where f = "\<lambda>p. p\<lparr>val := v\<rparr>", OF ok p l])
  ultimately show ?thesis using r4(1) by blast
qed

lemma count_effect:
  assumes ok: "pril_ok q ls" and c: "carrier q (entries ls) prio (ucast cd) v i = Some x" and r: "prio AND PULSE_PRIO_REPLACE = 0"
  shows "\<exists>q'. (\<forall>new. pulse_add q new prio cd v i = Some (q', x, False)) \<and> pril_ok q' ls \<and> says q' x = Some (ucast cd, i, v)
    \<and> prio_of q' x = wanted_priority prio \<and> (\<forall>y. y \<noteq> x \<longrightarrow> same_pulse q q' y) \<and> events q' ls = Suc (events q ls)"
proof -
  have x: "x \<in> set (entries ls)" by (rule carrier_in[OF c])
  obtain p where p: "store q x = Some p" using entries_some[OF ok x] by auto
  let ?q = "q\<lparr>store := (store q)(x \<mapsto> p\<lparr>count := count p + 1\<rparr>)\<rparr>"
  note r4 = pulse_add_count[OF ok c p r]
  have l: "pulse_links (p\<lparr>count := count p + 1\<rparr>) = pulse_links p" by (simp add: pulse_links_def)
  have other: "same_pulse q ?q y" if "y \<noteq> x" for y using that by (simp add: same_pulse_def says_def due_def prio_of_def)
  have "unat (count p) < 4294967295" using r4(3) by (simp add: word_less_nat_alt PULSE_COUNT_MAX_def)
  then have "unat (count p + 1) = Suc (unat (count p))" by (simp add: unat_word_ariths)
  then have pen: "due ?q x = Suc (due q x)" using p by (simp add: due_def)
  have "events ?q ls + due q x = events q ls + due ?q x"
    by (rule events_update[OF _ x]) (use ok other in \<open>auto simp: pril_ok_def same_pulse_def\<close>)
  then have "events ?q ls = Suc (events q ls)" using pen by simp
  moreover have "says ?q x = Some (ucast cd, i, v)" using r4(2) p by (simp add: says_def)
  moreover have "prio_of ?q x = wanted_priority prio" "pril_ok ?q ls"
    using r4(4) update_pulse(2,3)[where f = "\<lambda>p. p\<lparr>count := count p + 1\<rparr>", OF ok p l] by auto
  ultimately show ?thesis using r4(1) other by blast
qed

end
