(* ===== verification/Pril_Props.thy ===== *)
theory Pril_Props
  imports Pulse_Proofs
begin

text \<open>
  The properties of the priority lists and of the pulse queues.
\<close>

section \<open>Concrete lists\<close>

definition node :: "addr \<Rightarrow> prev \<Rightarrow> 8 word \<Rightarrow> nat \<Rightarrow> pril_entry" where
  "node n q t p = \<lparr>nextp = n, prevp = q, type = t, priority = p\<rparr>"

definition sample :: "pril_entry pril_list" where
  "sample = \<lparr>pdata = 100, store = [100 \<mapsto> node 200 (Prio_tail 200) 0x40 20, 200 \<mapsto> node 300 (Pril (Next 100)) 0x20 20,
     300 \<mapsto> node 0 (Prio_tail 300) 0x60 10, 400 \<mapsto> node 0 (Prio_tail 0) 0 20]\<rparr>"

lemma all_less_Suc: "(\<forall>i < Suc n. P i) \<longleftrightarrow> P n \<and> (\<forall>i < n. P i)"
  using less_Suc_eq by auto

lemma sample_lists: "pril_holds sample [100, 200, 300]"
proof -
  have "pril_ok sample [(20, [100, 200]), (10, [300])]"
    by (simp add: pril_ok_def rep_def level_ok_def all_less_Suc entry_ok_def sample_def node_def PRIL_PRIORITY_iff bit_numeral_rec)
  then show ?thesis unfolding pril_holds_def by (intro exI[of _ "[(20, [100, 200]), (10, [300])]"]) simp
qed

text \<open>
  (C11) \<open>pril_add\<close> terminates and inserts the entry behind every entry of at least its priority and
  before the others, changes neither the priority nor the payload of any entry, and \<open>pril_first\<close>
  then is the head of that list.
\<close>

theorem pril_add_inserts:
  assumes "pril_holds ph xs" "usable ph d" "d \<notin> set xs"
  shows "\<exists>ph'. pril_add ph d = Some ph' \<and> pril_holds ph' (insert_prio (prio_of ph) d xs)
    \<and> pril_first ph' = hd (insert_prio (prio_of ph) d xs) \<and> keeps ph ph'"
proof -
  obtain ph' where "pril_add ph d = Some ph'" "pril_holds ph' (insert_prio (prio_of ph) d xs)" "keeps ph ph'"
    using lists_add[OF assms] by blast
  moreover have "insert_prio (prio_of ph) d xs \<noteq> []" by (simp add: insert_prio_def)
  ultimately show ?thesis using lists_first by metis
qed

lemma sample_prios: "prio_of sample 100 = 20" "prio_of sample 200 = 20" "prio_of sample 300 = 10" "prio_of sample 400 = 20"
  by (simp_all add: prio_of_def sample_def node_def PRIL_PRIORITY_iff bit_numeral_rec)

theorem pril_add_witness: "\<exists>ph'. pril_add sample 400 = Some ph' \<and> pril_holds ph' [100, 200, 400, 300]"
proof -
  have "usable sample 400" by (simp add: usable_def sample_def)
  then show ?thesis using pril_add_inserts[OF sample_lists, of 400] by (auto simp: insert_prio_def sample_prios)
qed

text \<open>
  (C4) \<open>pril_rem\<close> of an entry of the list takes exactly it out, whatever its place in its priority
  level, and keeps order, priorities and payloads. Positions registered at the entry move to its
  successor; this needs a successor when there is such a position.
\<close>

theorem pril_rem_removes:
  assumes "pril_holds ph xs" "d \<in> set xs" "store ph d = Some n" "type n AND FLAG_UPDATER \<noteq> 0 \<and> nextp n = 0 \<longrightarrow> (\<forall>u. (u, d) \<notin> set us)"
  shows "\<exists>ph' us'. pril_rem ph us d = Some (ph', us') \<and> pril_holds ph' (remove1 d xs) \<and> keeps ph ph'
    \<and> us' = (if type n AND FLAG_UPDATER \<noteq> 0 then map (\<lambda>(u, e). (u, if e = d then nextp n else e)) us else us)"
  using lists_rem[OF assms(1-3)] assms(4) by (simp add: type_bits)

theorem pril_rem_witness: "\<exists>ph' us'. pril_rem sample [(7, 100)] 100 = Some (ph', us') \<and> pril_holds ph' [200, 300]"
proof -
  obtain n where n: "store sample 100 = Some n" "nextp n = 200" by (simp add: sample_def node_def)
  show ?thesis using pril_rem_removes[OF sample_lists _ n(1), of "[(7, 100)]"] n(2) by auto
qed

text \<open>
  (C24) The consistency checks that a debug kernel runs before and after \<open>pril_add\<close> and \<open>pril_rem\<close>
  pass: no flag, back link or priority is out of place, the new entry is absent before and present
  after, the removed one the other way round.
\<close>

theorem pril_checks_pass:
  assumes "pril_holds ph xs"
  shows "(usable ph d \<and> d \<notin> set xs \<longrightarrow>
      pril_validate ph 0 d = Some () \<and> (\<exists>ph'. pril_add ph d = Some ph' \<and> pril_validate ph' d 0 = Some ()))
    \<and> (d \<in> set xs \<longrightarrow>
      pril_validate ph d 0 = Some () \<and> (\<exists>ph'. pril_unlink ph d = Some ph' \<and> pril_validate ph' 0 d = Some ()))"
proof (intro conjI impI)
  assume d: "usable ph d \<and> d \<notin> set xs"
  then show "pril_validate ph 0 d = Some ()" using pril_validate_ok[OF assms] by simp
  obtain ph' where ph': "pril_add ph d = Some ph'" "pril_holds ph' (insert_prio (prio_of ph) d xs)"
    using lists_add[OF assms] d by blast
  show "\<exists>ph'. pril_add ph d = Some ph' \<and> pril_validate ph' d 0 = Some ()"
    using ph' pril_validate_ok[OF ph'(2)] holds_nonzero[OF ph'(2)] by auto
next
  assume d: "d \<in> set xs"
  then show "pril_validate ph d 0 = Some ()" using pril_validate_ok[OF assms] holds_nonzero[OF assms] by simp
  obtain ls where ls: "pril_ok ph ls" "entries ls = xs" using assms by (auto simp: pril_holds_def)
  obtain ph' ls' where ph': "pril_unlink ph d = Some ph'" "pril_ok ph' ls'" "entries ls' = remove1 d xs"
    using pril_unlink_ok[OF ls(1)] d ls(2) by blast
  have "pril_holds ph' (remove1 d xs)" using ph'(2,3) unfolding pril_holds_def by blast
  moreover have "d \<notin> set (remove1 d xs)" using lists_distinct[OF assms] by simp
  ultimately show "\<exists>ph'. pril_unlink ph d = Some ph' \<and> pril_validate ph' 0 d = Some ()" using ph'(1) pril_validate_ok by auto
qed

theorem pril_checks_witness:
  "pril_validate sample 0 400 = Some () \<and> (\<exists>ph'. pril_add sample 400 = Some ph' \<and> pril_validate ph' 400 0 = Some ())"
  using pril_checks_pass[OF sample_lists, of 400] by (simp add: usable_def sample_def)

text \<open>
  (C25) Adding entries one after another to an empty list leaves them sorted by descending priority,
  equal priorities in the order of arrival: the list is the stable sort of the sequence.
\<close>

theorem pril_add_sorts:
  assumes "pril_holds ph []" "distinct xs" "\<forall>x \<in> set xs. usable ph x"
  shows "\<exists>ph'. add_all pril_add ph xs = Some ph' \<and> pril_holds ph' (sort_key (\<lambda>x. - int (prio_of ph x)) xs)"
  using pril.add_all_queue[of ph "[]" xs] assms by (auto simp: fold_insert_prio_sort)

definition bare :: "pril_entry pril_list" where
  "bare = \<lparr>pdata = 0, store = [100 \<mapsto> node 0 (Prio_tail 0) 0 20, 200 \<mapsto> node 0 (Prio_tail 0) 0x10 5, 300 \<mapsto> node 0 (Prio_tail 0) 0 20]\<rparr>"

theorem pril_add_sorts_witness: "\<exists>ph'. add_all pril_add bare [100, 200, 300] = Some ph' \<and> pril_holds ph' [200, 100, 300]"
proof -
  have "pril_ok bare []" by (simp add: pril_ok_def rep_def bare_def)
  then have l: "pril_holds bare []" unfolding pril_holds_def by (intro exI[of _ "[]"]) simp
  have u: "\<forall>x \<in> set [100, 200, 300]. usable bare x" by (simp add: usable_def bare_def)
  have "prio_of bare 100 = 20" "prio_of bare 200 = 261" "prio_of bare 300 = 20"
    by (simp_all add: prio_of_def bare_def node_def PRIL_PRIORITY_iff bit_numeral_rec)
  then show ?thesis using pril_add_sorts[OF l _ u] by simp
qed

section \<open>Registered positions\<close>

text \<open>
  (C37) Removing the last entry of a list while a position is registered at it stores through NULL:
  the successor that the position moves to is not tested.
\<close>

theorem pril_rem_updater_faults:
  assumes "pril_holds ph xs" "d \<in> set xs" "store ph d = Some n" "type n AND FLAG_UPDATER \<noteq> 0" "nextp n = 0" "store ph 0 = None" "(u, d) \<in> set us"
  shows "pril_rem ph us d = None"
proof -
  obtain ls where ls: "pril_ok ph ls" "entries ls = xs" using assms(1) by (auto simp: pril_holds_def)
  obtain ph1 where ph1: "pril_unlink ph d = Some ph1" "keeps ph ph1" using pril_unlink_ok[OF ls(1)] assms(2) ls(2) by blast
  have "store ph1 0 = None" using keeps_some[OF ph1(2)] assms(6) by blast
  then show ?thesis using assms ph1(1) rem_updaters_null by (simp add: pril_rem_def)
qed

definition watched :: "pril_entry pril_list" where
  "watched = \<lparr>pdata = 100, store = [100 \<mapsto> node 0 (Prio_tail 100) 0xE0 20]\<rparr>"

theorem pril_rem_updater_witness: "pril_rem watched [(7, 100)] 100 = None"
proof -
  have "pril_ok watched [(20, [100])]"
    by (simp add: pril_ok_def rep_def level_ok_def entry_ok_def watched_def node_def PRIL_PRIORITY_iff bit_numeral_rec)
  then have l: "pril_holds watched [100]" unfolding pril_holds_def by (intro exI[of _ "[(20, [100])]"]) simp
  have n: "store watched 100 = Some (node 0 (Prio_tail 100) 0xE0 20)" by (simp add: watched_def)
  show ?thesis
    by (rule pril_rem_updater_faults[OF l _ n, of 7]) (simp_all add: watched_def node_def FLAG_UPDATER_def)
qed









text \<open>
  (C12) \<open>pulse_add\<close> with memory for an entry. The event is carried by an entry of the wanted
  priority: the one at the insertion point with its count raised when it says the same and is not
  saturated, under \<open>_PULSE_PRIO_REPLACE\<close> the first one for the same code and id with its value
  overwritten and \<open>overrun\<close> set, else the new entry, queued behind all of its priority. Nothing
  else changes, and the number of pending events grows by one unless a value was overwritten.
  Without memory only the last case differs: the queue stays and NULL is returned.
\<close>

theorem pulse_add_contract:
  assumes "pril_holds q xs" "a \<noteq> 0" "a \<notin> set xs"
  shows "\<exists>q' xs' r ov. pulse_add q (Some (a, e)) prio cd v i = Some (q', r, ov) \<and> pril_holds q' xs'
    \<and> r = (case carrier q xs prio (ucast cd) v i of None \<Rightarrow> a | Some x \<Rightarrow> x)
    \<and> xs' = (if r = a then insert_prio (prio_of q') a xs else xs) \<and> says q' r = Some (ucast cd, i, v)
    \<and> (if ov then raw_prio q' r = unat (ucast prio :: 8 word) else prio_of q' r = wanted_priority prio)
    \<and> (\<forall>x. x \<noteq> r \<longrightarrow> same_pulse q q' x)
    \<and> queued q' xs' = queued q xs + (if ov then 0 else 1) \<and> (ov \<longleftrightarrow> r \<noteq> a \<and> prio AND PULSE_PRIO_REPLACE \<noteq> 0)
    \<and> pulse_add q None prio cd v i = Some (if r = a then (q, 0, False) else (q', r, ov))"
proof -
  obtain ls where ls: "pril_ok q ls" "xs = entries ls" using assms(1) by (auto simp: pril_holds_def)
  show ?thesis
  proof (cases "carrier q xs prio (ucast cd) v i")
    case None
    then have n: "pulse_add q new prio cd v i = pulse_new q new prio (ucast cd) v i" for new
      using pulse_add_new[OF ls(1)] ls(2) by simp
    have "pulse_add q None prio cd v i = Some (q, 0, False)" using n[of None] by (simp add: pulse_new_def)
    moreover obtain q' ls' where q': "pulse_new q (Some (a, e)) prio (ucast cd) v i = Some (q', a, False)" "pril_ok q' ls'"
      "entries ls' = insert_prio (prio_of q') a xs" "prio_of q' a = wanted_priority prio" "says q' a = Some (ucast cd, i, v)"
      "events q' ls' = Suc (events q ls)" "\<forall>x. x \<noteq> a \<longrightarrow> same_pulse q q' x"
      using pulse_new_ok[OF ls(1) assms(2), of e prio "ucast cd" v i] assms(3) ls(2) by blast
    moreover have "pril_holds q' (insert_prio (prio_of q') a xs)" using q'(2,3) unfolding pril_holds_def by blast
    moreover have "queued q' (insert_prio (prio_of q') a xs) = Suc (queued q xs)"
      using q'(3,6) queued_events[of q' ls'] queued_events[of q ls] ls(2) by simp
    ultimately show ?thesis using None n[of "Some (a, e)"] by auto
  next
    case (Some x)
    then have x: "carrier q (entries ls) prio (ucast cd) v i = Some x" "x \<noteq> a" using ls(2) carrier_in[OF Some] assms(3) by auto
    show ?thesis
    proof (cases "prio AND PULSE_PRIO_REPLACE = 0")
      case True
      then show ?thesis using count_effect[OF ls(1) x(1) True] Some x(2) ls(2) by (auto simp: pril_holds_def queued_events)
    next
      case False
      then show ?thesis using replace_effect[OF ls(1) x(1) False] Some x(2) ls(2) by (auto simp: pril_holds_def queued_events)
    qed
  qed
qed


definition one_pulse :: pulse_queue where
  "one_pulse = \<lparr>pdata = 100, store = [100 \<mapsto> \<lparr>nextp = 0, prevp = Prio_tail 100, type = 0x61, priority = 21, code = 5, val = 9, ident = 3, count = 1\<rparr>]\<rparr>"

lemma one_pulse_holds: "pril_holds one_pulse [100]"
proof -
  have "pril_ok one_pulse [(21, [100])]"
    by (simp add: pril_ok_def rep_def level_ok_def entry_ok_def one_pulse_def PRIL_PRIORITY_iff bit_numeral_rec)
  then show ?thesis unfolding pril_holds_def by (intro exI[of _ "[(21, [100])]"]) simp
qed

theorem pulse_add_witness:
  "\<exists>q'. pulse_add one_pulse (Some (200, the (store one_pulse 100))) 21 5 9 3 = Some (q', 100, False) \<and> pril_holds q' [100] \<and> queued q' [100] = 2"
proof -
  have "carrier one_pulse [100] 21 (ucast (5 :: 32 word)) 9 3 = Some 100"
    by (simp add: carrier_def one_pulse_def prio_of_def PRIL_PRIORITY_iff bit_numeral_rec wanted_priority_def says_def due_def
        PULSE_PRIO_REPLACE_def PULSE_PRIO_HEAD_def PULSE_PRIO_BOOST_def PULSE_COUNT_MAX_def)
  moreover have "queued one_pulse [100] = 1" by (simp add: queued_def due_def one_pulse_def)
  ultimately show ?thesis
    using pulse_add_contract[OF one_pulse_holds, of 200 "the (store one_pulse 100)" 21 5 9 3] by (auto simp: PULSE_PRIO_REPLACE_def)
qed


end
