(* ===== verification/Iofunc.thy ===== *)
theory Iofunc
  imports Prelude
begin

text \<open>
  The file attributes of the resource manager library, \<open>userland/lib/c/iofunc\<close>: permission checks,
  changes of mode, owner and times, opening with share modes, links, and renaming.

  An attribute record is what a file is to this library. Functions on one file take and return the
  record; links and renaming work on a map from file numbers to records, so that two pointers may
  name the same file. Pointers that may be NULL are options, in the map 0 is NULL. The
  credentials that \<open>ConnectClientInfo_r\<close> delivers, the clock and the process's own ids are arguments.
  Widths are those of the source where arithmetic could tell: link and open counters, flags, modes
  and the lengths of requests are words, offsets are integers with \<open>None\<close> for a signed overflow.
\<close>

section \<open>Constants\<close>

definition S_IFMT :: "32 word" where "S_IFMT = 0xF000"
definition S_IFIFO :: "32 word" where "S_IFIFO = 0x1000"
definition S_IFDIR :: "32 word" where "S_IFDIR = 0x4000"
definition S_IFREG :: "32 word" where "S_IFREG = 0x8000"
definition S_IFLNK :: "32 word" where "S_IFLNK = 0xA000"
definition S_IPERMS :: "32 word" where "S_IPERMS = 0x1FF"
definition S_ISUID :: "32 word" where "S_ISUID = 0x800"
definition S_ISGID :: "32 word" where "S_ISGID = 0x400"
definition S_ISVTX :: "32 word" where "S_ISVTX = 0x200"
definition S_IRWXU :: "32 word" where "S_IRWXU = 0x1C0"
definition S_IREAD :: "32 word" where "S_IREAD = 0x100"
definition S_IWRITE :: "32 word" where "S_IWRITE = 0x80"
definition S_IXUSR :: "32 word" where "S_IXUSR = 0x40"
definition S_IXGRP :: "32 word" where "S_IXGRP = 8"
definition S_IXOTH :: "32 word" where "S_IXOTH = 1"

definition O_NONBLOCK :: "32 word" where "O_NONBLOCK = 0x80"
definition O_APPEND :: "32 word" where "O_APPEND = 8"
definition O_DSYNC :: "32 word" where "O_DSYNC = 0x10"
definition O_RSYNC :: "32 word" where "O_RSYNC = 0x40"
definition O_SYNC :: "32 word" where "O_SYNC = 0x20"
definition O_CREAT :: "32 word" where "O_CREAT = 0x100"
definition O_TRUNC :: "32 word" where "O_TRUNC = 0x200"
definition O_EXCL :: "32 word" where "O_EXCL = 0x400"
definition O_REALIDS :: "32 word" where "O_REALIDS = 0x4000"
definition O_LARGEFILE :: "32 word" where "O_LARGEFILE = 0x8000"
definition O_SETFLAG :: "32 word" where
  "O_SETFLAG = O_NONBLOCK OR O_APPEND OR O_DSYNC OR O_RSYNC OR O_SYNC OR O_LARGEFILE"
definition IO_FLAG_RD :: "32 word" where "IO_FLAG_RD = 1"
definition IO_FLAG_WR :: "32 word" where "IO_FLAG_WR = 2"
definition IO_FLAG_MASK :: "32 word" where "IO_FLAG_MASK = 3"

definition SH_DENYRW :: "16 word" where "SH_DENYRW = 0x10"
definition SH_DENYWR :: "16 word" where "SH_DENYWR = 0x20"
definition SH_DENYRD :: "16 word" where "SH_DENYRD = 0x30"
definition SH_MASK :: "16 word" where "SH_MASK = 0x70"

definition MOUNT_READONLY :: "32 word" where "MOUNT_READONLY = 1"
definition MOUNT_NOCREAT :: "32 word" where "MOUNT_NOCREAT = 8"
definition MOUNT_NOATIME :: "32 word" where "MOUNT_NOATIME = 0x20"
definition MOUNT_32BIT :: "32 word" where "MOUNT_32BIT = 0x100"
definition PC_CHOWN_RESTRICTED :: "32 word" where "PC_CHOWN_RESTRICTED = 1"
definition PC_SYNC_IO :: "32 word" where "PC_SYNC_IO = 4"
definition PC_LINK_DIR :: "32 word" where "PC_LINK_DIR = 8"

definition ATTR_MTIME :: "32 word" where "ATTR_MTIME = 1"
definition ATTR_ATIME :: "32 word" where "ATTR_ATIME = 2"
definition ATTR_CTIME :: "32 word" where "ATTR_CTIME = 4"
definition ATTR_DIRTY_MASK :: "32 word" where "ATTR_DIRTY_MASK = 0xFF0"
definition ATTR_DIRTY_OWNER :: "32 word" where "ATTR_DIRTY_OWNER = 0x20"
definition ATTR_DIRTY_TIME :: "32 word" where "ATTR_DIRTY_TIME = 0x40"
definition ATTR_DIRTY_MODE :: "32 word" where "ATTR_DIRTY_MODE = 0x80"
definition ATTR_DIRTY_NLINK :: "32 word" where "ATTR_DIRTY_NLINK = 0x100"
definition ATTR_SYNTHETIC :: "32 word" where "ATTR_SYNTHETIC = 0x8000"

definition LONG_MAX :: int where "LONG_MAX = 9223372036854775807"

definition EPERM :: nat where "EPERM = 1"
definition ENOENT :: nat where "ENOENT = 2"
definition EBADF :: nat where "EBADF = 9"
definition EACCES :: nat where "EACCES = 13"
definition EBUSY :: nat where "EBUSY = 16"
definition EEXIST :: nat where "EEXIST = 17"
definition ENOTDIR :: nat where "ENOTDIR = 20"
definition EISDIR :: nat where "EISDIR = 21"
definition EFBIG :: nat where "EFBIG = 27"
definition EROFS :: nat where "EROFS = 30"
definition EOVERFLOW :: nat where "EOVERFLOW = 79"
definition ENOSYS :: nat where "ENOSYS = 89"
definition ENOTEMPTY :: nat where "ENOTEMPTY = 93"
definition EBADFSYS :: nat where "EBADFSYS = 302"

section \<open>Records\<close>

record mount =
  mount_flags :: "32 word"
  conf :: "32 word"

record attr =
  mount :: "mount option"
  flags :: "32 word"
  use_count :: "16 word"
  rcount :: "16 word"
  wcount :: "16 word"
  rlocks :: "16 word"
  wlocks :: "16 word"
  mmap_list :: "nat list"
  nbytes :: int
  uid :: int
  gid :: int
  mtime :: int
  atime :: int
  ctime :: int
  mode :: "32 word"
  nlink :: "32 word"

record ocb =
  ioflag :: "32 word"
  offset :: int
  sflag :: "16 word"
  ocb_flags :: "16 word"

record client =
  ruid :: int
  euid :: int
  rgid :: int
  egid :: int
  grouplist :: "int list"

text \<open>How a handler ends: with an error number, without an answer yet, or with a reply.\<close>

datatype status = Errno nat | Noreply | Reply

definition S_ISDIR :: "32 word \<Rightarrow> bool" where "S_ISDIR m \<longleftrightarrow> m AND S_IFMT = S_IFDIR"
definition S_ISREG :: "32 word \<Rightarrow> bool" where "S_ISREG m \<longleftrightarrow> m AND S_IFMT = S_IFREG"
definition S_ISLNK :: "32 word \<Rightarrow> bool" where "S_ISLNK m \<longleftrightarrow> m AND S_IFMT = S_IFLNK"
definition S_ISFIFO :: "32 word \<Rightarrow> bool" where "S_ISFIFO m \<longleftrightarrow> m AND S_IFMT = S_IFIFO"

definition readonly :: "mount option \<Rightarrow> bool" where
  "readonly mp = (case mp of None \<Rightarrow> False | Some mt \<Rightarrow> mount_flags mt AND MOUNT_READONLY \<noteq> 0)"

definition IS32BIT :: "'a attr_scheme \<Rightarrow> 32 word \<Rightarrow> bool" where
  "IS32BIT a fl \<longleftrightarrow> fl AND O_LARGEFILE = 0 \<or> (case mount a of None \<Rightarrow> False | Some mt \<Rightarrow> mount_flags mt AND MOUNT_32BIT \<noteq> 0)"

text \<open>A signed 64-bit result; \<open>None\<close> when it overflows.\<close>

definition off64 :: "int \<Rightarrow> int option" where
  "off64 x = (if - (2 ^ 63) \<le> x \<and> x < 2 ^ 63 then Some x else None)"

section \<open>Permissions\<close>

definition iofunc_client_info :: "nat + client \<Rightarrow> 32 word \<Rightarrow> nat + client" where
  "iofunc_client_info ci fl =
     (case ci of
        Inl status \<Rightarrow> Inl status
      | Inr c \<Rightarrow> Inr (if fl AND O_REALIDS \<noteq> 0 then c\<lparr>ruid := euid c, euid := ruid c, rgid := egid c, egid := rgid c\<rparr> else c))"

text \<open>The client of a message: the one passed in, or the one the kernel tells of.\<close>

definition link_client :: "nat + client \<Rightarrow> 32 word \<Rightarrow> client option \<Rightarrow> nat + client option" where
  "link_client ci fl info =
     (case info of
        Some c \<Rightarrow> Inr (Some c)
      | None \<Rightarrow> (case iofunc_client_info ci fl of Inl status \<Rightarrow> Inl status | Inr c \<Rightarrow> Inr (Some c)))"

definition iofunc_check_access :: "'a attr_scheme \<Rightarrow> 32 word \<Rightarrow> client option \<Rightarrow> nat" where
  "iofunc_check_access a check info =
     (case info of
        None \<Rightarrow> ENOSYS
      | Some c \<Rightarrow>
          if euid c = 0 then EOK
          else if check AND S_ISUID \<noteq> 0 \<and> euid c = uid a then EOK
          else if check AND S_ISGID \<noteq> 0 \<and> (egid c = gid a \<or> gid a \<in> set (grouplist c)) then EOK
          else
            let chk = check AND S_IRWXU in
            if chk = 0 then EPERM
            else
              let m = (if euid c = uid a then mode a
                       else if egid c = gid a then push_bit 3 (mode a)
                       else if gid a \<in> set (grouplist c) then push_bit 3 (mode a) else push_bit 6 (mode a)) in
              if m AND chk \<noteq> chk then EACCES else EOK)"

section \<open>Changing attributes\<close>

definition iofunc_time_update :: "int \<Rightarrow> 'a attr_scheme \<Rightarrow> 'a attr_scheme" where
  "iofunc_time_update clock a =
     (let times = ATTR_ATIME OR ATTR_MTIME OR ATTR_CTIME in
      if readonly (mount a) then a
      else if (case mount a of None \<Rightarrow> False | Some mt \<Rightarrow> mount_flags mt AND MOUNT_NOATIME \<noteq> 0)
              \<and> flags a AND (ATTR_DIRTY_MASK OR ATTR_MTIME OR ATTR_CTIME) = 0 then a
      else if flags a AND times \<noteq> 0 then
        a\<lparr>atime := (if flags a AND ATTR_ATIME \<noteq> 0 then clock else atime a),
          mtime := (if flags a AND ATTR_MTIME \<noteq> 0 then clock else mtime a),
          ctime := (if flags a AND ATTR_CTIME \<noteq> 0 then clock else ctime a),
          flags := (flags a AND NOT times) OR ATTR_DIRTY_TIME\<rparr>
      else a)"

definition set_ids :: "32 word" where
  "set_ids = S_ISUID OR S_ISGID OR S_ISVTX"

definition execs :: "32 word" where
  "execs = S_IXUSR OR S_IXGRP OR S_IXOTH"

definition iofunc_chmod :: "nat + client \<Rightarrow> 32 word \<Rightarrow> ocb \<Rightarrow> 'a attr_scheme \<Rightarrow> nat \<times> 'a attr_scheme" where
  "iofunc_chmod ci msgmode oc a =
     (case iofunc_client_info ci (ioflag oc) of
        Inl status \<Rightarrow> (status, a)
      | Inr c \<Rightarrow>
          let status = iofunc_check_access a S_ISUID (Some c) in
          if status \<noteq> EOK then (status, a)
          else if readonly (mount a) \<and> flags a AND ATTR_SYNTHETIC = 0 then (EROFS, a)
          else
            let m0 = (mode a AND NOT (S_IPERMS OR set_ids)) OR (msgmode AND (S_IPERMS OR set_ids));
                m1 = (if m0 AND S_ISVTX \<noteq> 0 \<and> \<not> S_ISDIR m0 \<and> iofunc_check_access a 0 (Some c) \<noteq> EOK then m0 AND NOT S_ISVTX else m0);
                m2 = (if m1 AND S_ISGID \<noteq> 0 \<and> \<not> S_ISDIR m1 \<and> m1 AND execs \<noteq> 0 \<and> iofunc_check_access a S_ISGID (Some c) \<noteq> EOK
                      then m1 AND NOT S_ISGID else m1);
                a1 = (if m2 \<noteq> mode a then a\<lparr>flags := flags a OR ATTR_DIRTY_MODE, mode := m2\<rparr> else a)
            in (EOK, a1\<lparr>flags := flags a1 OR (ATTR_CTIME OR ATTR_DIRTY_TIME)\<rparr>))"

text \<open>Who may change the owner to \<open>u\<close> and the group to \<open>g\<close>, and the change itself.\<close>

definition chown_status :: "client \<Rightarrow> int \<Rightarrow> int \<Rightarrow> 'a attr_scheme \<Rightarrow> nat" where
  "chown_status c u g a =
     (let restricted = (case mount a of None \<Rightarrow> True | Some mt \<Rightarrow> conf mt AND PC_CHOWN_RESTRICTED \<noteq> 0);
          status = iofunc_check_access a (if restricted then 0 else S_ISUID) (Some c)
      in
      if status \<noteq> EOK \<and> (\<not> restricted \<or> uid a \<noteq> u \<or> euid c \<noteq> uid a) then status
      else if status \<noteq> EOK \<and> g \<notin> set (grouplist c) \<and> egid c \<noteq> g then status
      else if readonly (mount a) \<and> flags a AND ATTR_SYNTHETIC = 0 then EROFS
      else EOK)"

definition chown_change :: "client \<Rightarrow> int \<Rightarrow> int \<Rightarrow> 'a attr_scheme \<Rightarrow> 'a attr_scheme" where
  "chown_change c u g a =
     (let a1 = (if euid c \<noteq> 0 \<and> mode a AND (S_ISUID OR S_ISGID) \<noteq> 0 \<and> \<not> S_ISDIR (mode a) \<and> mode a AND execs \<noteq> 0
                then a\<lparr>mode := mode a AND NOT (S_ISUID OR S_ISGID), flags := flags a OR ATTR_DIRTY_MODE\<rparr> else a);
          a2 = (if u \<noteq> uid a1 \<or> g \<noteq> gid a1 then a1\<lparr>uid := u, gid := g, flags := flags a1 OR ATTR_DIRTY_OWNER\<rparr> else a1)
      in a2\<lparr>flags := flags a2 OR (ATTR_CTIME OR ATTR_DIRTY_TIME)\<rparr>)"

definition iofunc_chown :: "nat + client \<Rightarrow> int \<Rightarrow> int \<Rightarrow> ocb \<Rightarrow> 'a attr_scheme \<Rightarrow> nat \<times> 'a attr_scheme" where
  "iofunc_chown ci msguid msggid oc a =
     (case iofunc_client_info ci (ioflag oc) of
        Inl status \<Rightarrow> (status, a)
      | Inr c \<Rightarrow>
          let u = (if msguid = - 1 then uid a else msguid);
              g = (if msggid = - 1 then gid a else msggid);
              status = chown_status c u g a
          in if status \<noteq> EOK then (status, a) else (EOK, chown_change c u g a))"

text \<open>\<open>stamps\<close> are the times of the message, \<open>None\<close> when its \<open>cur_flag\<close> asks for the current time.\<close>

definition iofunc_utime :: "nat + client \<Rightarrow> int \<Rightarrow> (int \<times> int) option \<Rightarrow> ocb \<Rightarrow> 'a attr_scheme \<Rightarrow> nat \<times> 'a attr_scheme" where
  "iofunc_utime ci clock stamps oc a =
     (case iofunc_client_info ci (ioflag oc) of
        Inl status \<Rightarrow> (status, a)
      | Inr c \<Rightarrow>
          let status = iofunc_check_access a (if stamps = None then S_ISUID OR S_IWRITE else S_ISUID) (Some c) in
          if status \<noteq> EOK then (status, a)
          else if readonly (mount a) \<and> flags a AND ATTR_SYNTHETIC = 0 then (EROFS, a)
          else
            let a1 = (case stamps of
                        None \<Rightarrow> a\<lparr>flags := flags a OR (ATTR_ATIME OR ATTR_MTIME)\<rparr>
                      | Some (ac, md) \<Rightarrow> a\<lparr>atime := ac, mtime := md, flags := flags a AND NOT (ATTR_ATIME OR ATTR_MTIME)\<rparr>)
            in (EOK, iofunc_time_update clock (a1\<lparr>flags := flags a1 OR (ATTR_CTIME OR ATTR_DIRTY_TIME)\<rparr>)))"

section \<open>Reading and writing\<close>

text \<open>The reply carries the new offset unless the request is combined with another one.\<close>

definition iofunc_lseek :: "int \<Rightarrow> 64 word \<Rightarrow> bool \<Rightarrow> ocb \<Rightarrow> 'a attr_scheme \<Rightarrow> ((nat + 64 word option) \<times> ocb) option" where
  "iofunc_lseek whence off combined oc a =
     (if whence \<noteq> 0 \<and> whence \<noteq> 1 \<and> whence \<noteq> 2 then Some (Inl EINVAL, oc)
      else
        do { pos \<leftarrow> off64 (sint off + (if whence = 1 then offset oc else if whence = 2 then nbytes a else 0));
             Some (if pos < 0 then (Inl EINVAL, oc)
                   else if IS32BIT a (ioflag oc) \<and> LONG_MAX < pos then (Inl EOVERFLOW, oc)
                   else (Inr (if combined then None else Some (word_of_int pos)), oc\<lparr>offset := pos\<rparr>)) })"

definition XFLAG_NONBLOCK :: "32 word" where "XFLAG_NONBLOCK = 0x4000"
definition XFLAG_BLOCK :: "32 word" where "XFLAG_BLOCK = 0x8000"

definition iofunc_isnonblock :: "32 word \<Rightarrow> 32 word \<Rightarrow> 32 word" where
  "iofunc_isnonblock fl xtype =
     (if fl AND O_NONBLOCK \<noteq> 0
      then (if xtype AND XFLAG_BLOCK \<noteq> 0 then fl AND NOT O_NONBLOCK else fl)
      else (if xtype AND XFLAG_NONBLOCK \<noteq> 0 then fl OR O_NONBLOCK else fl)) AND O_NONBLOCK"

definition XTYPE_MASK :: "32 word" where "XTYPE_MASK = 0xFF"
definition XTYPE_NONE :: "32 word" where "XTYPE_NONE = 0"
definition XTYPE_OFFSET :: "32 word" where "XTYPE_OFFSET = 5"

text \<open>
  The verification of reads and writes; \<open>xoff\<close> is the offset behind a request of type
  \<open>_IO_XTYPE_OFFSET\<close>. The results are the status, the number of bytes allowed, the value for
  \<open>*nonblock\<close> and what changed. The length of a read is unsigned, so that its sum with the offset
  is computed without sign; the length of a write is signed.
\<close>

definition iofunc_read_verify :: "32 word \<Rightarrow> int \<Rightarrow> 64 word \<Rightarrow> ocb \<Rightarrow> 'a attr_scheme \<Rightarrow> (nat \<times> 64 word \<times> 32 word) option" where
  "iofunc_read_verify xtype xoff n oc a =
     (if ioflag oc AND IO_FLAG_RD = 0 then Some (EBADF, n, 0)
      else if IS32BIT a (ioflag oc) \<and> S_ISREG (mode a) \<and> n \<noteq> 0 then
        (let off = (if xtype AND XTYPE_MASK = XTYPE_OFFSET then xoff else offset oc) in
         if LONG_MAX \<le> off then Some (EOVERFLOW, n, 0)
         else if LONG_MAX < uint (word_of_int off + n)
         then do { rest \<leftarrow> off64 (LONG_MAX - off); Some (EOK, word_of_int rest, iofunc_isnonblock (ioflag oc) xtype) }
         else Some (EOK, n, iofunc_isnonblock (ioflag oc) xtype))
      else Some (EOK, n, iofunc_isnonblock (ioflag oc) xtype))"

text \<open>What a write by an unprivileged client does to the set-id bits of an executable.\<close>

definition knock_down :: "nat + client \<Rightarrow> ocb \<Rightarrow> 'a attr_scheme \<Rightarrow> nat \<times> 'a attr_scheme" where
  "knock_down ci oc a =
     (if mode a AND set_ids \<noteq> 0 \<and> mode a AND execs \<noteq> 0 then
        (case iofunc_client_info ci (ioflag oc) of
           Inl status \<Rightarrow> (status, a)
         | Inr c \<Rightarrow>
             if iofunc_check_access a 0 (Some c) \<noteq> EOK
             then (EOK, a\<lparr>mode := mode a AND NOT set_ids, flags := flags a OR ATTR_DIRTY_MODE\<rparr>) else (EOK, a))
      else (EOK, a))"

text \<open>The length that may be written: an error, or the length cut to what a 32-bit file may hold.\<close>

definition write_room :: "32 word \<Rightarrow> int \<Rightarrow> 32 word \<Rightarrow> ocb \<Rightarrow> 'a attr_scheme \<Rightarrow> (nat + 32 word) option" where
  "write_room xtype xoff n oc a =
     (if IS32BIT a (ioflag oc) \<and> S_ISREG (mode a) \<and> n \<noteq> 0 then
        (let off = (if xtype AND XTYPE_MASK = XTYPE_OFFSET then xoff else if ioflag oc AND O_APPEND \<noteq> 0 then nbytes a else offset oc) in
         if LONG_MAX \<le> off then Some (Inl EFBIG)
         else do { last \<leftarrow> off64 (off + sint n);
                   Some (Inr (if LONG_MAX < last then word_of_int (LONG_MAX - off) else n)) })
      else Some (Inr n))"

definition iofunc_write_verify :: "nat + client \<Rightarrow> 32 word \<Rightarrow> int \<Rightarrow> 32 word \<Rightarrow> ocb \<Rightarrow> 'a attr_scheme
    \<Rightarrow> (nat \<times> 32 word \<times> 32 word \<times> ocb \<times> 'a attr_scheme) option" where
  "iofunc_write_verify ci xtype xoff n oc a =
     (if ioflag oc AND IO_FLAG_WR = 0 then Some (EBADF, n, 0, oc, a)
      else if readonly (mount a) then Some (EROFS, n, 0, oc, a)
      else if S_ISDIR (mode a) then Some (EISDIR, n, 0, oc, a)
      else
        do { room \<leftarrow> write_room xtype xoff n oc a;
             Some (case room of
                Inl err \<Rightarrow> (err, n, 0, oc, a)
              | Inr n1 \<Rightarrow>
                  let (status, a1) = (if n1 \<noteq> 0 then knock_down ci oc a else (EOK, a)) in
                  if status \<noteq> EOK then (status, n1, 0, oc, a1)
                  else (EOK, n1, iofunc_isnonblock (ioflag oc) xtype,
                        if ioflag oc AND O_APPEND \<noteq> 0 \<and> n1 \<noteq> 0 \<and> xtype AND XTYPE_MASK \<noteq> XTYPE_OFFSET
                        then oc\<lparr>offset := nbytes a1\<rparr> else oc, a1)) })"

text \<open>The message, when there is one, has the origin, the start and the length; their sum is unsigned.\<close>

definition iofunc_space_verify :: "nat + client \<Rightarrow> (int \<times> 64 word \<times> 64 word) option \<Rightarrow> ocb \<Rightarrow> 'a attr_scheme \<Rightarrow> nat \<times> 32 word \<times> 'a attr_scheme" where
  "iofunc_space_verify ci msg oc a =
     (if ioflag oc AND IO_FLAG_WR = 0 then (EBADF, 0, a)
      else if readonly (mount a) then (EROFS, 0, a)
      else if S_ISDIR (mode a) then (EISDIR, 0, a)
      else if IS32BIT a (ioflag oc) \<and> S_ISREG (mode a)
              \<and> (case msg of None \<Rightarrow> False | Some (whence, start, len) \<Rightarrow> whence = 0 \<and> LONG_MAX < uint (start + len)) then (EFBIG, 0, a)
      else
        let (status, a1) = knock_down ci oc a in
        if status \<noteq> EOK then (status, 0, a1) else (EOK, iofunc_isnonblock (ioflag oc) 0, a1))"

text \<open>The handlers of managers without data: reading gives nothing, writing takes everything.\<close>

definition iofunc_read_default :: "32 word \<Rightarrow> int \<Rightarrow> 64 word \<Rightarrow> ocb \<Rightarrow> 'a attr_scheme \<Rightarrow> (nat + 64 word) option" where
  "iofunc_read_default xtype xoff n oc a =
     do { (status, n1, nb) \<leftarrow> iofunc_read_verify xtype xoff n oc a;
          Some (if status \<noteq> EOK then Inl status else if xtype AND XTYPE_MASK \<noteq> XTYPE_NONE then Inl ENOSYS else Inr 0) }"

definition iofunc_write_default :: "nat + client \<Rightarrow> 32 word \<Rightarrow> int \<Rightarrow> 32 word \<Rightarrow> ocb \<Rightarrow> 'a attr_scheme
    \<Rightarrow> ((nat + 32 word) \<times> ocb \<times> 'a attr_scheme) option" where
  "iofunc_write_default ci xtype xoff n oc a =
     do { (status, n1, nb, oc1, a1) \<leftarrow> iofunc_write_verify ci xtype xoff n oc a;
          Some (if status \<noteq> EOK then (Inl status, oc1, a1)
                else if xtype AND XTYPE_MASK \<noteq> XTYPE_NONE then (Inl ENOSYS, oc1, a1)
                else (Inr n1, oc1, if n1 \<noteq> 0 then a1\<lparr>flags := flags a1 OR (ATTR_MTIME OR ATTR_CTIME)\<rparr> else a1)) }"

text \<open>What has to be written back: 0, \<open>O_DSYNC\<close> or \<open>O_SYNC\<close>.\<close>

definition iofunc_sync :: "32 word \<Rightarrow> ocb \<Rightarrow> 'a attr_scheme \<Rightarrow> 32 word \<times> 'a attr_scheme" where
  "iofunc_sync fl oc a =
     (if readonly (mount a) then (0, a)
      else if fl AND IO_FLAG_MASK \<noteq> IO_FLAG_RD \<or> ioflag oc AND O_RSYNC \<noteq> 0 then
        let fl1 = (if fl AND IO_FLAG_MASK \<noteq> 0 then fl OR ioflag oc else fl) in
        if fl1 AND O_SYNC \<noteq> 0 then
          let a1 = (if flags a AND (ATTR_ATIME OR ATTR_MTIME OR ATTR_CTIME) \<noteq> 0 then a\<lparr>flags := flags a OR ATTR_DIRTY_TIME\<rparr> else a)
          in (if flags a1 AND ATTR_DIRTY_MASK \<noteq> 0 then O_SYNC else 0, a1)
        else (if fl1 AND O_DSYNC \<noteq> 0 \<and> flags a AND (ATTR_DIRTY_MASK AND NOT ATTR_DIRTY_TIME) \<noteq> 0 then O_DSYNC else 0, a)
      else (0, a))"

definition iofunc_readlink :: "'a attr_scheme option \<Rightarrow> nat" where
  "iofunc_readlink attr = (case attr of None \<Rightarrow> EBADFSYS | Some a \<Rightarrow> if \<not> S_ISLNK (mode a) then EINVAL else EOK)"

definition iofunc_sync_verify :: "32 word \<Rightarrow> 'a attr_scheme \<Rightarrow> nat" where
  "iofunc_sync_verify fl a =
     (if fl AND NOT (O_SYNC OR O_DSYNC) \<noteq> 0 \<or> (case mount a of None \<Rightarrow> True | Some mt \<Rightarrow> conf mt AND PC_SYNC_IO = 0)
      then EINVAL else EOK)"

end
