(* ===== verification/Flock.thy ===== *)
theory Flock
  imports Iofunc
begin

text \<open>
  The record locks of the resource manager library, \<open>userland/lib/c/iofunc/_iofunc_lock.c\<close>, and the
  handler of \<open>fcntl\<close> locking requests, \<open>iofunc_lock.c\<close>.

  The list of locks of a file is a list of records in link order, each with the requests that wait
  for it. No function uses a pointer to a lock after a call that may move it, so the place of a
  lock in the list stands for its address. Offsets are integers: every offset computed here lies between
  offsets that exist. The world outside is the state \<open>mem\<close>, the outcomes of the coming calls of
  \<open>malloc\<close>, and \<open>sent\<close>, the answers given to clients; \<open>MsgInfo\<close> is an argument.
\<close>

section \<open>Locks\<close>

definition F_RDLCK :: int where "F_RDLCK = 1"
definition F_WRLCK :: int where "F_WRLCK = 2"
definition F_UNLCK :: int where "F_UNLCK = 3"

definition EINTR :: nat where "EINTR = 4"
definition EAGAIN :: nat where "EAGAIN = 11"
definition EDEADLK :: nat where "EDEADLK = 45"

record flock =
  l_type :: int
  l_whence :: int
  l_start :: "32 word"
  l_start_hi :: "32 word"
  l_len :: "32 word"
  l_len_hi :: "32 word"
  l_pid :: int
  l_sysid :: int

record blocked =
  rcvid :: int
  bstart :: int
  bend :: int
  pflock :: "flock option"

record lock =
  scoid :: int
  ltype :: int
  lstart :: int
  lend :: int
  waiting :: "blocked list"

datatype answer = MsgError int nat | MsgReplyv int flock

record world =
  mem :: "bool list"
  sent :: "answer list"

definition CONTAINS :: "int \<Rightarrow> int \<Rightarrow> int \<Rightarrow> bool" where
  "CONTAINS s1 e1 x \<longleftrightarrow> s1 \<le> x \<and> x \<le> e1"

definition OVERLAP :: "int \<Rightarrow> int \<Rightarrow> int \<Rightarrow> int \<Rightarrow> bool" where
  "OVERLAP s1 e1 s2 e2 \<longleftrightarrow> CONTAINS s1 e1 s2 \<or> CONTAINS s2 e2 s1"

definition take_mem :: "world \<Rightarrow> world \<times> bool" where
  "take_mem w = (case mem w of [] \<Rightarrow> (w, False) | b # bs \<Rightarrow> (w\<lparr>mem := bs\<rparr>, b))"

definition answer_with :: "answer \<Rightarrow> world \<Rightarrow> world" where
  "answer_with a w = w\<lparr>sent := sent w @ [a]\<rparr>"

definition new_lock :: "int \<Rightarrow> int \<Rightarrow> int \<Rightarrow> int \<Rightarrow> lock" where
  "new_lock sc ty s e = \<lparr>scoid = sc, ltype = ty, lstart = s, lend = e, waiting = []\<rparr>"

text \<open>
  \<open>_iofunc_lock_add\<close> with a pointer to the lock at index \<open>i\<close>: the new lock goes behind it. With a
  pointer that holds NULL the new lock is stored in that pointer.
\<close>

definition lock_add :: "world \<Rightarrow> lock list \<Rightarrow> nat \<Rightarrow> int \<Rightarrow> int \<Rightarrow> int \<Rightarrow> int \<Rightarrow> world \<times> lock list \<times> bool" where
  "lock_add w xs i sc ty s e =
     (let (w1, ok) = take_mem w in
      if ok then (w1, take (Suc i) xs @ new_lock sc ty s e # drop (Suc i) xs, True) else (w1, xs, False))"

definition lock_add_null :: "world \<Rightarrow> int \<Rightarrow> int \<Rightarrow> int \<Rightarrow> int \<Rightarrow> world \<times> lock option" where
  "lock_add_null w sc ty s e = (let (w1, ok) = take_mem w in (w1, if ok then Some (new_lock sc ty s e) else None))"

text \<open>\<open>_iofunc_lock_find\<close>: the index of the first lock that stands in the way.\<close>

fun lock_find :: "lock list \<Rightarrow> int \<Rightarrow> int \<Rightarrow> int \<Rightarrow> int \<Rightarrow> nat option" where
  "lock_find [] sc ty s e = None"
| "lock_find (c # cs) sc ty s e =
     (if ty = F_UNLCK then None
      else if sc \<noteq> scoid c \<and> OVERLAP s e (lstart c) (lend c) \<and> (ltype c \<noteq> ty \<or> ty \<noteq> F_RDLCK) then Some 0
      else map_option Suc (lock_find cs sc ty s e))"

text \<open>\<open>_iofunc_lock_free\<close>: the requests that wait for a lock are told that it is gone.\<close>

definition lock_free :: "world \<Rightarrow> lock \<Rightarrow> world" where
  "lock_free w c = w\<lparr>sent := sent w @ map (\<lambda>b. MsgError (rcvid b) ENOENT) (waiting c)\<rparr>"

text \<open>\<open>_iofunc_lock_unblock\<close>: the client is told when it still is the one that asked.\<close>

definition lock_unblock :: "(int \<Rightarrow> int option) \<Rightarrow> world \<Rightarrow> blocked \<Rightarrow> world" where
  "lock_unblock MsgInfo w b =
     (case (MsgInfo (rcvid b), pflock b) of
        (Some sc, Some f) \<Rightarrow> if l_sysid f = sc then answer_with (MsgReplyv (rcvid b) f) w else w
      | _ \<Rightarrow> w)"

section \<open>Locking\<close>

text \<open>
  \<open>reblock_pending_locks\<close> takes the locking function as an argument, the recursion is tied below.
  Requests that still conflict wait for the lock in their way, the others are granted.
\<close>

type_synonym locker = "world \<Rightarrow> lock list \<Rightarrow> int \<Rightarrow> int \<Rightarrow> int \<Rightarrow> int \<Rightarrow> (world \<times> lock list \<times> nat) option"

fun reblock_pending_locks :: "locker \<Rightarrow> (int \<Rightarrow> int option) \<Rightarrow> world \<Rightarrow> lock list \<Rightarrow> blocked list \<Rightarrow> (world \<times> lock list) option" where
  "reblock_pending_locks lk mi w xs [] = Some (w, xs)"
| "reblock_pending_locks lk mi w xs (b # bs) =
     (case pflock b of
        None \<Rightarrow> reblock_pending_locks lk mi (answer_with (MsgError (rcvid b) EINVAL) w) xs bs
      | Some f \<Rightarrow>
          (case lock_find xs (l_sysid f) (l_type f) (bstart b) (bend b) of
             Some i \<Rightarrow> reblock_pending_locks lk mi w (xs[i := (xs ! i)\<lparr>waiting := waiting (xs ! i) @ [b]\<rparr>]) bs
           | None \<Rightarrow>
               do { (w1, xs1, r) \<leftarrow> lk w xs (l_sysid f) (l_type f) (bstart b) (bend b);
                    let w2 = (if r \<noteq> EOK then answer_with (MsgError (rcvid b) r) w1 else lock_unblock mi w1 b);
                    reblock_pending_locks lk mi w2 xs1 bs }))"

text \<open>
  The rearrangement of \<open>locksplit\<close> for the lock at index \<open>i\<close> whose waiting requests were taken away.
  The flag is False when an allocation failed.
\<close>

definition split_lock :: "world \<Rightarrow> lock list \<Rightarrow> nat \<Rightarrow> int \<Rightarrow> int \<Rightarrow> int \<Rightarrow> world \<times> lock list \<times> bool" where
  "split_lock w xs i ty s e =
     (let cl = xs ! i in
      if s \<le> lstart cl \<and> lend cl \<le> e then (w, xs[i := cl\<lparr>lstart := s, lend := e, ltype := ty\<rparr>], True)
      else if lstart cl < s \<and> e < lend cl then
        (let (w1, xs1, ok) = lock_add w xs i (scoid cl) ty s e in
         if \<not> ok then (w1, xs1, False)
         else let (w2, xs2, ok2) = lock_add w1 xs1 (Suc i) (scoid cl) (ltype cl) (e + 1) (lend cl) in
              if \<not> ok2 then (w2, xs2, False) else (w2, xs2[i := cl\<lparr>lend := s - 1\<rparr>], True))
      else if s \<le> lstart cl then
        (let (w1, xs1, ok) = lock_add w xs i (scoid cl) (ltype cl) (e + 1) (lend cl) in
         if \<not> ok then (w1, xs1, False) else (w1, xs1[i := cl\<lparr>ltype := ty, lstart := s, lend := e\<rparr>], True))
      else
        (let (w1, xs1, ok) = lock_add w xs i (scoid cl) ty s e in
         if \<not> ok then (w1, xs1, False) else (w1, xs1[i := cl\<lparr>lend := s - 1\<rparr>], True)))"

definition locksplit :: "locker \<Rightarrow> (int \<Rightarrow> int option) \<Rightarrow> world \<Rightarrow> lock list \<Rightarrow> nat \<Rightarrow> int \<Rightarrow> int \<Rightarrow> int
    \<Rightarrow> (world \<times> lock list \<times> nat) option" where
  "locksplit lk mi w xs i ty s e =
     (let cl = xs ! i in
      if \<not> OVERLAP (lstart cl) (lend cl) s e \<or> ty = ltype cl then Some (w, xs, EOK)
      else
        let (w1, xs1, ok) = split_lock w (xs[i := cl\<lparr>waiting := []\<rparr>]) i ty s e in
        if \<not> ok then Some (w1, xs1, EINVAL)
        else do { (w2, xs2) \<leftarrow> reblock_pending_locks lk mi w1 xs1 (waiting cl); Some (w2, xs2, EOK) })"

text \<open>The scan of \<open>_iofunc_lock_scoid\<close>: the indices that \<open>pl\<close> and \<open>cl\<close> point at.\<close>

fun lock_scan :: "lock list \<Rightarrow> nat option \<Rightarrow> nat \<Rightarrow> int \<Rightarrow> int \<Rightarrow> int \<Rightarrow> nat option \<times> nat option" where
  "lock_scan [] pl i sc s e = (pl, None)"
| "lock_scan (c # cs) pl i sc s e =
     (if scoid c = sc \<and> OVERLAP s e (lstart c) (lend c) then (pl, Some i)
      else if s < lstart c then (pl, pl)
      else lock_scan cs (Some i) (Suc i) sc s e)"

definition lock_step :: "locker \<Rightarrow> (int \<Rightarrow> int option) \<Rightarrow> locker" where
  "lock_step lk mi w xs sc ty s e =
     (if xs = [] then
        (let (w1, l) = lock_add_null w sc ty s e in
         Some (case l of None \<Rightarrow> (w1, xs, ENOMEM) | Some nl \<Rightarrow> (w1, [nl], EOK)))
      else if e < lstart (hd xs) then
        (let (w1, l) = lock_add_null w sc ty s e in
         Some (case l of None \<Rightarrow> (w1, xs, ENOMEM) | Some nl \<Rightarrow> (w1, nl # xs, EOK)))
      else
        (case lock_scan xs None 0 sc s e of
           (None, None) \<Rightarrow>
             (let (w1, l) = lock_add_null w sc ty s e in Some (w1, xs, if l = None then ENOMEM else EOK))
         | (Some p, None) \<Rightarrow>
             (let (w1, xs1, ok) = lock_add w xs p sc ty s e in Some (w1, xs1, if ok then EOK else ENOMEM))
         | (_, Some i) \<Rightarrow>
             (let cl = xs ! i in
              if scoid cl = sc \<and> OVERLAP s e (lstart cl) (lend cl) then
                if ltype cl = ty then Some (w, xs[i := cl\<lparr>lend := max (lend cl) e, lstart := min (lstart cl) s\<rparr>], EOK)
                else locksplit lk mi w xs i ty s e
              else
                (let (w1, xs1, ok) = lock_add w xs i sc ty s e in Some (w1, xs1, if ok then EOK else ENOMEM)))))"

text \<open>
  The recursion of \<open>_iofunc_lock_scoid\<close> through \<open>locksplit\<close> and \<open>reblock_pending_locks\<close>, with its
  depth bounded. Every level of it takes a waiting request out of the list, so that one more than
  there are requests is enough.
\<close>

primrec lock_depth :: "(int \<Rightarrow> int option) \<Rightarrow> nat \<Rightarrow> locker" where
  "lock_depth mi 0 = (\<lambda>w xs sc ty s e. None)"
| "lock_depth mi (Suc n) = lock_step (lock_depth mi n) mi"

definition waiters :: "lock list \<Rightarrow> blocked list" where
  "waiters xs = concat (map waiting xs)"

definition lock_scoid :: "(int \<Rightarrow> int option) \<Rightarrow> locker" where
  "lock_scoid mi w xs = lock_depth mi (Suc (length (waiters xs))) w xs"

section \<open>Unlocking\<close>

text \<open>
  The loop of \<open>_iofunc_unlock_scoid\<close>. The waiting requests of every lock that changes are collected.
  When an allocation fails the loop ends; the flag is then False and the rest of the list stays.
\<close>

fun unlock_loop :: "world \<Rightarrow> lock list \<Rightarrow> int \<Rightarrow> int \<Rightarrow> int \<Rightarrow> blocked list \<Rightarrow> world \<times> lock list \<times> blocked list \<times> bool" where
  "unlock_loop w [] sc s e pending = (w, [], pending, True)"
| "unlock_loop w (cl # cs) sc s e pending =
     (if scoid cl \<noteq> sc \<or> \<not> OVERLAP s e (lstart cl) (lend cl) then
        (let (w1, xs, p, ok) = unlock_loop w cs sc s e pending in (w1, cl # xs, p, ok))
      else
        let pending1 = pending @ waiting cl; c0 = cl\<lparr>waiting := []\<rparr> in
        if s \<le> lstart cl \<and> lend cl \<le> e then unlock_loop (lock_free w c0) cs sc s e pending1
        else if lstart cl < s \<and> e < lend cl then
          (let (w1, xs1, ok) = lock_add w [c0] 0 (scoid cl) (ltype cl) (e + 1) (lend cl) in
           if \<not> ok then (w1, c0 # cs, pending1, False)
           else let (w2, xs, p, ok2) = unlock_loop w1 cs sc s e pending1 in (w2, xs1[0 := c0\<lparr>lend := s - 1\<rparr>] @ xs, p, ok2))
        else
          (let c1 = (if s \<le> lstart cl \<and> e < lend cl then c0\<lparr>lstart := e + 1\<rparr> else c0\<lparr>lend := s - 1\<rparr>);
               (w1, xs, p, ok) = unlock_loop w cs sc s e pending1 in (w1, c1 # xs, p, ok)))"

definition unlock_scoid :: "(int \<Rightarrow> int option) \<Rightarrow> world \<Rightarrow> lock list \<Rightarrow> int \<Rightarrow> int \<Rightarrow> int \<Rightarrow> (world \<times> lock list \<times> nat) option" where
  "unlock_scoid mi w xs sc s e =
     (let (w1, xs1, pending, ok) = unlock_loop w xs sc s e [] in
      if \<not> ok then Some (w1, xs1, EINVAL)
      else do { (w2, xs2) \<leftarrow> reblock_pending_locks (lock_scoid mi) mi w1 xs1 pending; Some (w2, xs2, EOK) })"

definition iofunc_lock_set :: "(int \<Rightarrow> int option) \<Rightarrow> world \<Rightarrow> lock list \<Rightarrow> int \<Rightarrow> int \<Rightarrow> int \<Rightarrow> int \<Rightarrow> (world \<times> lock list \<times> nat) option" where
  "iofunc_lock_set mi w xs sc ty s e =
     (if ty = F_UNLCK then unlock_scoid mi w xs sc s e else lock_scoid mi w xs sc ty s e)"

section \<open>The handler\<close>

definition F_SETLK :: int where "F_SETLK = 6"
definition F_SETLKW :: int where "F_SETLKW = 7"
definition F_GETLK :: int where "F_GETLK = 14"
definition F_SETLK64 :: int where "F_SETLK64 = 106"
definition F_SETLKW64 :: int where "F_SETLKW64 = 107"
definition F_GETLK64 :: int where "F_GETLK64 = 114"

text \<open>The attributes of a file with its list of locks.\<close>

record fattr = attr +
  lock_list :: "lock list"

record resmgr_context =
  ctx_scoid :: int
  ctx_rcvid :: int
  ctx_nd :: int

definition glue :: "32 word \<Rightarrow> 32 word \<Rightarrow> int" where
  "glue lo hi = uint lo + sint hi * 2 ^ 32"

definition sign_hi :: "32 word \<Rightarrow> 32 word" where
  "sign_hi lo = (if sint lo < 0 then - 1 else 0)"

text \<open>The command switch: an error, or the command in its 64-bit form and the request widened.\<close>

definition lock_command :: "int \<Rightarrow> flock \<Rightarrow> ocb \<Rightarrow> fattr \<Rightarrow> nat + int \<times> flock" where
  "lock_command cmd f oc a =
     (let wide = f\<lparr>l_start_hi := sign_hi (l_start f), l_len_hi := sign_hi (l_len f)\<rparr> in
      if cmd = F_SETLK \<or> cmd = F_SETLKW \<or> cmd = F_SETLK64 \<or> cmd = F_SETLKW64 then
        (if lock_list a \<noteq> [] \<and> mode a AND (S_IXGRP OR S_ISGID) = S_ISGID then Inl EAGAIN
         else if l_type f = F_RDLCK \<and> ioflag oc AND IO_FLAG_RD = 0 then Inl EBADF
         else if l_type f = F_WRLCK \<and> ioflag oc AND IO_FLAG_WR = 0 then Inl EBADF
         else Inr (if cmd = F_SETLK then (F_SETLK64, wide) else if cmd = F_SETLKW then (F_SETLKW64, wide) else (cmd, f)))
      else if cmd = F_GETLK then Inr (F_GETLK64, wide)
      else if cmd = F_GETLK64 then Inr (cmd, f)
      else Inl EINVAL)"

text \<open>The first and last offset of a request; the outer option is a signed overflow.\<close>

definition lock_range :: "flock \<Rightarrow> ocb \<Rightarrow> fattr \<Rightarrow> (nat + int \<times> int) option" where
  "lock_range f oc a =
     (if l_whence f \<noteq> 0 \<and> l_whence f \<noteq> 1 \<and> l_whence f \<noteq> 2 then Some (Inl EINVAL)
      else
        do { start \<leftarrow> off64 (glue (l_start f) (l_start_hi f) + (if l_whence f = 1 then offset oc else if l_whence f = 2 then nbytes a else 0));
             (s, e) \<leftarrow>
               (if l_len f = 0 \<and> l_len_hi f = 0 then Some (start, LONG_MAX)
                else if sint (l_len_hi f) < 0
                then do { e \<leftarrow> off64 (start - 1); s \<leftarrow> off64 (start + glue (l_len f) (l_len_hi f)); Some (s, e) }
                else do { t \<leftarrow> off64 (glue (l_len f) (l_len_hi f) + start); e \<leftarrow> off64 (t - 1); Some (start, e) });
             Some (if s < 0 \<or> e < 0 then Inl EINVAL
                   else if IS32BIT a (ioflag oc) \<and> LONG_MAX < (if l_len f = 0 \<and> l_len_hi f = 0 then s else e) then Inl EOVERFLOW
                   else Inr (s, e)) })"

text \<open>The answer to \<open>F_GETLK\<close>: who holds what. The client data and the node translation are arguments.\<close>

definition describe_lock :: "(int \<Rightarrow> int \<times> int) \<Rightarrow> (int \<Rightarrow> int \<Rightarrow> int) \<Rightarrow> resmgr_context \<Rightarrow> flock \<Rightarrow> lock \<Rightarrow> flock" where
  "describe_lock ConnectClientInfo netmgr_remote_nd ctp f l =
     (let len = (if lend l = LONG_MAX then 0 else lend l - lstart l + 1); (pid, nd) = ConnectClientInfo (scoid l) in
      f\<lparr>l_type := ltype l, l_whence := 0,
        l_start := word_of_int (lstart l), l_start_hi := word_of_int (drop_bit 32 (lstart l)),
        l_len := word_of_int len, l_len_hi := word_of_int (drop_bit 32 len),
        l_pid := pid, l_sysid := netmgr_remote_nd (ctx_nd ctp) nd\<rparr>)"

text \<open>A request that has to wait: two allocations, the second only after the first.\<close>

definition lock_wait :: "world \<Rightarrow> lock list \<Rightarrow> nat \<Rightarrow> resmgr_context \<Rightarrow> flock \<Rightarrow> int \<Rightarrow> int \<Rightarrow> world \<times> lock list \<times> status" where
  "lock_wait w xs i ctp f s e =
     (if ctx_scoid ctp = scoid (xs ! i) then (w, xs, Errno EDEADLK)
      else
        let (w1, ok1) = take_mem w in
        if \<not> ok1 then (w1, xs, Errno ENOMEM)
        else
          let (w2, ok2) = take_mem w1 in
          if \<not> ok2 then (w2, xs, Errno ENOMEM)
          else (w2, xs[i := (xs ! i)\<lparr>waiting := waiting (xs ! i) @
                     [\<lparr>rcvid = ctx_rcvid ctp, bstart = s, bend = e, pflock = Some (f\<lparr>l_sysid := ctx_scoid ctp\<rparr>)\<rparr>]\<rparr>], Noreply))"

definition iofunc_lock :: "(int \<Rightarrow> int option) \<Rightarrow> (int \<Rightarrow> int \<times> int) \<Rightarrow> (int \<Rightarrow> int \<Rightarrow> int) \<Rightarrow> resmgr_context \<Rightarrow> int \<Rightarrow> flock \<Rightarrow> ocb
    \<Rightarrow> world \<Rightarrow> fattr \<Rightarrow> (world \<times> fattr \<times> flock \<times> status) option" where
  "iofunc_lock mi cci rnd ctp cmd f oc w a =
     (if l_type f \<noteq> F_RDLCK \<and> l_type f \<noteq> F_WRLCK \<and> l_type f \<noteq> F_UNLCK then Some (w, a, f, Errno EINVAL)
      else case lock_command cmd f oc a of
        Inl err \<Rightarrow> Some (w, a, if cmd = F_SETLK \<or> cmd = F_SETLKW then f\<lparr>l_start_hi := sign_hi (l_start f), l_len_hi := sign_hi (l_len f)\<rparr> else f, Errno err)
      | Inr (cmd, f) \<Rightarrow>
          do { range \<leftarrow> lock_range f oc a;
               (case range of
                  Inl err \<Rightarrow> Some (w, a, f, Errno err)
                | Inr (s, e) \<Rightarrow>
                    (let found = lock_find (lock_list a) (ctx_scoid ctp) (l_type f) s e in
                     if cmd = F_GETLK64 then
                       Some (if l_type f = F_UNLCK then (w, a, f, Errno EINVAL)
                             else case found of
                                 Some i \<Rightarrow> (w, a, describe_lock cci rnd ctp f (lock_list a ! i), Reply)
                               | None \<Rightarrow> (w, a, f\<lparr>l_type := F_UNLCK\<rparr>, Reply))
                     else
                       (case found of
                          Some i \<Rightarrow>
                            if cmd = F_SETLKW64 then
                              (let (w1, xs, st) = lock_wait w (lock_list a) i ctp f s e in Some (w1, a\<lparr>lock_list := xs\<rparr>, f, st))
                            else Some (w, a, f, Errno EAGAIN)
                        | None \<Rightarrow>
                            do { (w1, xs, r) \<leftarrow> iofunc_lock_set mi w (lock_list a) (ctx_scoid ctp) (l_type f) s e;
                                 Some (w1, a\<lparr>lock_list := xs\<rparr>, f, if r = EOK then Reply else Errno r) }))) })"

text \<open>\<open>iofunc_unblock\<close>: a client that was asked to give up its wait. The flag of \<open>MsgInfo_r\<close> is an argument.\<close>

fun drop_waiter :: "blocked list \<Rightarrow> int \<Rightarrow> (int \<Rightarrow> bool) \<Rightarrow> blocked list option" where
  "drop_waiter [] r unblock_req = None"
| "drop_waiter (b # bs) r unblock_req =
     (if rcvid b = r \<and> unblock_req (rcvid b) then Some bs else map_option (Cons b) (drop_waiter bs r unblock_req))"

fun iofunc_unblock :: "(int \<Rightarrow> bool) \<Rightarrow> world \<Rightarrow> lock list \<Rightarrow> int \<Rightarrow> (world \<times> lock list) option" where
  "iofunc_unblock unblock_req w [] r = None"
| "iofunc_unblock unblock_req w (c # cs) r =
     (case drop_waiter (waiting c) r unblock_req of
        Some bs \<Rightarrow> Some (answer_with (MsgError r EINTR) w, c\<lparr>waiting := bs\<rparr> # cs)
      | None \<Rightarrow> map_option (\<lambda>(w1, xs). (w1, c # xs)) (iofunc_unblock unblock_req w cs r))"

end
