(* ===== verification/Flock_Step.thy ===== *)
theory Flock_Step
  imports Flock "HOL-Library.Multiset"
begin

text \<open>
  What a list of locks covers, and what one step of locking does to it: the shapes its result can
  have and what each of them covers.
\<close>

section \<open>What a lock covers\<close>

definition on :: "lock \<Rightarrow> int \<Rightarrow> int \<Rightarrow> int \<Rightarrow> bool" where
  "on c sc ty x \<longleftrightarrow> scoid c = sc \<and> ltype c = ty \<and> lstart c \<le> x \<and> x \<le> lend c"

definition covers :: "lock list \<Rightarrow> int \<Rightarrow> int \<Rightarrow> int \<Rightarrow> bool" where
  "covers xs sc ty x \<longleftrightarrow> (\<exists>c \<in> set xs. on c sc ty x)"

lemma covers_simps [simp]:
  "\<not> covers [] sc ty x" "covers (c # cs) sc ty x \<longleftrightarrow> on c sc ty x \<or> covers cs sc ty x"
  "covers (xs @ ys) sc ty x \<longleftrightarrow> covers xs sc ty x \<or> covers ys sc ty x"
  by (auto simp: covers_def)

lemma waiters_simps [simp]: "waiters [] = []" "waiters (c # cs) = waiting c @ waiters cs" "waiters (xs @ ys) = waiters xs @ waiters ys"
  by (simp_all add: waiters_def)

lemma waiting_new_lock [simp]: "waiting (new_lock sc ty s e) = []"
  by (simp add: new_lock_def)

lemma on_new_lock [simp]: "on (new_lock sc ty s e) sc' ty' x \<longleftrightarrow> sc' = sc \<and> ty' = ty \<and> s \<le> x \<and> x \<le> e"
  by (auto simp: on_def new_lock_def)

definition ranges_ok :: "lock list \<Rightarrow> bool" where
  "ranges_ok xs \<longleftrightarrow> (\<forall>c \<in> set xs. lstart c \<le> lend c)"

lemma ranges_ok_simps [simp]: "ranges_ok []" "ranges_ok (c # cs) \<longleftrightarrow> lstart c \<le> lend c \<and> ranges_ok cs" "ranges_ok (xs @ ys) \<longleftrightarrow> ranges_ok xs \<and> ranges_ok ys"
  by (auto simp: ranges_ok_def)

lemma forward_new_lock [simp]: "lstart (new_lock sc ty s e) = s" "lend (new_lock sc ty s e) = e" "scoid (new_lock sc ty s e) = sc" "ltype (new_lock sc ty s e) = ty"
  by (simp_all add: new_lock_def)

lemmas overlap_defs = OVERLAP_def CONTAINS_def

lemma malloc_cases: "take_mem w = (w1, ok) \<Longrightarrow> sent w1 = sent w"
  by (auto simp: take_mem_def split: list.splits)

lemma lock_add_at:
  "lock_add w (us @ c # vs) (length us) sc ty s e =
     (let (w1, ok) = take_mem w in if ok then (w1, us @ c # new_lock sc ty s e # vs, True) else (w1, us @ c # vs, False))"
  by (simp add: lock_add_def take_append split: prod.split)

lemma lock_add_at_Suc:
  "lock_add w (us @ c # d # vs) (Suc (length us)) sc ty s e =
     (let (w1, ok) = take_mem w in if ok then (w1, us @ c # d # new_lock sc ty s e # vs, True) else (w1, us @ c # d # vs, False))"
  using lock_add_at[of w "us @ [c]" d vs] by (simp split: prod.split)

section \<open>The scan\<close>

lemma scan_some: "lock_scan xs (Some p) i sc s e = (pl, cl) \<Longrightarrow> pl \<noteq> None"
  by (induction xs arbitrary: p i) (auto split: if_splits)

lemma scan_bounds:
  "lock_scan xs pl i sc s e = (pl', cl') \<Longrightarrow> (\<forall>p. pl' = Some p \<longrightarrow> pl = Some p \<or> p < i + length xs) \<and> (\<forall>c. cl' = Some c \<longrightarrow> pl = Some c \<or> c < i + length xs)"
  by (induction xs arbitrary: pl i) (auto split: if_splits, fastforce+)

text \<open>The outcome of the scan from the head: nothing before the first lock, or a lock to work on.\<close>

lemma scan_first:
  assumes "xs \<noteq> []" "\<not> e < lstart (hd xs)" "s \<le> e" "ranges_ok xs"
  shows "lock_scan xs None 0 sc s e = (None, None) \<longleftrightarrow> scoid (hd xs) \<noteq> sc \<and> s < lstart (hd xs)"
proof (cases xs)
  case (Cons c cs)
  then show ?thesis using assms scan_some[of cs 0 "Suc 0" sc s e]
    by (cases "lock_scan cs (Some 0) (Suc 0) sc s e") (auto simp: overlap_defs)
qed (use assms in simp)

section \<open>One locking step\<close>

text \<open>
  \<open>lock_core\<close> is \<open>lock_step\<close> up to the point where waiting requests are looked at again: it returns
  them instead.
\<close>

definition lock_core :: "world \<Rightarrow> lock list \<Rightarrow> int \<Rightarrow> int \<Rightarrow> int \<Rightarrow> int \<Rightarrow> world \<times> lock list \<times> blocked list \<times> nat" where
  "lock_core w xs sc ty s e =
     (let (w1, l) = lock_add_null w sc ty s e in
      if xs = [] then (case l of None \<Rightarrow> (w1, xs, [], ENOMEM) | Some nl \<Rightarrow> (w1, [nl], [], EOK))
      else if e < lstart (hd xs) then (case l of None \<Rightarrow> (w1, xs, [], ENOMEM) | Some nl \<Rightarrow> (w1, nl # xs, [], EOK))
      else
        (case lock_scan xs None 0 sc s e of
           (None, None) \<Rightarrow> (w1, xs, [], if l = None then ENOMEM else EOK)
         | (Some p, None) \<Rightarrow> (let (w1, xs1, ok) = lock_add w xs p sc ty s e in (w1, xs1, [], if ok then EOK else ENOMEM))
         | (_, Some i) \<Rightarrow>
             (let cl = xs ! i in
              if scoid cl = sc \<and> OVERLAP s e (lstart cl) (lend cl) then
                if ltype cl = ty then (w, xs[i := cl\<lparr>lend := max (lend cl) e, lstart := min (lstart cl) s\<rparr>], [], EOK)
                else (let (w1, xs1, ok) = split_lock w (xs[i := cl\<lparr>waiting := []\<rparr>]) i ty s e in
                      (w1, xs1, if ok then waiting cl else [], if ok then EOK else EINVAL))
              else (let (w1, xs1, ok) = lock_add w xs i sc ty s e in (w1, xs1, [], if ok then EOK else ENOMEM)))))"

lemma overlap_sym: "OVERLAP a b c d = OVERLAP c d a b"
  by (auto simp: overlap_defs)

lemma lock_step_core:
  "lock_step lk mi w xs sc ty s e =
     (case lock_core w xs sc ty s e of (w1, xs1, ds, r) \<Rightarrow> do { (w2, xs2) \<leftarrow> reblock_pending_locks lk mi w1 xs1 ds; Some (w2, xs2, r) })"
  unfolding lock_step_def lock_core_def locksplit_def Let_def
  by (auto split: prod.splits option.splits if_splits simp: overlap_sym)

definition pieces :: "lock \<Rightarrow> int \<Rightarrow> int \<Rightarrow> int \<Rightarrow> lock list" where
  "pieces cl ty s e =
     (if s \<le> lstart cl \<and> lend cl \<le> e then [cl\<lparr>lstart := s, lend := e, ltype := ty\<rparr>]
      else if lstart cl < s \<and> e < lend cl
      then [cl\<lparr>lend := s - 1\<rparr>, new_lock (scoid cl) ty s e, new_lock (scoid cl) (ltype cl) (e + 1) (lend cl)]
      else if s \<le> lstart cl then [cl\<lparr>ltype := ty, lstart := s, lend := e\<rparr>, new_lock (scoid cl) (ltype cl) (e + 1) (lend cl)]
      else [cl\<lparr>lend := s - 1\<rparr>, new_lock (scoid cl) ty s e])"

inductive core_shape :: "int \<Rightarrow> int \<Rightarrow> int \<Rightarrow> int \<Rightarrow> lock list \<Rightarrow> lock list \<Rightarrow> blocked list \<Rightarrow> nat \<Rightarrow> bool" for sc ty s e where
  failed: "r \<noteq> EOK \<Longrightarrow> core_shape sc ty s e xs xs [] r"
| torn: "r \<noteq> EOK \<Longrightarrow> scoid cl = sc \<Longrightarrow> cs = [] \<or> cs = [new_lock sc ty s e]
    \<Longrightarrow> core_shape sc ty s e (us @ cl # vs) (us @ cl\<lparr>waiting := []\<rparr> # cs @ vs) [] r"
| lost: "scoid c \<noteq> sc \<Longrightarrow> s < lstart c \<Longrightarrow> lstart c \<le> e \<Longrightarrow> core_shape sc ty s e (c # cs) (c # cs) [] EOK"
| added: "core_shape sc ty s e (us @ vs) (us @ new_lock sc ty s e # vs) [] EOK"
| merged: "scoid cl = sc \<Longrightarrow> ltype cl = ty \<Longrightarrow> OVERLAP s e (lstart cl) (lend cl)
    \<Longrightarrow> core_shape sc ty s e (us @ cl # vs) (us @ cl\<lparr>lend := max (lend cl) e, lstart := min (lstart cl) s\<rparr> # vs) [] EOK"
| split: "scoid cl = sc \<Longrightarrow> ltype cl \<noteq> ty \<Longrightarrow> OVERLAP s e (lstart cl) (lend cl)
    \<Longrightarrow> core_shape sc ty s e (us @ cl # vs) (us @ pieces (cl\<lparr>waiting := []\<rparr>) ty s e @ vs) (waiting cl) EOK"

lemma split_lock_shape:
  assumes "split_lock w (us @ cl # vs) (length us) ty s e = (w1, xs1, ok)"
  shows "if ok then xs1 = us @ pieces cl ty s e @ vs else \<exists>cs. (cs = [] \<or> cs = [new_lock (scoid cl) ty s e]) \<and> xs1 = us @ cl # cs @ vs"
  using assms unfolding split_lock_def pieces_def Let_def
  by (auto simp: lock_add_at lock_add_at_Suc Let_def split: prod.splits if_splits)

lemma errnos [simp]: "EINVAL \<noteq> EOK" "ENOMEM \<noteq> EOK" "EOK \<noteq> ENOMEM" "EOK \<noteq> EINVAL"
  by (simp_all add: EOK_def EINVAL_def ENOMEM_def)

lemma add_shape:
  assumes "i < length xs" "lock_add w xs i sc ty s e = (w1, xs1, ok)"
  shows "core_shape sc ty s e xs xs1 [] (if ok then EOK else ENOMEM)"
proof -
  have "xs = take (Suc i) xs @ drop (Suc i) xs" by simp
  then show ?thesis using assms(2) added[of sc ty s e "take (Suc i) xs" "drop (Suc i) xs"]
    by (auto simp: lock_add_def Let_def failed split: prod.splits if_splits)
qed

lemma null_shape:
  assumes "lock_add_null w sc ty s e = (w1, l)"
  shows "l = None \<or> l = Some (new_lock sc ty s e)"
  using assms by (auto simp: lock_add_null_def Let_def split: prod.splits if_splits)

lemma head_shape:
  assumes "lock_add_null w sc ty s e = (w1, l)"
  shows "case l of None \<Rightarrow> core_shape sc ty s e xs xs [] ENOMEM | Some nl \<Rightarrow> core_shape sc ty s e xs (nl # xs) [] EOK"
  using null_shape[OF assms] failed[of ENOMEM sc ty s e xs] added[of sc ty s e "[]" xs] by (auto split: option.splits)

lemma own_shape:
  assumes i: "i < length xs" and own: "scoid (xs ! i) = sc" "OVERLAP s e (lstart (xs ! i)) (lend (xs ! i))" "ltype (xs ! i) \<noteq> ty"
    and sp: "split_lock w (xs[i := (xs ! i)\<lparr>waiting := []\<rparr>]) i ty s e = (w1, xs1, ok)"
  shows "core_shape sc ty s e xs xs1 (if ok then waiting (xs ! i) else []) (if ok then EOK else EINVAL)"
proof -
  define us cl vs where d: "us = take i xs" "cl = xs ! i" "vs = drop (Suc i) xs"
  have xs: "xs = us @ cl # vs" and len: "length us = i" using i by (simp_all add: d id_take_nth_drop)
  have "xs[i := cl\<lparr>waiting := []\<rparr>] = us @ cl\<lparr>waiting := []\<rparr> # vs" unfolding xs len[symmetric] by simp
  then have "split_lock w (us @ cl\<lparr>waiting := []\<rparr> # vs) (length us) ty s e = (w1, xs1, ok)" using sp len d(2) by simp
  from split_lock_shape[OF this]
  have *: "if ok then xs1 = us @ pieces (cl\<lparr>waiting := []\<rparr>) ty s e @ vs
      else \<exists>cs. (cs = [] \<or> cs = [new_lock (scoid cl) ty s e]) \<and> xs1 = us @ cl\<lparr>waiting := []\<rparr> # cs @ vs" by (cases ok) auto
  show ?thesis
  proof (cases ok)
    case True
    have "core_shape sc ty s e (us @ cl # vs) (us @ pieces (cl\<lparr>waiting := []\<rparr>) ty s e @ vs) (waiting cl) EOK"
      by (rule split) (use own d(2) in auto)
    then show ?thesis using * True xs[symmetric] d(2)[symmetric] by simp
  next
    case False
    then obtain cs where cs: "cs = [] \<or> cs = [new_lock sc ty s e]" "xs1 = us @ cl\<lparr>waiting := []\<rparr> # cs @ vs" using * own(1) d(2) by auto
    have "core_shape sc ty s e (us @ cl # vs) (us @ cl\<lparr>waiting := []\<rparr> # cs @ vs) [] EINVAL"
      by (rule torn) (use own d(2) cs in auto)
    then show ?thesis using cs(2) False xs[symmetric] by simp
  qed
qed

lemma scan_shape:
  assumes sc: "lock_scan xs None 0 sc s e = (pl, cl)" and ne: "xs \<noteq> []" "\<not> e < lstart (hd xs)"
  shows "(pl = None \<and> cl = None \<longrightarrow> scoid (hd xs) \<noteq> sc \<and> s < lstart (hd xs)) \<and> (\<forall>p. pl = Some p \<longrightarrow> p < length xs) \<and> (\<forall>i. cl = Some i \<longrightarrow> i < length xs)"
proof -
  have "(\<forall>p. pl = Some p \<longrightarrow> p < length xs) \<and> (\<forall>i. cl = Some i \<longrightarrow> i < length xs)" using scan_bounds[OF sc] by auto
  moreover have "pl = None \<and> cl = None \<longrightarrow> scoid (hd xs) \<noteq> sc \<and> s < lstart (hd xs)"
  proof (cases xs)
    case (Cons c cs)
    then show ?thesis using sc ne scan_some[of cs 0 "Suc 0" sc s e] by (auto simp: overlap_defs split: if_splits)
  qed (use ne in simp)
  ultimately show ?thesis by blast
qed

lemma merge_shape:
  assumes i: "i < length xs" and own: "scoid (xs ! i) = sc" "OVERLAP s e (lstart (xs ! i)) (lend (xs ! i))" "ltype (xs ! i) = ty"
  shows "core_shape sc ty s e xs (xs[i := (xs ! i)\<lparr>lend := max (lend (xs ! i)) e, lstart := min (lstart (xs ! i)) s\<rparr>]) [] EOK"
proof -
  define us cl vs where d: "us = take i xs" "cl = xs ! i" "vs = drop (Suc i) xs"
  have xs: "xs = us @ cl # vs" and len: "length us = i" using i by (simp_all add: d id_take_nth_drop)
  have "core_shape sc ty s e (us @ cl # vs) (us @ cl\<lparr>lend := max (lend cl) e, lstart := min (lstart cl) s\<rparr> # vs) [] EOK"
    by (rule merged) (use own d(2) in auto)
  moreover have "xs[i := cl\<lparr>lend := max (lend cl) e, lstart := min (lstart cl) s\<rparr>] = us @ cl\<lparr>lend := max (lend cl) e, lstart := min (lstart cl) s\<rparr> # vs"
    unfolding xs len[symmetric] by simp
  ultimately show ?thesis using xs[symmetric] d(2)[symmetric] by simp
qed

lemma lock_core_shape:
  assumes "lock_core w xs sc ty s e = (w1, xs1, ds, r)"
  shows "core_shape sc ty s e xs xs1 ds r"
proof -
  obtain w0 l where l: "lock_add_null w sc ty s e = (w0, l)" by fastforce
  show ?thesis
  proof (cases "xs = [] \<or> e < lstart (hd xs)")
    case True
    then show ?thesis using assms head_shape[OF l, of xs] l by (auto simp: lock_core_def Let_def split: option.splits if_splits)
  next
    case False
    obtain pl cl where sc: "lock_scan xs None 0 sc s e = (pl, cl)" by fastforce
    have ne: "xs \<noteq> []" "\<not> e < lstart (hd xs)" using False by auto
    note b = scan_shape[OF sc ne]
    show ?thesis
    proof (cases cl)
      case None
      show ?thesis
      proof (cases pl)
        case None': None
        then have "core_shape sc ty s e xs xs [] EOK"
          using b None ne lost[of "hd xs" sc s e ty "tl xs"] by simp
        then show ?thesis using assms None None' sc l False by (auto simp: lock_core_def Let_def failed split: if_splits)
      next
        case (Some p)
        then show ?thesis using assms None sc False b add_shape[of p xs w sc ty s e] l
          by (auto simp: lock_core_def Let_def split: prod.splits)
      qed
    next
      case (Some i)
      then have i: "i < length xs" using b by blast
      have core: "lock_core w xs sc ty s e = (let cl = xs ! i in
              if scoid cl = sc \<and> OVERLAP s e (lstart cl) (lend cl) then
                if ltype cl = ty then (w, xs[i := cl\<lparr>lend := max (lend cl) e, lstart := min (lstart cl) s\<rparr>], [], EOK)
                else (let (w1, xs1, ok) = split_lock w (xs[i := cl\<lparr>waiting := []\<rparr>]) i ty s e in
                      (w1, xs1, if ok then waiting cl else [], if ok then EOK else EINVAL))
              else (let (w1, xs1, ok) = lock_add w xs i sc ty s e in (w1, xs1, [], if ok then EOK else ENOMEM)))"
        using sc Some False l by (cases pl) (auto simp: lock_core_def Let_def)
      show ?thesis using assms unfolding core Let_def
        by (auto split: prod.splits if_splits intro: own_shape[OF i, where ok = True, simplified] own_shape[OF i, where ok = False, simplified]
          merge_shape[OF i] add_shape[OF i, where ok = True, simplified] add_shape[OF i, where ok = False, simplified])
    qed
  qed
qed

section \<open>What one step does to the coverage\<close>

lemma on_simps [simp]:
  "on (c\<lparr>waiting := b\<rparr>) sc ty x = on c sc ty x"
  by (simp add: on_def)

lemma pieces_covers:
  assumes "OVERLAP s e (lstart cl) (lend cl)" "s \<le> e" "lstart cl \<le> lend cl" "ty \<noteq> ltype cl"
  shows "covers (pieces cl ty s e) sc t x \<longleftrightarrow> scoid cl = sc \<and> (if s \<le> x \<and> x \<le> e then t = ty else on cl sc t x)"
  using assms by (auto simp: pieces_def on_def overlap_defs)

lemma pieces_forward: "OVERLAP s e (lstart cl) (lend cl) \<Longrightarrow> s \<le> e \<Longrightarrow> lstart cl \<le> lend cl \<Longrightarrow> ranges_ok (pieces cl ty s e)"
  by (auto simp: pieces_def overlap_defs)

lemma pieces_waiters: "waiters (pieces cl ty s e) = waiting cl"
  by (simp add: pieces_def)

lemma merged_on:
  assumes "OVERLAP s e (lstart cl) (lend cl)" "s \<le> e" "lstart cl \<le> lend cl"
  shows "on (cl\<lparr>lend := max (lend cl) e, lstart := min (lstart cl) s\<rparr>) sc t x
    \<longleftrightarrow> on cl sc t x \<or> (scoid cl = sc \<and> ltype cl = t \<and> s \<le> x \<and> x \<le> e)"
  using assms by (auto simp: on_def overlap_defs)

lemma core_grows:
  assumes "core_shape sc ty s e xs xs1 ds r" "s \<le> e" "ranges_ok xs" "covers xs1 sc' t x"
  shows "covers xs sc' t x \<or> (sc' = sc \<and> t = ty \<and> s \<le> x \<and> x \<le> e)"
  using assms
proof cases
  case (torn cl cs us vs)
  then show ?thesis using assms(4) by auto
next
  case (merged cl us vs)
  then show ?thesis using assms(2-4) merged_on[of s e cl] by auto
next
  case (split cl us vs)
  then show ?thesis using assms(2-4) pieces_covers[of s e "cl\<lparr>waiting := []\<rparr>" ty] by (auto split: if_splits)
qed auto

lemma core_forward:
  assumes "core_shape sc ty s e xs xs1 ds r" "s \<le> e" "ranges_ok xs"
  shows "ranges_ok xs1"
  using assms
proof cases
  case (split cl us vs)
  then show ?thesis using assms(2,3) pieces_forward[of s e "cl\<lparr>waiting := []\<rparr>" ty] by auto
qed auto

lemma core_waiters:
  assumes "core_shape sc ty s e xs xs1 ds r"
  shows "mset (waiters xs1) + mset ds \<subseteq># mset (waiters xs)" "r = EOK \<Longrightarrow> mset (waiters xs1) + mset ds = mset (waiters xs)"
  using assms by (cases; auto simp: pieces_waiters)+

lemma core_keeps:
  assumes "core_shape sc ty s e xs xs1 ds EOK" "s \<le> e" "ranges_ok xs" "covers xs sc' t x" "sc' \<noteq> sc \<or> \<not> (s \<le> x \<and> x \<le> e)"
  shows "covers xs1 sc' t x"
  using assms(1)
proof cases
  case (merged cl us vs)
  then show ?thesis using assms(2-5) merged_on[of s e cl] by auto
next
  case (split cl us vs)
  then show ?thesis using assms(2-5) pieces_covers[of s e "cl\<lparr>waiting := []\<rparr>" ty] by (auto simp: on_def)
qed (use assms(4) in auto)

lemma core_sent:
  assumes "lock_core w xs sc ty s e = (w1, xs1, ds, r)"
  shows "sent w1 = sent w"
proof -
  have "lock_add_null w sc ty s e = (w', l) \<Longrightarrow> sent w' = sent w" for w' l
    by (auto simp: lock_add_null_def Let_def split: prod.splits dest: malloc_cases)
  moreover have a: "lock_add v ys i sc ty s e = (w', ys', ok) \<Longrightarrow> sent w' = sent v" for v ys i sc ty s e w' ys' ok
    by (auto simp: lock_add_def Let_def split: prod.splits if_splits dest: malloc_cases)
  moreover have "split_lock w ys i ty s e = (w', ys', ok) \<Longrightarrow> sent w' = sent w" for ys i w' ys' ok
    unfolding split_lock_def Let_def by (auto split: prod.splits if_splits dest!: a)
  ultimately show ?thesis using assms unfolding lock_core_def Let_def
    by (fastforce split: prod.splits option.splits if_splits)
qed

end
