(* ===== verification/Flock_Inv.thy ===== *)
theory Flock_Inv
  imports Flock_Step
begin

text \<open>
  The recursion of locking through the waiting requests: that it ends, a contract for invariants of
  it, and two of them, exclusion and the conservation of clients.
\<close>

section \<open>The recursion ends\<close>

lemma waiters_attach:
  "i < length xs \<Longrightarrow> mset (waiters (xs[i := (xs ! i)\<lparr>waiting := waiting (xs ! i) @ [b]\<rparr>])) = add_mset b (mset (waiters xs))"
proof -
  assume i: "i < length xs"
  then have "xs = take i xs @ xs ! i # drop (Suc i) xs" by (simp add: id_take_nth_drop)
  then have "waiters xs = waiters (take i xs @ xs ! i # drop (Suc i) xs)" by simp
  moreover have "xs[i := (xs ! i)\<lparr>waiting := waiting (xs ! i) @ [b]\<rparr>] = take i xs @ (xs ! i)\<lparr>waiting := waiting (xs ! i) @ [b]\<rparr> # drop (Suc i) xs"
    using i by (simp add: upd_conv_take_nth_drop)
  ultimately show ?thesis by simp
qed

lemma find_bound: "lock_find xs sc ty s e = Some i \<Longrightarrow> i < length xs"
  by (induction xs arbitrary: i) (auto split: if_splits)

lemma reblock_total:
  assumes "\<And>w xs sc ty s e. length (waiters xs) < n \<Longrightarrow>
      \<exists>w' xs' r. lk w xs sc ty s e = Some (w', xs', r) \<and> length (waiters xs') \<le> length (waiters xs)"
    and "length (waiters xs) + length bs \<le> n"
  shows "\<exists>w' xs'. reblock_pending_locks lk mi w xs bs = Some (w', xs') \<and> length (waiters xs') \<le> length (waiters xs) + length bs"
  using assms(2)
proof (induction bs arbitrary: w xs)
  case (Cons b bs)
  show ?case
  proof (cases "pflock b")
    case None
    then show ?thesis using Cons.IH[of xs "answer_with (MsgError (rcvid b) EINVAL) w"] Cons.prems by auto
  next
    case (Some f)
    show ?thesis
    proof (cases "lock_find xs (l_sysid f) (l_type f) (bstart b) (bend b)")
      case None
      obtain w1 xs1 r where l: "lk w xs (l_sysid f) (l_type f) (bstart b) (bend b) = Some (w1, xs1, r)" "length (waiters xs1) \<le> length (waiters xs)"
        using assms(1)[of xs w "l_sysid f" "l_type f" "bstart b" "bend b"] Cons.prems by auto
      then have "length (waiters xs1) + length bs \<le> n" using Cons.prems by simp
      from Cons.IH[OF this] show ?thesis using l Some None by (fastforce simp: Let_def)
    next
      case (Some i)
      let ?ys = "xs[i := (xs ! i)\<lparr>waiting := waiting (xs ! i) @ [b]\<rparr>]"
      have "length (waiters ?ys) = Suc (length (waiters xs))"
        using arg_cong[OF waiters_attach[OF find_bound[OF Some], of b], of size] by simp
      then show ?thesis using Cons.IH[of ?ys w] Cons.prems \<open>pflock b = Some f\<close> Some by auto
    qed
  qed
qed simp

lemma lock_depth_total:
  "length (waiters xs) < n \<Longrightarrow>
    \<exists>w' xs' r. lock_depth mi n w xs sc ty s e = Some (w', xs', r) \<and> length (waiters xs') \<le> length (waiters xs)"
proof (induction n arbitrary: w xs sc ty s e)
  case (Suc n)
  obtain w1 xs1 ds r where c: "lock_core w xs sc ty s e = (w1, xs1, ds, r)" by (cases "lock_core w xs sc ty s e")
  have "length (waiters xs1) + length ds \<le> length (waiters xs)"
    using size_mset_mono[OF core_waiters(1)[OF lock_core_shape[OF c]]] by simp
  moreover from this have "\<exists>w' xs'. reblock_pending_locks (lock_depth mi n) mi w1 xs1 ds = Some (w', xs') \<and> length (waiters xs') \<le> length (waiters xs1) + length ds"
    by (intro reblock_total[where n = n]) (use Suc in auto)
  ultimately show ?case using c by (auto simp: lock_step_core)
qed simp

section \<open>Invariants of the recursion\<close>

text \<open>
  An invariant of the four things that happen to waiting requests, with the requests that were
  taken from the list (\<open>ps\<close>) and those granted but not yet answered (\<open>gs\<close>), holds after every
  locking and unlocking, however deep the recursion goes.
\<close>

locale lock_invariant =
  fixes mi :: "int \<Rightarrow> int option" and I :: "world \<Rightarrow> lock list \<Rightarrow> blocked list \<Rightarrow> blocked list \<Rightarrow> bool"
  assumes bad: "I w xs (b # ps) gs \<Longrightarrow> pflock b = None \<Longrightarrow> I (answer_with (MsgError (rcvid b) EINVAL) w) xs ps gs"
    and wait: "I w xs (b # ps) gs \<Longrightarrow> pflock b = Some f \<Longrightarrow> lock_find xs (l_sysid f) (l_type f) (bstart b) (bend b) = Some i
      \<Longrightarrow> I w (xs[i := (xs ! i)\<lparr>waiting := waiting (xs ! i) @ [b]\<rparr>]) ps gs"
    and grant: "I w xs (b # ps) gs \<Longrightarrow> pflock b = Some f \<Longrightarrow> lock_find xs (l_sysid f) (l_type f) (bstart b) (bend b) = None
      \<Longrightarrow> lock_core w xs (l_sysid f) (l_type f) (bstart b) (bend b) = (w1, xs1, ds, r) \<Longrightarrow> I w1 xs1 (ds @ ps) (b # gs)"
    and told: "I w xs ps (b # gs) \<Longrightarrow> pflock b = Some f
      \<Longrightarrow> I (if r \<noteq> EOK then answer_with (MsgError (rcvid b) r) w else lock_unblock mi w b) xs ps gs"
begin

lemma reblock_keeps:
  assumes lk: "\<And>w xs sc ty s e w1 xs1 r ps gs w0 xs0 ds. lk w xs sc ty s e = Some (w1, xs1, r) \<Longrightarrow> lock_core w xs sc ty s e = (w0, xs0, ds, r)
      \<Longrightarrow> I w0 xs0 (ds @ ps) gs \<Longrightarrow> I w1 xs1 ps gs"
    and core: "\<And>w xs sc ty s e w1 xs1 r. lk w xs sc ty s e = Some (w1, xs1, r) \<Longrightarrow> \<exists>w0 xs0 ds. lock_core w xs sc ty s e = (w0, xs0, ds, r)"
    and "reblock_pending_locks lk mi w xs bs = Some (w', xs')" "I w xs (bs @ ps) gs"
  shows "I w' xs' ps gs"
  using assms(3,4)
proof (induction bs arbitrary: w xs)
  case (Cons b bs)
  show ?case
  proof (cases "pflock b")
    case None
    then show ?thesis using Cons.IH Cons.prems bad by auto
  next
    case (Some f)
    show ?thesis
    proof (cases "lock_find xs (l_sysid f) (l_type f) (bstart b) (bend b)")
      case (Some i)
      then show ?thesis using Cons.IH[OF _ wait] Cons.prems \<open>pflock b = Some f\<close> by auto
    next
      case None
      then obtain w1 xs1 r where l: "lk w xs (l_sysid f) (l_type f) (bstart b) (bend b) = Some (w1, xs1, r)"
        and rest: "reblock_pending_locks lk mi (if r \<noteq> EOK then answer_with (MsgError (rcvid b) r) w1 else lock_unblock mi w1 b) xs1 bs = Some (w', xs')"
        using Cons.prems(1) Some by (auto simp: Let_def bind_eq_Some_conv)
      obtain w0 xs0 ds where c: "lock_core w xs (l_sysid f) (l_type f) (bstart b) (bend b) = (w0, xs0, ds, r)" using core[OF l] by blast
      have "I w0 xs0 (ds @ bs @ ps) (b # gs)" using grant[OF _ Some None c] Cons.prems(2) by simp
      from lk[OF l c this] have "I (if r \<noteq> EOK then answer_with (MsgError (rcvid b) r) w1 else lock_unblock mi w1 b) xs1 (bs @ ps) gs"
        by (rule told[OF _ Some])
      then show ?thesis by (rule Cons.IH[OF rest])
    qed
  qed
qed simp

lemma lock_depth_keeps:
  "lock_depth mi n w xs sc ty s e = Some (w1, xs1, r) \<Longrightarrow> lock_core w xs sc ty s e = (w0, xs0, ds, r') \<Longrightarrow> I w0 xs0 (ds @ ps) gs \<Longrightarrow> I w1 xs1 ps gs"
proof (induction n arbitrary: w xs sc ty s e w1 xs1 r w0 xs0 ds r' ps gs)
  case (Suc n)
  have r: "reblock_pending_locks (lock_depth mi n) mi w0 xs0 ds = Some (w1, xs1)"
    using Suc.prems(1,2) by (auto simp: lock_step_core bind_eq_Some_conv)
  show ?case
  proof (rule reblock_keeps[OF _ _ r Suc.prems(3)])
    show "lock_depth mi n w xs sc ty s e = Some (w1, xs1, r) \<Longrightarrow> lock_core w xs sc ty s e = (w0, xs0, ds, r) \<Longrightarrow> I w0 xs0 (ds @ ps) gs \<Longrightarrow> I w1 xs1 ps gs"
      for w xs sc ty s e w1 xs1 r w0 xs0 ds ps gs by (rule Suc.IH)
    show "lock_depth mi n w xs sc ty s e = Some (w1, xs1, r) \<Longrightarrow> \<exists>w0 xs0 ds. lock_core w xs sc ty s e = (w0, xs0, ds, r)" for w xs sc ty s e w1 xs1 r
      by (cases n; cases "lock_core w xs sc ty s e") (auto simp: lock_step_core bind_eq_Some_conv)
  qed
qed simp

lemma lock_scoid_keeps:
  "lock_scoid mi w xs sc ty s e = Some (w1, xs1, r) \<Longrightarrow> lock_core w xs sc ty s e = (w0, xs0, ds, r') \<Longrightarrow> I w0 xs0 (ds @ ps) gs \<Longrightarrow> I w1 xs1 ps gs"
  unfolding lock_scoid_def by (rule lock_depth_keeps)

lemma reblock_scoid_keeps:
  assumes "reblock_pending_locks (lock_scoid mi) mi w xs bs = Some (w', xs')" "I w xs (bs @ ps) gs"
  shows "I w' xs' ps gs"
proof (rule reblock_keeps[OF _ _ assms])
  show "lock_scoid mi w xs sc ty s e = Some (w1, xs1, r) \<Longrightarrow> lock_core w xs sc ty s e = (w0, xs0, ds, r) \<Longrightarrow> I w0 xs0 (ds @ ps) gs \<Longrightarrow> I w1 xs1 ps gs"
    for w xs sc ty s e w1 xs1 r w0 xs0 ds ps gs by (rule lock_scoid_keeps)
  show "lock_scoid mi w xs sc ty s e = Some (w1, xs1, r) \<Longrightarrow> \<exists>w0 xs0 ds. lock_core w xs sc ty s e = (w0, xs0, ds, r)" for w xs sc ty s e w1 xs1 r
    by (cases "lock_core w xs sc ty s e") (auto simp: lock_scoid_def lock_step_core bind_eq_Some_conv)
qed

end

section \<open>Exclusion\<close>

definition exclusive :: "lock list \<Rightarrow> bool" where
  "exclusive xs \<longleftrightarrow> (\<forall>x sc1 sc2 t1 t2. covers xs sc1 t1 x \<longrightarrow> covers xs sc2 t2 x \<longrightarrow> sc1 \<noteq> sc2 \<longrightarrow> t1 = F_RDLCK \<and> t2 = F_RDLCK)"

definition sound_request :: "blocked \<Rightarrow> bool" where
  "sound_request b \<longleftrightarrow> bstart b \<le> bend b \<and> (\<forall>f. pflock b = Some f \<longrightarrow> l_type f \<noteq> F_UNLCK)"

lemma lock_find_none:
  assumes "lock_find xs sc ty s e = None" "ty \<noteq> F_UNLCK" "covers xs sc' t x" "sc' \<noteq> sc" "s \<le> x" "x \<le> e"
  shows "t = F_RDLCK \<and> ty = F_RDLCK"
  using assms
proof (induction xs)
  case (Cons c xs)
  then show ?case by (auto simp: on_def overlap_defs split: if_splits)
qed simp

text \<open>Whatever grows by a range that nothing stands in the way of stays exclusive.\<close>

lemma exclusive_grow:
  assumes ex: "exclusive xs" and fr: "lock_find xs sc ty s e = None" "ty \<noteq> F_UNLCK"
    and gr: "\<And>sc' t x. covers ys sc' t x \<Longrightarrow> covers xs sc' t x \<or> (sc' = sc \<and> t = ty \<and> s \<le> x \<and> x \<le> e)"
  shows "exclusive ys"
  unfolding exclusive_def
proof (intro allI impI)
  fix x sc1 sc2 t1 t2
  assume a: "covers ys sc1 t1 x" "covers ys sc2 t2 x" "sc1 \<noteq> sc2"
  show "t1 = F_RDLCK \<and> t2 = F_RDLCK"
    using gr[OF a(1)] gr[OF a(2)] a(3) ex lock_find_none[OF fr] unfolding exclusive_def by metis
qed

lemma exclusive_mono: "exclusive xs \<Longrightarrow> (\<And>sc t x. covers ys sc t x \<Longrightarrow> covers xs sc t x) \<Longrightarrow> exclusive ys"
  unfolding exclusive_def by blast

definition lock_state_ok :: "lock list \<Rightarrow> bool" where
  "lock_state_ok xs \<longleftrightarrow> exclusive xs \<and> ranges_ok xs \<and> (\<forall>b \<in> set (waiters xs). sound_request b)"

definition excl_inv :: "world \<Rightarrow> lock list \<Rightarrow> blocked list \<Rightarrow> blocked list \<Rightarrow> bool" where
  "excl_inv w xs ps gs \<longleftrightarrow> lock_state_ok xs \<and> (\<forall>b \<in> set ps. sound_request b)"

lemma core_state_ok:
  assumes ok: "lock_state_ok xs" and fr: "lock_find xs sc ty s e = None" "ty \<noteq> F_UNLCK" "s \<le> e"
    and c: "lock_core w xs sc ty s e = (w1, xs1, ds, r)"
  shows "lock_state_ok xs1 \<and> (\<forall>b \<in> set ds. sound_request b)"
proof -
  note sh = lock_core_shape[OF c]
  have f: "ranges_ok xs" using ok by (simp add: lock_state_ok_def)
  have "exclusive xs1" by (rule exclusive_grow[OF _ fr(1,2)]) (use ok core_grows[OF sh fr(3) f] in \<open>auto simp: lock_state_ok_def\<close>)
  moreover have "set (waiters xs1) \<subseteq> set (waiters xs)" "set ds \<subseteq> set (waiters xs)"
    using set_mset_mono[OF core_waiters(1)[OF sh]] by auto
  ultimately show ?thesis using ok core_forward[OF sh fr(3) f] by (auto simp: lock_state_ok_def)
qed

lemma attach_covers: "i < length xs \<Longrightarrow> covers (xs[i := (xs ! i)\<lparr>waiting := bs\<rparr>]) sc t x = covers xs sc t x"
proof -
  assume i: "i < length xs"
  then have "xs = take i xs @ xs ! i # drop (Suc i) xs" by (simp add: id_take_nth_drop)
  then have "covers xs sc t x = covers (take i xs @ xs ! i # drop (Suc i) xs) sc t x" by simp
  then show ?thesis using i by (simp add: upd_conv_take_nth_drop)
qed

lemma attach_state_ok:
  assumes "lock_state_ok xs" "i < length xs" "sound_request b"
  shows "lock_state_ok (xs[i := (xs ! i)\<lparr>waiting := waiting (xs ! i) @ [b]\<rparr>])"
proof -
  have "set (waiters (xs[i := (xs ! i)\<lparr>waiting := waiting (xs ! i) @ [b]\<rparr>])) = insert b (set (waiters xs))"
    using arg_cong[OF waiters_attach[OF assms(2), of b], of set_mset] by simp
  moreover have "ranges_ok (xs[i := (xs ! i)\<lparr>waiting := waiting (xs ! i) @ [b]\<rparr>])"
    using assms(1,2) by (auto simp: ranges_ok_def lock_state_ok_def dest!: set_update_subset_insert[THEN subsetD])
  moreover have "exclusive (xs[i := (xs ! i)\<lparr>waiting := waiting (xs ! i) @ [b]\<rparr>])"
    using assms(1) by (simp add: exclusive_def attach_covers[OF assms(2)] lock_state_ok_def)
  ultimately show ?thesis using assms(1,3) by (auto simp: lock_state_ok_def)
qed

interpretation excl: lock_invariant mi excl_inv for mi
proof unfold_locales
  show "excl_inv w xs (b # ps) gs \<Longrightarrow> pflock b = Some f \<Longrightarrow> lock_find xs (l_sysid f) (l_type f) (bstart b) (bend b) = Some i
      \<Longrightarrow> excl_inv w (xs[i := (xs ! i)\<lparr>waiting := waiting (xs ! i) @ [b]\<rparr>]) ps gs" for w xs b ps gs f i
    using attach_state_ok find_bound by (simp add: excl_inv_def)
  show "excl_inv w xs (b # ps) gs \<Longrightarrow> pflock b = Some f \<Longrightarrow> lock_find xs (l_sysid f) (l_type f) (bstart b) (bend b) = None
      \<Longrightarrow> lock_core w xs (l_sysid f) (l_type f) (bstart b) (bend b) = (w1, xs1, ds, r) \<Longrightarrow> excl_inv w1 xs1 (ds @ ps) (b # gs)"
    for w xs b ps gs f w1 xs1 ds r
    using core_state_ok[of xs "l_sysid f" "l_type f" "bstart b" "bend b" w w1 xs1 ds r] by (auto simp: excl_inv_def sound_request_def)
qed (auto simp: excl_inv_def)

section \<open>Nobody is forgotten\<close>

fun told_to :: "answer \<Rightarrow> int" where
  "told_to (MsgError r err) = r"
| "told_to (MsgReplyv r f) = r"

definition plenty :: "nat \<Rightarrow> world \<Rightarrow> bool" where
  "plenty k w \<longleftrightarrow> k \<le> length (mem w) \<and> (\<forall>b \<in> set (mem w). b)"

definition alive :: "(int \<Rightarrow> int option) \<Rightarrow> blocked \<Rightarrow> bool" where
  "alive mi b \<longleftrightarrow> (\<forall>f. pflock b = Some f \<longrightarrow> mi (rcvid b) = Some (l_sysid f))"

definition clients :: "world \<Rightarrow> lock list \<Rightarrow> int multiset" where
  "clients w xs = mset (map rcvid (waiters xs)) + mset (map told_to (sent w))"

definition conserved :: "(int \<Rightarrow> int option) \<Rightarrow> int multiset \<Rightarrow> world \<Rightarrow> lock list \<Rightarrow> blocked list \<Rightarrow> blocked list \<Rightarrow> bool" where
  "conserved mi M w xs ps gs \<longleftrightarrow> clients w xs + mset (map rcvid ps) + mset (map rcvid gs) = M
     \<and> plenty (2 * (length (waiters xs) + length ps)) w \<and> (\<forall>b \<in> set (waiters xs) \<union> set ps \<union> set gs. alive mi b)"

lemma malloc_plenty: "plenty (Suc k) w \<Longrightarrow> \<exists>w1. take_mem w = (w1, True) \<and> plenty k w1 \<and> sent w1 = sent w"
  by (cases "mem w") (auto simp: take_mem_def plenty_def)

lemma plenty_mono: "plenty k w \<Longrightarrow> j \<le> k \<Longrightarrow> plenty j w"
  by (auto simp: plenty_def)

lemma lock_add_plenty:
  "plenty (Suc k) w \<Longrightarrow> \<exists>w1 xs1. lock_add w xs i sc ty s e = (w1, xs1, True) \<and> plenty k w1"
  using malloc_plenty[of k w] by (auto simp: lock_add_def)

lemma split_lock_plenty:
  assumes "plenty (Suc (Suc k)) w"
  shows "\<exists>w1 xs1. split_lock w xs i ty s e = (w1, xs1, True) \<and> plenty k w1"
proof -
  note two = lock_add_plenty[OF assms]
  have one: "\<exists>w1 xs1. lock_add w xs i sc ty s e = (w1, xs1, True) \<and> plenty k w1" for xs i sc ty s e
    using two[of xs i sc ty s e] plenty_mono by fastforce
  obtain w1 xs1 where a: "lock_add w xs i (scoid (xs ! i)) ty s e = (w1, xs1, True)" "plenty (Suc k) w1" using two by blast
  obtain w2 xs2 where b: "lock_add w1 xs1 (Suc i) (scoid (xs ! i)) (ltype (xs ! i)) (e + 1) (lend (xs ! i)) = (w2, xs2, True)" "plenty k w2"
    using lock_add_plenty[OF a(2)] by blast
  obtain w3 xs3 where c: "lock_add w xs i (scoid (xs ! i)) (ltype (xs ! i)) (e + 1) (lend (xs ! i)) = (w3, xs3, True)" "plenty k w3" using one by blast
  have k: "plenty k w" "plenty k w1" using plenty_mono[OF assms, of k] plenty_mono[OF a(2), of k] by auto
  show ?thesis unfolding split_lock_def Let_def using a(1) b c k by auto
qed

lemma core_plenty:
  assumes "plenty (Suc (Suc k)) w" "lock_core w xs sc ty s e = (w1, xs1, ds, r)"
  shows "r = EOK \<and> plenty k w1"
proof -
  obtain w0 where m: "take_mem w = (w0, True)" "plenty (Suc k) w0" using malloc_plenty[OF assms(1)] by blast
  have n: "lock_add_null w sc ty s e = (w0, Some (new_lock sc ty s e))" using m(1) by (simp add: lock_add_null_def)
  have k: "plenty k w" "plenty k w0" using plenty_mono[OF assms(1), of k] plenty_mono[OF m(2), of k] by auto
  have a: "lock_add w ys i sc ty s e = (w', ys', ok) \<Longrightarrow> ok \<and> plenty k w'" for ys i w' ys' ok
    using lock_add_plenty[OF assms(1), of ys i sc ty s e] plenty_mono[of "Suc k" _ k] by auto
  have p: "split_lock w ys i ty s e = (w', ys', ok) \<Longrightarrow> ok \<and> plenty k w'" for ys i w' ys' ok
    using split_lock_plenty[OF assms(1), of ys i ty s e] by auto
  show ?thesis using assms(2) n k unfolding lock_core_def Let_def
    by (auto split: prod.splits option.splits if_splits dest!: a p)
qed

lemma told_clients:
  "alive mi b \<Longrightarrow> pflock b = Some f \<Longrightarrow>
    clients (if r \<noteq> EOK then answer_with (MsgError (rcvid b) r) w else lock_unblock mi w b) xs = add_mset (rcvid b) (clients w xs)"
  by (auto simp: clients_def answer_with_def lock_unblock_def alive_def)

lemma told_mem: "mem (if r \<noteq> EOK then answer_with a w else lock_unblock mi w b) = mem w" "mem (answer_with a w) = mem w"
  by (auto simp: answer_with_def lock_unblock_def split: option.splits)

interpretation cons: lock_invariant mi "conserved mi M" for mi M
proof unfold_locales
  fix w xs b ps gs
  show "conserved mi M w xs (b # ps) gs \<Longrightarrow> pflock b = None \<Longrightarrow> conserved mi M (answer_with (MsgError (rcvid b) EINVAL) w) xs ps gs"
    by (auto simp: conserved_def clients_def plenty_def answer_with_def)
  show "conserved mi M w xs (b # ps) gs \<Longrightarrow> pflock b = Some f \<Longrightarrow> lock_find xs (l_sysid f) (l_type f) (bstart b) (bend b) = Some i
      \<Longrightarrow> conserved mi M w (xs[i := (xs ! i)\<lparr>waiting := waiting (xs ! i) @ [b]\<rparr>]) ps gs" for f i
  proof -
    assume a: "conserved mi M w xs (b # ps) gs" "lock_find xs (l_sysid f) (l_type f) (bstart b) (bend b) = Some i"
    let ?ys = "xs[i := (xs ! i)\<lparr>waiting := waiting (xs ! i) @ [b]\<rparr>]"
    have m: "mset (waiters ?ys) = add_mset b (mset (waiters xs))" by (rule waiters_attach[OF find_bound[OF a(2)]])
    have "set (waiters ?ys) = insert b (set (waiters xs))" "length (waiters ?ys) = Suc (length (waiters xs))"
      using arg_cong[OF m, of set_mset] arg_cong[OF m, of size] by auto
    then show ?thesis using a(1) m by (auto simp: conserved_def clients_def)
  qed
  show "conserved mi M w xs (b # ps) gs \<Longrightarrow> pflock b = Some f \<Longrightarrow> lock_find xs (l_sysid f) (l_type f) (bstart b) (bend b) = None
      \<Longrightarrow> lock_core w xs (l_sysid f) (l_type f) (bstart b) (bend b) = (w1, xs1, ds, r) \<Longrightarrow> conserved mi M w1 xs1 (ds @ ps) (b # gs)"
    for f w1 xs1 ds r
  proof -
    assume a: "conserved mi M w xs (b # ps) gs" "lock_core w xs (l_sysid f) (l_type f) (bstart b) (bend b) = (w1, xs1, ds, r)"
    have "plenty (Suc (Suc (2 * (length (waiters xs) + length ps)))) w" using a(1) by (simp add: conserved_def)
    from core_plenty[OF this a(2)] have p: "r = EOK" "plenty (2 * (length (waiters xs) + length ps)) w1" by auto
    have m: "mset (waiters xs1) + mset ds = mset (waiters xs)" by (rule core_waiters(2)[OF lock_core_shape[OF a(2)] p(1)])
    have len: "length (waiters xs) = length (waiters xs1) + length ds" using arg_cong[OF m, of size] by simp
    have "plenty (2 * (length (waiters xs1) + length (ds @ ps))) w1" using p(2) unfolding len by (simp add: add.assoc)
    moreover have "set (waiters xs1) \<union> set ds = set (waiters xs)" using arg_cong[OF m, of set_mset] by auto
    moreover have "mset (map rcvid (waiters xs1)) + mset (map rcvid ds) = mset (map rcvid (waiters xs))"
      using arg_cong[OF m, of "image_mset rcvid"] by simp
    ultimately show ?thesis using a(1) core_sent[OF a(2)] by (auto simp: conserved_def clients_def ac_simps)
  qed
  show "conserved mi M w xs ps (b # gs) \<Longrightarrow> pflock b = Some f
      \<Longrightarrow> conserved mi M (if r \<noteq> EOK then answer_with (MsgError (rcvid b) r) w else lock_unblock mi w b) xs ps gs" for f r
    using told_clients[of mi b f r w xs] by (auto simp: conserved_def plenty_def told_mem ac_simps)
qed

end
