(* ===== verification/Flock_Proofs.thy ===== *)
theory Flock_Proofs
  imports Flock_Inv
begin

text \<open>
  Unlocking, the exact effect of a lock, and clients that give up.
\<close>

section \<open>Unlocking\<close>

text \<open>What a lock of the owner leaves of itself outside the unlocked range.\<close>

definition remains :: "lock \<Rightarrow> int \<Rightarrow> int \<Rightarrow> lock list" where
  "remains cl s e =
     (if s \<le> lstart cl \<and> lend cl \<le> e then []
      else if lstart cl < s \<and> e < lend cl then [cl\<lparr>lend := s - 1\<rparr>, new_lock (scoid cl) (ltype cl) (e + 1) (lend cl)]
      else if s \<le> lstart cl \<and> e < lend cl then [cl\<lparr>lstart := e + 1\<rparr>] else [cl\<lparr>lend := s - 1\<rparr>])"

lemma remains_covers:
  "OVERLAP s e (lstart cl) (lend cl) \<Longrightarrow> s \<le> e \<Longrightarrow> lstart cl \<le> lend cl
    \<Longrightarrow> covers (remains cl s e) sc t x \<longleftrightarrow> on cl sc t x \<and> \<not> (s \<le> x \<and> x \<le> e)"
  by (auto simp: remains_def on_def overlap_defs)

lemma remains_facts:
  "OVERLAP s e (lstart cl) (lend cl) \<Longrightarrow> s \<le> e \<Longrightarrow> lstart cl \<le> lend cl \<Longrightarrow> ranges_ok (remains cl s e)"
  "waiting cl = [] \<Longrightarrow> waiters (remains cl s e) = []"
  by (auto simp: remains_def overlap_defs)

lemma unlock_loop_own:
  assumes own: "scoid cl = sc" "OVERLAP s e (lstart cl) (lend cl)" and c0: "c0 = cl\<lparr>waiting := []\<rparr>"
  shows "\<exists>w1 ok. sent w1 = sent w \<and> (plenty (Suc k) w \<longrightarrow> ok \<and> plenty k w1) \<and>
    unlock_loop w (cl # cs) sc s e p =
      (if ok then let (w2, xs, q, ok2) = unlock_loop w1 cs sc s e (p @ waiting cl) in (w2, remains c0 s e @ xs, q, ok2)
       else (w1, c0 # cs, p @ waiting cl, False))"
proof -
  obtain w1 ok where m: "take_mem w = (w1, ok)" by fastforce
  have pm: "plenty (Suc k) w \<longrightarrow> ok \<and> plenty k w1" using malloc_plenty[of k w] m by auto
  have pw: "plenty (Suc k) w \<longrightarrow> plenty k w" using plenty_mono[of "Suc k" w k] by simp
  have free: "lock_free w c0 = w" by (simp add: lock_free_def c0)
  have add: "lock_add w [c0] 0 sc' t a b = (w1, if ok then [c0, new_lock sc' t a b] else [c0], ok)" for sc' t a b
    using m by (simp add: lock_add_def)
  show ?thesis
  proof (cases "lstart cl < s \<and> e < lend cl")
    case True
    then show ?thesis using own malloc_cases[OF m] pm c0 add
      by (intro exI[of _ w1] exI[of _ ok]) (auto simp: remains_def Let_def split: prod.splits)
  next
    case False
    then show ?thesis using own pw c0 free
      by (intro exI[of _ w] exI[of _ True]) (auto simp: remains_def Let_def split: prod.splits)
  qed
qed

lemma unlock_loop_ok:
  assumes "unlock_loop w xs sc s e p = (w', xs', q, ok)" "s \<le> e" "ranges_ok xs"
  shows "(\<forall>sc' t x. covers xs' sc' t x \<longrightarrow> covers xs sc' t x) \<and> ranges_ok xs' \<and> sent w' = sent w
    \<and> mset (waiters xs') + mset q = mset (waiters xs) + mset p
    \<and> (ok \<longrightarrow> (\<forall>sc' t x. covers xs' sc' t x \<longleftrightarrow> covers xs sc' t x \<and> (sc' \<noteq> sc \<or> \<not> (s \<le> x \<and> x \<le> e))))
    \<and> (plenty (k + length xs) w \<longrightarrow> ok \<and> plenty k w')"
  using assms
proof (induction xs arbitrary: w w' xs' p q ok)
  case (Cons cl cs)
  show ?case
  proof (cases "scoid cl = sc \<and> OVERLAP s e (lstart cl) (lend cl)")
    case False
    obtain w2 ys q2 ok2 where r: "unlock_loop w cs sc s e p = (w2, ys, q2, ok2)" by (metis prod.exhaust)
    have out: "(w', xs', q, ok) = (w2, cl # ys, q2, ok2)" using Cons.prems(1) False r by auto
    have "on cl sc' t x \<Longrightarrow> sc' = sc \<Longrightarrow> \<not> (s \<le> x \<and> x \<le> e)" for sc' t x using False by (auto simp: on_def overlap_defs)
    then show ?thesis using Cons.IH[OF r Cons.prems(2)] Cons.prems(3) out plenty_mono[of "Suc (k + length cs)" w "k + length cs"] by auto
  next
    case True
    define c0 where "c0 = cl\<lparr>waiting := []\<rparr>"
    obtain w1 ok1 where l: "sent w1 = sent w" "plenty (Suc (k + length cs)) w \<longrightarrow> ok1 \<and> plenty (k + length cs) w1"
      "unlock_loop w (cl # cs) sc s e p =
        (if ok1 then let (w2, xs, q, ok2) = unlock_loop w1 cs sc s e (p @ waiting cl) in (w2, remains c0 s e @ xs, q, ok2)
         else (w1, c0 # cs, p @ waiting cl, False))"
      using unlock_loop_own[of cl sc s e c0 w "k + length cs" cs p] True c0_def by blast
    have on0: "on c0 sc' t x = on cl sc' t x" for sc' t x by (simp add: c0_def)
    show ?thesis
    proof (cases ok1)
      case False
      then show ?thesis using l Cons.prems on0 by (auto simp: c0_def)
    next
      case ok: True
      obtain w2 ys q2 ok2 where r: "unlock_loop w1 cs sc s e (p @ waiting cl) = (w2, ys, q2, ok2)" by (metis prod.exhaust)
      have out: "(w', xs', q, ok) = (w2, remains c0 s e @ ys, q2, ok2)" using Cons.prems(1) l(3) ok r by (simp del: unlock_loop.simps)
      have rem: "covers (remains c0 s e) sc' t x \<longleftrightarrow> on cl sc' t x \<and> \<not> (s \<le> x \<and> x \<le> e)" "ranges_ok (remains c0 s e)" "waiters (remains c0 s e) = []" for sc' t x
        using remains_covers[of s e c0 sc' t x] remains_facts[where s = s and e = e and cl = c0] True Cons.prems(2,3) by (auto simp: c0_def)
      have "on cl sc' t x \<Longrightarrow> sc' = sc" for sc' t x using True by (simp add: on_def)
      then show ?thesis using Cons.IH[OF r Cons.prems(2)] Cons.prems(3) out l(1,2) rem by auto
    qed
  qed
qed (auto)

section \<open>The exact effect of a lock\<close>

definition own_overlaps :: "lock \<Rightarrow> int \<Rightarrow> int \<Rightarrow> int \<Rightarrow> bool" where
  "own_overlaps c sc s e \<longleftrightarrow> scoid c = sc \<and> OVERLAP s e (lstart c) (lend c)"

text \<open>
  At most one lock of the client overlaps the range, and every lock before it in the list starts no
  later than the range.
\<close>

definition one_own :: "lock list \<Rightarrow> int \<Rightarrow> int \<Rightarrow> int \<Rightarrow> bool" where
  "one_own xs sc s e \<longleftrightarrow> (\<forall>i < length xs. own_overlaps (xs ! i) sc s e \<longrightarrow>
     (\<forall>j < length xs. j \<noteq> i \<longrightarrow> \<not> own_overlaps (xs ! j) sc s e) \<and> (\<forall>j < i. lstart (xs ! j) \<le> s))"

definition shadowed :: "lock list \<Rightarrow> int \<Rightarrow> int \<Rightarrow> int \<Rightarrow> bool" where
  "shadowed xs sc s e \<longleftrightarrow> xs \<noteq> [] \<and> scoid (hd xs) \<noteq> sc \<and> s < lstart (hd xs) \<and> lstart (hd xs) \<le> e"

text \<open>The lock the scan of the list stops at: the first own lock, unless one before it starts behind the range's beginning.\<close>

definition reached :: "lock list \<Rightarrow> int \<Rightarrow> int \<Rightarrow> int \<Rightarrow> nat \<Rightarrow> bool" where
  "reached xs sc s e i \<longleftrightarrow> i < length xs \<and> own_overlaps (xs ! i) sc s e
     \<and> (\<forall>j < i. \<not> own_overlaps (xs ! j) sc s e \<and> lstart (xs ! j) \<le> s)"

lemma scan_finds:
  "\<forall>c \<in> set us. \<not> own_overlaps c sc s e \<and> lstart c \<le> s \<Longrightarrow> own_overlaps cl sc s e \<Longrightarrow> snd (lock_scan (us @ cl # vs) pl k sc s e) = Some (k + length us)"
  by (induction us arbitrary: pl k) (auto simp: own_overlaps_def)

lemma core_own:
  assumes us: "\<forall>c \<in> set us. \<not> own_overlaps c sc s e \<and> lstart c \<le> s" and cl: "own_overlaps cl sc s e" and se: "s \<le> e"
    and c: "lock_core w (us @ cl # vs) sc ty s e = (w1, xs1, ds, EOK)"
  shows "xs1 = (if ltype cl = ty then us @ cl\<lparr>lend := max (lend cl) e, lstart := min (lstart cl) s\<rparr> # vs
    else us @ pieces (cl\<lparr>waiting := []\<rparr>) ty s e @ vs)"
proof -
  obtain pl where sc: "lock_scan (us @ cl # vs) None 0 sc s e = (pl, Some (length us))"
    using scan_finds[OF us cl, of vs None 0] by (metis add_0 prod.collapse)
  have hd: "\<not> e < lstart (hd (us @ cl # vs))" using us cl se by (cases us) (auto simp: own_overlaps_def overlap_defs)
  obtain w2 xs2 ok where sp: "split_lock w (us @ cl\<lparr>waiting := []\<rparr> # vs) (length us) ty s e = (w2, xs2, ok)" by (metis prod.exhaust)
  show ?thesis using c sc hd cl split_lock_shape[OF sp] sp
    by (cases pl) (auto simp: lock_core_def Let_def own_overlaps_def split: prod.splits if_splits)
qed

lemma reached_unique: "reached xs sc s e i \<Longrightarrow> reached xs sc s e j \<Longrightarrow> j = i"
  unfolding reached_def by (metis linorder_neqE_nat)

lemma reached_Cons:
  "reached (c # cs) sc s e 0 = own_overlaps c sc s e"
  "reached (c # cs) sc s e (Suc i) \<longleftrightarrow> \<not> own_overlaps c sc s e \<and> lstart c \<le> s \<and> reached cs sc s e i"
  by (auto simp: reached_def less_Suc_eq_0_disj)

lemma scan_misses:
  "(\<And>i. \<not> reached xs sc s e i) \<Longrightarrow> lock_scan xs pl k sc s e = (pl', cl) \<Longrightarrow> cl = None \<or> cl = pl'"
proof (induction xs arbitrary: pl k)
  case (Cons c cs)
  then show ?case using Cons.prems(1)[of 0] Cons.prems(1)[of "Suc i" for i]
    by (auto simp: reached_Cons own_overlaps_def split: if_splits)
qed simp

lemma scan_before:
  "lock_scan xs pl k sc s e = (Some p, cl) \<Longrightarrow> pl = Some p \<or> (\<exists>j < length xs. p = k + j \<and> \<not> own_overlaps (xs ! j) sc s e)"
proof (induction xs arbitrary: pl k)
  case (Cons c cs)
  show ?case
  proof (cases "own_overlaps c sc s e \<or> s < lstart c")
    case True
    then show ?thesis using Cons.prems by (auto simp: own_overlaps_def split: if_splits)
  next
    case False
    then have "lock_scan cs (Some k) (Suc k) sc s e = (Some p, cl)" using Cons.prems by (auto simp: own_overlaps_def)
    from Cons.IH[OF this] False show ?thesis by (auto intro: exI[of _ 0] exI[of _ "Suc j" for j])
  qed
qed simp

lemma covers_nth: "covers xs sc t x \<longleftrightarrow> (\<exists>i < length xs. on (xs ! i) sc t x)"
  unfolding covers_def by (metis in_set_conv_nth)

lemma covers_but:
  "(\<exists>j < length (us @ cl # vs). on ((us @ cl # vs) ! j) sc t x \<and> \<not> (j = length us \<and> r))
    \<longleftrightarrow> covers us sc t x \<or> covers vs sc t x \<or> on cl sc t x \<and> \<not> r"
proof (induction us)
  case Nil
  then show ?case by (auto simp: Ex_less_Suc2 covers_nth[of vs])
qed (auto simp: Ex_less_Suc2)

lemma add_covers:
  "lock_add w xs p sc ty s e = (w1, xs1, True) \<Longrightarrow> covers xs1 sc' t x \<longleftrightarrow> covers (new_lock sc ty s e # xs) sc' t x"
  using covers_simps(3)[of "take (Suc p) xs" "drop (Suc p) xs" sc' t x]
  by (auto simp: lock_add_def Let_def split: prod.splits if_splits)

lemma core_misses:
  assumes c: "lock_core w xs sc ty s e = (w1, xs1, ds, EOK)" and m: "\<And>i. \<not> reached xs sc s e i" and ns: "\<not> shadowed xs sc s e"
  shows "covers xs1 sc' t x \<longleftrightarrow> covers (new_lock sc ty s e # xs) sc' t x"
proof (cases "xs = [] \<or> e < lstart (hd xs)")
  case True
  obtain w2 l where l: "lock_add_null w sc ty s e = (w2, l)" by fastforce
  then have "xs1 = new_lock sc ty s e # xs" using c True null_shape[OF l]
    by (cases "xs = []") (auto simp: lock_core_def)
  then show ?thesis by simp
next
  case False
  obtain pl cl where sc: "lock_scan xs None 0 sc s e = (pl, cl)" by fastforce
  have "pl \<noteq> None \<or> cl \<noteq> None" using scan_shape[OF sc] False ns by (auto simp: shadowed_def)
  then obtain p where p: "pl = Some p" "cl = None \<or> cl = Some p" using scan_misses[OF m sc] by auto
  have "\<not> own_overlaps (xs ! p) sc s e" using scan_before[of xs None 0 sc s e p cl] sc p(1) by auto
  moreover obtain w2 xs2 ok where a: "lock_add w xs p sc ty s e = (w2, xs2, ok)" by (metis prod.exhaust)
  ultimately have "ok \<and> xs1 = xs2" using c False sc p
    by (auto simp: lock_core_def Let_def own_overlaps_def split: prod.splits if_splits)
  then show ?thesis using add_covers[of w xs p sc ty s e w2 xs2] a by simp
qed

lemma core_effect:
  assumes c: "lock_core w xs sc ty s e = (w1, xs1, ds, EOK)" and se: "s \<le> e" and f: "ranges_ok xs" and ns: "\<not> shadowed xs sc s e"
  shows "covers xs1 sc' t x \<longleftrightarrow> sc' = sc \<and> t = ty \<and> s \<le> x \<and> x \<le> e
    \<or> (\<exists>i < length xs. on (xs ! i) sc' t x \<and> \<not> (reached xs sc s e i \<and> s \<le> x \<and> x \<le> e))"
proof (cases "\<exists>i. reached xs sc s e i")
  case True
  then obtain i where r: "reached xs sc s e i" by blast
  define us cl vs where d: "us = take i xs" "cl = xs ! i" "vs = drop (Suc i) xs"
  have xs: "xs = us @ cl # vs" and len: "length us = i" using r by (simp_all add: d reached_def id_take_nth_drop)
  have us: "\<forall>c \<in> set us. \<not> own_overlaps c sc s e \<and> lstart c \<le> s" and cl: "own_overlaps cl sc s e"
    using r by (auto simp: d reached_def in_set_conv_nth)
  have ov: "OVERLAP s e (lstart cl) (lend cl)" "scoid cl = sc" "lstart cl \<le> lend cl" using cl f xs by (auto simp: own_overlaps_def)
  have xs1: "xs1 = (if ltype cl = ty then us @ cl\<lparr>lend := max (lend cl) e, lstart := min (lstart cl) s\<rparr> # vs
    else us @ pieces (cl\<lparr>waiting := []\<rparr>) ty s e @ vs)" using core_own[OF us cl se] c xs by blast
  have only: "reached xs sc s e j \<longleftrightarrow> j = i" for j using reached_unique[OF r] r by blast
  have rest: "(\<exists>j < length xs. on (xs ! j) sc' t x \<and> \<not> (j = i \<and> s \<le> x \<and> x \<le> e))
      \<longleftrightarrow> covers us sc' t x \<or> covers vs sc' t x \<or> on cl sc' t x \<and> \<not> (s \<le> x \<and> x \<le> e)"
    using covers_but[of us cl vs sc' t x "s \<le> x \<and> x \<le> e"] unfolding xs[symmetric] len by simp
  show ?thesis unfolding only rest xs1 using ov merged_on[OF ov(1) se ov(3), of sc' t x] pieces_covers[of s e "cl\<lparr>waiting := []\<rparr>" ty sc' t x] se
    by (auto simp: on_def)
next
  case False
  then show ?thesis using core_misses[OF c _ ns, of sc' t x] by (auto simp: covers_nth[of xs])
qed

lemma core_shadowed:
  assumes "shadowed xs sc s e" "lock_core w xs sc ty s e = (w1, xs1, ds, r)"
  shows "xs1 = xs"
proof -
  obtain c cs where xs: "xs = c # cs" using assms(1) by (cases xs) (auto simp: shadowed_def)
  then show ?thesis
    using assms by (auto simp: lock_core_def lock_add_null_def shadowed_def overlap_defs split: prod.splits)
qed

lemma one_own_reached:
  assumes "one_own xs sc s e" "i < length xs" "on (xs ! i) sc t x" "s \<le> x" "x \<le> e"
  shows "reached xs sc s e i"
proof -
  have "own_overlaps (xs ! i) sc s e" using assms(3-5) by (auto simp: own_overlaps_def on_def overlap_defs)
  then show ?thesis using assms(1,2) unfolding one_own_def reached_def by (metis less_trans nat_neq_iff)
qed

lemma core_exact:
  assumes "lock_core w xs sc ty s e = (w1, xs1, ds, EOK)" "s \<le> e" "ranges_ok xs" "one_own xs sc s e" "\<not> shadowed xs sc s e"
  shows "covers xs1 sc' t x \<longleftrightarrow> (if sc' = sc \<and> s \<le> x \<and> x \<le> e then t = ty else covers xs sc' t x)"
proof (cases "sc' = sc \<and> s \<le> x \<and> x \<le> e")
  case True
  then show ?thesis using core_effect[OF assms(1-3,5), of sc' t x] one_own_reached[OF assms(4), of _ t x] by auto
next
  case False
  then have "\<not> (on (xs ! i) sc' t x \<and> reached xs sc s e i \<and> s \<le> x \<and> x \<le> e)" for i
    by (auto simp: reached_def own_overlaps_def on_def)
  then show ?thesis using core_effect[OF assms(1-3,5), of sc' t x] False unfolding covers_nth[of xs] by meson
qed

lemma lock_scoid_quiet:
  assumes "waiters xs = []" "lock_core w xs sc ty s e = (w1, xs1, ds, r)"
  shows "lock_scoid mi w xs sc ty s e = Some (w1, xs1, r)"
proof -
  have "ds = []" using core_waiters(1)[OF lock_core_shape[OF assms(2)]] assms(1) by simp
  then show ?thesis using assms by (simp add: lock_scoid_def lock_step_core)
qed

lemma lock_scoid_total: "\<exists>w' xs' r. lock_scoid mi w xs sc ty s e = Some (w', xs', r) \<and> length (waiters xs') \<le> length (waiters xs)"
  unfolding lock_scoid_def by (rule lock_depth_total) simp

lemma unlock_scoid_total: "\<exists>w' xs' r. unlock_scoid mi w xs sc s e = Some (w', xs', r)"
proof -
  obtain w1 xs1 q ok where u: "unlock_loop w xs sc s e [] = (w1, xs1, q, ok)" by (metis prod.exhaust)
  have "\<exists>w' xs'. reblock_pending_locks (lock_scoid mi) mi w1 xs1 q = Some (w', xs') \<and> length (waiters xs') \<le> length (waiters xs1) + length q"
    by (rule reblock_total[where n = "length (waiters xs1) + length q"]) (use lock_scoid_total in auto)
  then show ?thesis using u by (auto simp: unlock_scoid_def)
qed

lemma lock_scoid_ok:
  assumes "lock_state_ok xs" "lock_find xs sc ty s e = None" "ty \<noteq> F_UNLCK" "s \<le> e" "lock_scoid mi w xs sc ty s e = Some (w', xs', r)"
  shows "lock_state_ok xs'"
proof -
  obtain w0 xs0 ds r' where c: "lock_core w xs sc ty s e = (w0, xs0, ds, r')" by (metis prod.exhaust)
  have "excl_inv w0 xs0 (ds @ []) []" using core_state_ok[OF assms(1-4) c] by (simp add: excl_inv_def)
  from excl.lock_scoid_keeps[OF assms(5) c this] show ?thesis by (simp add: excl_inv_def)
qed

lemma unlock_scoid_ok:
  assumes ok: "lock_state_ok xs" "s \<le> e" and u: "unlock_scoid mi w xs sc s e = Some (w', xs', r)"
  shows "lock_state_ok xs'"
proof -
  obtain w1 xs1 q b where l: "unlock_loop w xs sc s e [] = (w1, xs1, q, b)" by (metis prod.exhaust)
  have f: "ranges_ok xs" using ok(1) by (simp add: lock_state_ok_def)
  note k = unlock_loop_ok[OF l ok(2) f, where k = 0]
  have m: "mset (waiters xs1) + mset q = mset (waiters xs)" using k by simp
  have "exclusive xs1" using exclusive_mono[of xs xs1] k ok(1) by (auto simp: lock_state_ok_def)
  moreover have "set (waiters xs1) \<union> set q = set (waiters xs)" using arg_cong[OF m, of set_mset] by simp
  ultimately have i: "excl_inv w1 xs1 (q @ []) []" using k ok(1) by (auto simp: excl_inv_def lock_state_ok_def)
  show ?thesis
  proof (cases b)
    case True
    then have "reblock_pending_locks (lock_scoid mi) mi w1 xs1 q = Some (w', xs')" using u l by (auto simp: unlock_scoid_def bind_eq_Some_conv)
    from excl.reblock_scoid_keeps[OF this i] show ?thesis by (simp add: excl_inv_def)
  next
    case False
    then show ?thesis using u l i by (auto simp: unlock_scoid_def excl_inv_def)
  qed
qed

section \<open>Giving up a wait\<close>

lemma drop_waiter_ok:
  "drop_waiter bs r u = Some bs' \<Longrightarrow> \<exists>b. mset bs = add_mset b (mset bs') \<and> rcvid b = r"
  by (induction bs arbitrary: bs') (auto split: if_splits)

lemma iofunc_unblock_ok:
  assumes "iofunc_unblock u w xs r = Some (w', xs')"
  shows "(\<forall>sc t x. covers xs' sc t x = covers xs sc t x) \<and> ranges_ok xs' = ranges_ok xs \<and> mset (waiters xs') \<subseteq># mset (waiters xs)
    \<and> clients w' xs' = clients w xs"
  using assms
proof (induction xs arbitrary: xs' w')
  case (Cons c cs)
  show ?case
  proof (cases "drop_waiter (waiting c) r u")
    case None
    then obtain ys where ys: "iofunc_unblock u w cs r = Some (w', ys)" "xs' = c # ys" using Cons.prems by auto
    then show ?thesis using Cons.IH[OF ys(1)] by (auto simp: clients_def)
  next
    case (Some bs)
    then show ?thesis using Cons.prems drop_waiter_ok[OF Some] by (auto simp: clients_def answer_with_def)
  qed
qed simp

end
