(* ===== verification/Flock_Props.thy ===== *)
theory Flock_Props
  imports Flock_Proofs
begin

text \<open>
  The handler of locking requests and the properties of record locks.
\<close>

section \<open>The handler\<close>

lemma glue_sign:
  "sint hi < 0 \<Longrightarrow> glue lo hi \<le> - 1" "\<not> sint hi < 0 \<Longrightarrow> \<not> (lo = 0 \<and> hi = 0) \<Longrightarrow> 1 \<le> glue lo hi"
proof -
  have lo: "0 \<le> uint lo" "uint lo < 2 ^ 32" using uint_bounded[of lo] by simp_all
  show "sint hi < 0 \<Longrightarrow> glue lo hi \<le> - 1" using lo by (simp add: glue_def)
  assume h: "\<not> sint hi < 0" "\<not> (lo = 0 \<and> hi = 0)"
  show "1 \<le> glue lo hi"
  proof (cases "hi = 0")
    case True
    then have "uint lo \<noteq> 0" using h(2) by (simp add: uint_0_iff)
    then have "1 \<le> uint lo" using lo(1) by linarith
    then show ?thesis using True by (simp add: glue_def)
  next
    case False
    then have "sint hi \<noteq> 0" by (metis signed_0 signed_word_eqI)
    then have "1 \<le> sint hi" using h(1) by linarith
    then show ?thesis using lo(1) by (simp add: glue_def add_increasing)
  qed
qed

lemma off64_some: "off64 x = Some y \<Longrightarrow> y = x \<and> x \<le> LONG_MAX"
  by (auto simp: off64_def LONG_MAX_def split: if_splits)

lemma lock_range_ok:
  assumes "lock_range f oc a = Some (Inr (s, e))"
  shows "0 \<le> s \<and> s \<le> e \<and> e \<le> LONG_MAX"
proof -
  obtain start s' e' where st: "start \<le> LONG_MAX"
    and se: "(if l_len f = 0 \<and> l_len_hi f = 0 then Some (start, LONG_MAX)
         else if sint (l_len_hi f) < 0
         then do { e \<leftarrow> off64 (start - 1); s \<leftarrow> off64 (start + glue (l_len f) (l_len_hi f)); Some (s, e) }
         else do { t \<leftarrow> off64 (glue (l_len f) (l_len_hi f) + start); e \<leftarrow> off64 (t - 1); Some (start, e) }) = Some (s', e')"
    and r: "\<not> (s' < 0 \<or> e' < 0)" "s' = s" "e' = e"
    using assms unfolding lock_range_def by (auto simp: bind_eq_Some_conv split: if_splits dest: off64_some)
  show ?thesis using se st r glue_sign[of "l_len_hi f" "l_len f"]
    by (auto simp: bind_eq_Some_conv split: if_splits dest!: off64_some)
qed

lemma lock_set_ok:
  assumes "lock_state_ok xs" "s \<le> e" "lock_find xs sc ty s e = None" "iofunc_lock_set mi w xs sc ty s e = Some (w', xs', r)"
  shows "lock_state_ok xs'"
proof (cases "ty = F_UNLCK")
  case True
  then have "unlock_scoid mi w xs sc s e = Some (w', xs', r)" using assms(4) by (simp add: iofunc_lock_set_def)
  then show ?thesis by (rule unlock_scoid_ok[OF assms(1,2)])
next
  case False
  then have "lock_scoid mi w xs sc ty s e = Some (w', xs', r)" using assms(4) by (simp add: iofunc_lock_set_def)
  then show ?thesis by (rule lock_scoid_ok[OF assms(1,3) False assms(2)])
qed

lemma lock_wait_ok:
  assumes "lock_state_ok xs" "i < length xs" "s \<le> e" "l_type f \<noteq> F_UNLCK" "lock_wait w xs i ctp f s e = (w', xs', st)"
  shows "lock_state_ok xs'"
proof -
  let ?b = "\<lparr>rcvid = ctx_rcvid ctp, bstart = s, bend = e, pflock = Some (f\<lparr>l_sysid := ctx_scoid ctp\<rparr>)\<rparr>"
  have "sound_request ?b" using assms(3,4) by (simp add: sound_request_def)
  from attach_state_ok[OF assms(1,2) this] show ?thesis
    using assms(1,5) by (auto simp: lock_wait_def Let_def split: if_splits prod.splits)
qed

lemma find_unlock: "lock_find xs sc F_UNLCK s e = None"
  by (cases xs) simp_all

lemma conserved_start:
  assumes m: "mset (waiters ys) + mset q = mset (waiters xs)" and "sent w1 = sent w" "plenty (2 * length (waiters xs)) w1"
    "\<forall>b \<in> set (waiters xs). alive mi b"
  shows "conserved mi (clients w xs) w1 ys (q @ []) []"
proof -
  have len: "length (waiters xs) = length (waiters ys) + length q" using arg_cong[OF m, of size] by simp
  have "set (waiters ys) \<union> set q = set (waiters xs)" using arg_cong[OF m, of set_mset] by simp
  moreover have "mset (map rcvid (waiters ys)) + mset (map rcvid q) = mset (map rcvid (waiters xs))"
    using arg_cong[OF m, of "image_mset rcvid"] by simp
  ultimately show ?thesis using assms(2-4) unfolding len by (auto simp: conserved_def clients_def ac_simps)
qed

section \<open>Properties\<close>

lemma iofunc_lock_keeps_ok:
  assumes "lock_state_ok (lock_list a)" "iofunc_lock mi cci rnd ctp cmd f oc w a = Some (w', a', f', st)"
  shows "lock_state_ok (lock_list a')"
proof (cases "l_type f \<noteq> F_RDLCK \<and> l_type f \<noteq> F_WRLCK \<and> l_type f \<noteq> F_UNLCK")
  case True
  then show ?thesis using assms by (auto simp: iofunc_lock_def)
next
  case False
  show ?thesis
  proof (cases "lock_command cmd f oc a")
    case (Inl err)
    then show ?thesis using assms False by (auto simp: iofunc_lock_def)
  next
    case (Inr p)
    obtain cmd' g where p: "p = (cmd', g)" by (cases p)
    obtain rg where rg: "lock_range g oc a = Some rg" using assms(2) False Inr p by (auto simp: iofunc_lock_def bind_eq_Some_conv)
    show ?thesis
    proof (cases rg)
      case (Inl err)
      then show ?thesis using assms False Inr p rg by (auto simp: iofunc_lock_def)
    next
      case r: (Inr q)
      obtain s e where q: "q = (s, e)" by (cases q)
      have se: "s \<le> e" using lock_range_ok rg r q by blast
      show ?thesis
      proof (cases "lock_find (lock_list a) (ctx_scoid ctp) (l_type g) s e")
        case None
        then show ?thesis using assms False Inr p rg r q lock_set_ok[OF assms(1) se None]
          by (auto simp: iofunc_lock_def Let_def bind_eq_Some_conv split: if_splits)
      next
        case (Some i)
        have "l_type g \<noteq> F_UNLCK" using Some find_unlock by force
        then show ?thesis using assms False Inr p rg r q Some lock_wait_ok[OF assms(1) find_bound[OF Some] se]
          by (auto simp: iofunc_lock_def Let_def bind_eq_Some_conv split: if_splits prod.splits)
      qed
    qed
  qed
qed

lemma iofunc_unblock_keeps_ok:
  assumes "lock_state_ok xs" "iofunc_unblock u w xs r = Some (w', xs')"
  shows "lock_state_ok xs'"
proof -
  note k = iofunc_unblock_ok[OF assms(2)]
  have "set (waiters xs') \<subseteq> set (waiters xs)" using k set_mset_mono[of "mset (waiters xs')" "mset (waiters xs)"] by simp
  then show ?thesis using assms(1) k by (auto simp: lock_state_ok_def exclusive_def)
qed

text \<open>
  A file under any sequence of locking requests and of clients that give up waiting, with any
  outcome of the memory allocations.
\<close>

inductive file_step :: "(int \<Rightarrow> int option) \<Rightarrow> (int \<Rightarrow> int \<times> int) \<Rightarrow> (int \<Rightarrow> int \<Rightarrow> int) \<Rightarrow> world \<times> fattr \<Rightarrow> world \<times> fattr \<Rightarrow> bool"
  for mi cci rnd where
  request: "iofunc_lock mi cci rnd ctp cmd f oc w a = Some (w', a', f', st) \<Longrightarrow> file_step mi cci rnd (w, a) (w', a')"
| unblock: "iofunc_unblock u w (lock_list a) r = Some (w', xs) \<Longrightarrow> file_step mi cci rnd (w, a) (w', a\<lparr>lock_list := xs\<rparr>)"
| memory: "file_step mi cci rnd (w, a) (w\<lparr>mem := m\<rparr>, a)"

lemma file_step_ok: "file_step mi cci rnd p q \<Longrightarrow> lock_state_ok (lock_list (snd p)) \<Longrightarrow> lock_state_ok (lock_list (snd q))"
  by (induction rule: file_step.induct) (auto intro: iofunc_lock_keeps_ok iofunc_unblock_keeps_ok)

lemma file_reach_ok: "(file_step mi cci rnd)\<^sup>*\<^sup>* p q \<Longrightarrow> lock_state_ok (lock_list (snd p)) \<Longrightarrow> lock_state_ok (lock_list (snd q))"
  by (induction rule: rtranclp_induct) (auto intro: file_step_ok)

text \<open>
  (C3) Two clients never hold conflicting locks on one byte. From a file without locks, after any
  sequence of lock, unlock, query and wait requests, of clients that give up and of memory
  shortages, whenever two clients cover the same byte both locks are read locks.
\<close>

theorem file_locks_exclusive:
  assumes "(file_step mi cci rnd)\<^sup>*\<^sup>* (w, a) (w', a')" "lock_list a = []"
    "covers (lock_list a') sc1 t1 x" "covers (lock_list a') sc2 t2 x" "sc1 \<noteq> sc2"
  shows "t1 = F_RDLCK \<and> t2 = F_RDLCK"
proof -
  have "lock_state_ok (lock_list a)" using assms(2) by (simp add: lock_state_ok_def exclusive_def)
  then have "exclusive (lock_list a')" using file_reach_ok[OF assms(1)] by (simp add: lock_state_ok_def)
  then show ?thesis using assms(3-5) unfolding exclusive_def by blast
qed

definition read_lock :: "lock list" where
  "read_lock = [\<lparr>scoid = 1, ltype = F_RDLCK, lstart = 10, lend = 20, waiting = []\<rparr>]"

definition free_file :: fattr where
  "free_file = \<lparr>mount = None, flags = 0, use_count = 0, rcount = 0, wcount = 0, rlocks = 0, wlocks = 0, mmap_list = [],
     nbytes = 100, uid = 0, gid = 0, mtime = 0, atime = 0, ctime = 0, mode = 0x1A4, nlink = 1, lock_list = []\<rparr>"

definition read_request :: "32 word \<Rightarrow> flock" where
  "read_request s = \<lparr>l_type = F_RDLCK, l_whence = 0, l_start = s, l_start_hi = 0, l_len = 11, l_len_hi = 0, l_pid = 0, l_sysid = 0\<rparr>"

text \<open>One successful request for a read lock of eleven bytes.\<close>

lemma read_request_step:
  fixes s :: "32 word"
  assumes "iofunc_lock_set mi w xs sc F_RDLCK (uint s) (uint s + 10) = Some (w', xs', EOK)" "lock_find xs sc F_RDLCK (uint s) (uint s + 10) = None"
  shows "file_step mi cci rnd (w, free_file\<lparr>lock_list := xs\<rparr>) (w', free_file\<lparr>lock_list := xs'\<rparr>)"
proof -
  let ?a = "free_file\<lparr>lock_list := xs\<rparr>" and ?oc = "\<lparr>ioflag = 0x8003, offset = 0, sflag = 0, ocb_flags = 0\<rparr>" and ?f = "read_request s"
  have c: "lock_command F_SETLK64 ?f ?oc ?a = Inr (F_SETLK64, ?f)"
    by (simp add: lock_command_def read_request_def free_file_def S_IXGRP_def S_ISGID_def IO_FLAG_RD_def F_RDLCK_def F_WRLCK_def F_SETLK_def F_SETLKW_def F_SETLK64_def Let_def)
  have b: "0 \<le> uint s" "uint s < 2 ^ 32" using uint_bounded[of s] by simp_all
  have low: "- 9223372036854775808 \<le> uint s" by (rule order_trans[OF _ b(1)]) simp
  have g: "glue s 0 = uint s" "glue 11 0 = 11" by (simp_all add: glue_def)
  have off: "off64 (uint s) = Some (uint s)" "off64 (11 + uint s) = Some (11 + uint s)" "off64 (11 + uint s - 1) = Some (uint s + 10)"
    using b low by (simp_all add: off64_def)
  have pos: "\<not> uint s + 10 < 0" using b(1) by linarith
  have big: "\<not> IS32BIT ?a 0x8003" by (simp add: IS32BIT_def O_LARGEFILE_def free_file_def)
  have r: "lock_range ?f ?oc ?a = Some (Inr (uint s, uint s + 10))"
    unfolding lock_range_def using pos off big by (simp add: read_request_def g)
  have t: "l_type ?f = F_RDLCK" by (simp add: read_request_def)
  have "iofunc_lock mi cci rnd \<lparr>ctx_scoid = sc, ctx_rcvid = 9, ctx_nd = 0\<rparr> F_SETLK64 ?f ?oc w ?a = Some (w', ?a\<lparr>lock_list := xs'\<rparr>, ?f, Reply)"
    using assms unfolding iofunc_lock_def c t by (simp add: r t F_SETLK64_def F_GETLK64_def)
  then show ?thesis using file_step.request by fastforce
qed

theorem file_locks_witness:
  "\<exists>w' a'. (file_step (\<lambda>_. None) (\<lambda>_. (0, 0)) (\<lambda>a b. b))\<^sup>*\<^sup>* (\<lparr>mem = [True, True], sent = []\<rparr>, free_file) (w', a')
    \<and> covers (lock_list a') 1 F_RDLCK 17 \<and> covers (lock_list a') 2 F_RDLCK 17 \<and> \<not> covers (lock_list a') 2 F_WRLCK 17"
proof -
  let ?st = "file_step (\<lambda>_. None) (\<lambda>_. (0, 0)) (\<lambda>a b. b)" and ?ys = "read_lock @ [new_lock 2 F_RDLCK 15 25]"
  have s1: "?st (\<lparr>mem = [True, True], sent = []\<rparr>, free_file\<lparr>lock_list := []\<rparr>) (\<lparr>mem = [True], sent = []\<rparr>, free_file\<lparr>lock_list := read_lock\<rparr>)"
    by (rule read_request_step[where s = 10 and sc = 1])
      (simp_all add: iofunc_lock_set_def F_RDLCK_def F_UNLCK_def lock_scoid_def read_lock_def lock_step_core lock_core_def lock_add_null_def take_mem_def new_lock_def)
  have s2: "?st (\<lparr>mem = [True], sent = []\<rparr>, free_file\<lparr>lock_list := read_lock\<rparr>) (\<lparr>mem = [], sent = []\<rparr>, free_file\<lparr>lock_list := ?ys\<rparr>)"
    by (rule read_request_step[where s = 15 and sc = 2])
      (simp_all add: iofunc_lock_set_def F_RDLCK_def F_UNLCK_def lock_scoid_def read_lock_def lock_step_core lock_core_def lock_add_null_def
        lock_add_def take_mem_def overlap_defs)
  have e: "free_file\<lparr>lock_list := []\<rparr> = free_file" by (simp add: free_file_def)
  have reach: "?st\<^sup>*\<^sup>* (\<lparr>mem = [True, True], sent = []\<rparr>, free_file) (\<lparr>mem = [], sent = []\<rparr>, free_file\<lparr>lock_list := ?ys\<rparr>)"
    by (rule converse_rtranclp_into_rtranclp[OF s1[unfolded e] r_into_rtranclp[of ?st, OF s2]])
  have c: "covers ?ys 1 F_RDLCK 17" "covers ?ys 2 F_RDLCK 17" by (simp_all add: read_lock_def on_def)
  have "\<not> covers ?ys 2 F_WRLCK 17"
    using file_locks_exclusive[OF reach, of 1 F_RDLCK 17 2 F_WRLCK] c by (auto simp: free_file_def F_RDLCK_def F_WRLCK_def)
  then show ?thesis using reach c by (intro exI[of _ "\<lparr>mem = [], sent = []\<rparr>"] exI[of _ "free_file\<lparr>lock_list := ?ys\<rparr>"]) simp
qed

text \<open>
  (C15) What a granted lock does to every byte of every client, in every case, for a request nobody
  waits behind and with memory for the pieces. A request that the first lock shadows does nothing,
  which is a defect of its own. Otherwise the range is covered with the requested type, the own lock the
  scan reaches gives way to it there (extended, converted or split, and kept outside the range),
  and every other lock stays as it is, further own locks in the range included. So when at most one
  own lock overlaps the range and the scan reaches it, the range is covered with the requested type
  and no other, and nothing changes outside the range or for other clients.
\<close>

theorem lock_scoid_exact:
  assumes "waiters xs = []" "ranges_ok xs" "s \<le> e" "plenty 2 w"
  shows "\<exists>w' xs'. lock_scoid mi w xs sc ty s e = Some (w', xs', EOK)
    \<and> (if shadowed xs sc s e then xs' = xs
       else (\<forall>sc' t x. covers xs' sc' t x \<longleftrightarrow> sc' = sc \<and> t = ty \<and> s \<le> x \<and> x \<le> e
              \<or> (\<exists>i < length xs. on (xs ! i) sc' t x \<and> \<not> (reached xs sc s e i \<and> s \<le> x \<and> x \<le> e)))
         \<and> (one_own xs sc s e \<longrightarrow> (\<forall>sc' t x. covers xs' sc' t x
              \<longleftrightarrow> (if sc' = sc \<and> s \<le> x \<and> x \<le> e then t = ty else covers xs sc' t x))))"
proof -
  obtain w1 xs1 ds r where c: "lock_core w xs sc ty s e = (w1, xs1, ds, r)" by (metis prod.exhaust)
  have r: "r = EOK" using core_plenty[of 0 w, OF _ c] assms(4) by (simp add: numeral_2_eq_2)
  note q = lock_scoid_quiet[OF assms(1) c, unfolded r]
  show ?thesis
  proof (cases "shadowed xs sc s e")
    case True
    then have "xs1 = xs" using c core_shadowed by blast
    then show ?thesis using q True by auto
  next
    case False
    then show ?thesis using q core_effect[OF c[unfolded r] assms(3,2) False] core_exact[OF c[unfolded r] assms(3,2) _ False]
      by (intro exI[of _ w1] exI[of _ xs1]) simp
  qed
qed
definition two_locks :: "lock list" where
  "two_locks = [new_lock 1 F_RDLCK 10 20, new_lock 1 F_RDLCK 30 40]"

theorem lock_scoid_witness:
  "(\<exists>w' xs'. lock_scoid (\<lambda>_. None) \<lparr>mem = [True, True], sent = []\<rparr> read_lock 1 F_WRLCK 12 14 = Some (w', xs', EOK)
      \<and> covers xs' 1 F_WRLCK 13 \<and> covers xs' 1 F_RDLCK 11 \<and> \<not> covers xs' 1 F_RDLCK 13)
    \<and> (\<exists>w' xs'. lock_scoid (\<lambda>_. None) \<lparr>mem = [True, True], sent = []\<rparr> two_locks 1 F_WRLCK 15 35 = Some (w', xs', EOK)
      \<and> covers xs' 1 F_WRLCK 17 \<and> \<not> covers xs' 1 F_RDLCK 17 \<and> covers xs' 1 F_WRLCK 32 \<and> covers xs' 1 F_RDLCK 32)"
proof (rule conjI)
  have "one_own read_lock 1 12 14" "\<not> shadowed read_lock 1 12 14" by (simp_all add: one_own_def shadowed_def read_lock_def)
  then show "\<exists>w' xs'. lock_scoid (\<lambda>_. None) \<lparr>mem = [True, True], sent = []\<rparr> read_lock 1 F_WRLCK 12 14 = Some (w', xs', EOK)
      \<and> covers xs' 1 F_WRLCK 13 \<and> covers xs' 1 F_RDLCK 11 \<and> \<not> covers xs' 1 F_RDLCK 13"
    using lock_scoid_exact[of read_lock 12 14 "\<lparr>mem = [True, True], sent = []\<rparr>" "\<lambda>_. None" 1 F_WRLCK]
    by (auto simp: read_lock_def plenty_def on_def F_RDLCK_def F_WRLCK_def)
next
  have "\<not> shadowed two_locks 1 15 35" by (simp add: shadowed_def two_locks_def)
  moreover have "reached two_locks 1 15 35 i \<longleftrightarrow> i = 0" for i
    by (cases i) (simp_all add: two_locks_def reached_Cons own_overlaps_def overlap_defs)
  ultimately obtain w' xs' where "lock_scoid (\<lambda>_. None) \<lparr>mem = [True, True], sent = []\<rparr> two_locks 1 F_WRLCK 15 35 = Some (w', xs', EOK)"
    "\<And>sc' t x. covers xs' sc' t x \<longleftrightarrow> sc' = 1 \<and> t = F_WRLCK \<and> 15 \<le> x \<and> x \<le> 35
       \<or> (\<exists>i < length two_locks. on (two_locks ! i) sc' t x \<and> \<not> (i = 0 \<and> 15 \<le> x \<and> x \<le> 35))"
    using lock_scoid_exact[of two_locks 15 35 "\<lparr>mem = [True, True], sent = []\<rparr>" "\<lambda>_. None" 1 F_WRLCK]
    by (auto simp: plenty_def two_locks_def)
  then show "\<exists>w' xs'. lock_scoid (\<lambda>_. None) \<lparr>mem = [True, True], sent = []\<rparr> two_locks 1 F_WRLCK 15 35 = Some (w', xs', EOK)
      \<and> covers xs' 1 F_WRLCK 17 \<and> \<not> covers xs' 1 F_RDLCK 17 \<and> covers xs' 1 F_WRLCK 32 \<and> covers xs' 1 F_RDLCK 32"
    by (auto simp: two_locks_def Ex_less_Suc2 F_RDLCK_def F_WRLCK_def)
qed

text \<open>
  (C16) Unlocking removes exactly the client's locks from the range, splitting a lock that reaches
  over both ends, and touches nothing else; proved with memory for the pieces and nobody waiting.
\<close>

theorem unlock_scoid_exact:
  assumes "waiters xs = []" "ranges_ok xs" "s \<le> e" "plenty (length xs) w"
  shows "\<exists>w' xs'. unlock_scoid mi w xs sc s e = Some (w', xs', EOK)
    \<and> (\<forall>sc' t x. covers xs' sc' t x \<longleftrightarrow> covers xs sc' t x \<and> (sc' \<noteq> sc \<or> \<not> (s \<le> x \<and> x \<le> e)))"
proof -
  obtain w1 xs1 q ok where u: "unlock_loop w xs sc s e [] = (w1, xs1, q, ok)" by (metis prod.exhaust)
  note k = unlock_loop_ok[OF u assms(3,2), where k = 0]
  have "ok" "q = []" using k assms(1,4) by auto
  then show ?thesis using u k by (auto simp: unlock_scoid_def)
qed

theorem unlock_scoid_witness:
  "\<exists>w' xs'. unlock_scoid (\<lambda>_. None) \<lparr>mem = [True], sent = []\<rparr> read_lock 1 12 14 = Some (w', xs', EOK)
    \<and> covers xs' 1 F_RDLCK 11 \<and> \<not> covers xs' 1 F_RDLCK 13"
proof -
  have "\<exists>w' xs'. unlock_scoid (\<lambda>_. None) \<lparr>mem = [True], sent = []\<rparr> read_lock 1 12 14 = Some (w', xs', EOK)
    \<and> (\<forall>sc' t x. covers xs' sc' t x \<longleftrightarrow> covers read_lock sc' t x \<and> (sc' \<noteq> 1 \<or> \<not> (12 \<le> x \<and> x \<le> 14)))"
    by (intro unlock_scoid_exact) (simp_all add: read_lock_def plenty_def)
  then show ?thesis by (auto simp: read_lock_def on_def)
qed

text \<open>
  (C9) No waiting client is forgotten. While memory lasts and the clients are still there, every
  request that waited before a lock or unlock operation waits afterwards or was answered, once.
\<close>

theorem clients_conserved:
  assumes "ranges_ok xs" "s \<le> e" "plenty (2 * length (waiters xs) + length xs + 2) w" "\<forall>b \<in> set (waiters xs). alive mi b"
    "iofunc_lock_set mi w xs sc ty s e = Some (w', xs', r)"
  shows "clients w' xs' = clients w xs"
proof (cases "ty = F_UNLCK")
  case True
  obtain w1 xs1 q ok where u: "unlock_loop w xs sc s e [] = (w1, xs1, q, ok)" by (metis prod.exhaust)
  note k = unlock_loop_ok[OF u assms(2,1), where k = "2 * length (waiters xs)"]
  have p: "ok" "plenty (2 * length (waiters xs)) w1" using k plenty_mono[OF assms(3), of "2 * length (waiters xs) + length xs"] by auto
  have "conserved mi (clients w xs) w1 xs1 (q @ []) []" by (rule conserved_start[OF _ _ p(2) assms(4)]) (use k in simp_all)
  moreover have "reblock_pending_locks (lock_scoid mi) mi w1 xs1 q = Some (w', xs')"
    using assms(5) True u p(1) by (auto simp: iofunc_lock_set_def unlock_scoid_def bind_eq_Some_conv)
  ultimately have "conserved mi (clients w xs) w' xs' [] []" by (rule cons.reblock_scoid_keeps[rotated])
  then show ?thesis by (simp add: conserved_def)
next
  case False
  obtain w0 xs0 ds r' where c: "lock_core w xs sc ty s e = (w0, xs0, ds, r')" by (metis prod.exhaust)
  have "plenty (Suc (Suc (2 * length (waiters xs)))) w" using plenty_mono[OF assms(3)] by simp
  from core_plenty[OF this c] have p: "r' = EOK" "plenty (2 * length (waiters xs)) w0" by auto
  have "conserved mi (clients w xs) w0 xs0 (ds @ []) []"
    by (rule conserved_start[OF core_waiters(2)[OF lock_core_shape[OF c] p(1)] core_sent[OF c] p(2) assms(4)])
  moreover have "lock_scoid mi w xs sc ty s e = Some (w', xs', r)" using assms(5) False by (simp add: iofunc_lock_set_def)
  ultimately have "conserved mi (clients w xs) w' xs' [] []" using cons.lock_scoid_keeps c by blast
  then show ?thesis by (simp add: conserved_def)
qed

definition one_waiter :: "lock list" where
  "one_waiter = [\<lparr>scoid = 1, ltype = F_WRLCK, lstart = 10, lend = 20,
     waiting = [\<lparr>rcvid = 7, bstart = 12, bend = 14, pflock = Some \<lparr>l_type = F_WRLCK, l_whence = 0, l_start = 12, l_start_hi = 0,
       l_len = 3, l_len_hi = 0, l_pid = 0, l_sysid = 2\<rparr>\<rparr>]\<rparr>]"

definition roomy :: world where
  "roomy = \<lparr>mem = [True, True, True, True, True, True], sent = []\<rparr>"

theorem clients_conserved_witness:
  "\<exists>w' xs' r. iofunc_lock_set (\<lambda>_. Some 2) roomy one_waiter 1 F_UNLCK 0 15 = Some (w', xs', r) \<and> clients w' xs' = {#7#}"
proof -
  obtain w' xs' r where u: "iofunc_lock_set (\<lambda>_. Some 2) roomy one_waiter 1 F_UNLCK 0 15 = Some (w', xs', r)"
    using unlock_scoid_total by (fastforce simp: iofunc_lock_set_def)
  have "clients w' xs' = clients roomy one_waiter"
    by (rule clients_conserved[OF _ _ _ _ u]) (simp_all add: one_waiter_def roomy_def plenty_def alive_def)
  then show ?thesis using u by (auto simp: clients_def one_waiter_def roomy_def)
qed

text \<open>
  (C23) Locking and unlocking always return: the recursion through \<open>reblock_pending_locks\<close> ends for
  every list, every set of waiting requests and every outcome of the allocations.
\<close>

theorem iofunc_lock_set_returns: "\<exists>w' xs' r. iofunc_lock_set mi w xs sc ty s e = Some (w', xs', r)"
  using lock_scoid_total unlock_scoid_total by (fastforce simp: iofunc_lock_set_def)

text \<open>
  (C35) A granted lock can get lost. When the first lock of the list belongs to another client and
  starts inside the requested range behind its beginning, the new lock is attached to a local
  variable: the call returns \<open>EOK\<close> and the list is unchanged.
\<close>

theorem shadowed_lock_lost:
  assumes "shadowed xs sc s e" "plenty 1 w"
  shows "\<exists>w'. lock_scoid mi w xs sc ty s e = Some (w', xs, EOK)"
proof -
  obtain w1 where m: "take_mem w = (w1, True)" using malloc_plenty[of 0 w] assms(2) by auto
  obtain c cs where xs: "xs = c # cs" using assms(1) by (cases xs) (auto simp: shadowed_def)
  then have "lock_core w xs sc ty s e = (w1, xs, [], EOK)"
    using assms(1) m by (auto simp: lock_core_def lock_add_null_def shadowed_def overlap_defs)
  then show ?thesis by (simp add: lock_scoid_def lock_step_core)
qed

theorem shadowed_lock_witness:
  "\<exists>w'. lock_scoid (\<lambda>_. None) \<lparr>mem = [True], sent = []\<rparr> read_lock 2 F_RDLCK 5 15 = Some (w', read_lock, EOK) \<and> \<not> covers read_lock 2 F_RDLCK 7"
proof -
  have "shadowed read_lock 2 5 15" by (simp add: shadowed_def read_lock_def)
  moreover have "plenty 1 \<lparr>mem = [True], sent = []\<rparr>" by (simp add: plenty_def)
  ultimately show ?thesis using shadowed_lock_lost by (fastforce simp: read_lock_def on_def)
qed

end
