(* ===== verification/Iofunc_Open.thy ===== *)
theory Iofunc_Open
  imports Iofunc
begin

text \<open>
  Opening and closing of files: \<open>_iofunc_open.c\<close>, \<open>_iofunc_create.c\<close>, \<open>iofunc_attr_init.c\<close>,
  \<open>iofunc_ocb_attach.c\<close>, \<open>iofunc_ocb_detach.c\<close>, \<open>iofunc_openfd.c\<close>, \<open>iofunc_devctl.c\<close>, and the handlers
  \<open>iofunc_open.c\<close>, \<open>iofunc_open_default.c\<close>, \<open>iofunc_close_ocb.c\<close> and \<open>iofunc_mknod.c\<close>. What the
  allocation of an open control block and \<open>resmgr_open_bind\<close> return is an argument: \<open>None\<close>, or the
  error number.
\<close>

record connect =
  con_ioflag :: "32 word"
  con_mode :: "32 word"
  con_sflag :: "16 word"
  con_access :: "16 word"
  con_eflag :: "8 word"

text \<open>The flags of a request with the access that was granted.\<close>

definition granted_flags :: "connect \<Rightarrow> 32 word" where
  "granted_flags msg = con_ioflag msg AND (NOT IO_FLAG_MASK OR ucast (con_access msg))"

definition denies_read :: "16 word \<Rightarrow> bool" where
  "denies_read sf \<longleftrightarrow> sf AND SH_MASK = SH_DENYRW \<or> sf AND SH_MASK = SH_DENYRD"

definition denies_write :: "16 word \<Rightarrow> bool" where
  "denies_write sf \<longleftrightarrow> sf AND SH_MASK = SH_DENYRW \<or> sf AND SH_MASK = SH_DENYWR"

definition time_flags :: "32 word" where
  "time_flags = ATTR_DIRTY_TIME OR ATTR_MTIME OR ATTR_CTIME"

section \<open>Creating\<close>

definition iofunc_create :: "'a attr_scheme \<Rightarrow> 32 word \<Rightarrow> mount option \<Rightarrow> client option \<Rightarrow> nat \<times> 'a attr_scheme \<times> 32 word" where
  "iofunc_create d m mp info =
     (let mountp = (if mp = None then mount d else mp);
          status = iofunc_check_access d S_IWRITE info
      in
      if \<not> S_ISDIR (mode d) \<or> info = None then (EBADFSYS, d, m)
      else if (case mountp of None \<Rightarrow> False | Some mt \<Rightarrow> mount_flags mt AND MOUNT_NOCREAT \<noteq> 0) then (ENOSYS, d, m)
      else if wlocks d \<noteq> 0 then (EBUSY, d, m)
      else if status \<noteq> EOK then (status, d, m)
      else if readonly mountp then (EROFS, d, m)
      else (EOK, d\<lparr>flags := flags d OR time_flags\<rparr>,
            if m AND S_ISGID \<noteq> 0 \<and> mode d AND S_ISGID \<noteq> 0 \<and> iofunc_check_access d S_ISGID info \<noteq> EOK
            then m AND NOT S_ISGID else m))"

text \<open>A new attribute: the ids of the process are used when there is no client.\<close>

definition iofunc_attr_init :: "int \<Rightarrow> int \<Rightarrow> 32 word \<Rightarrow> 'a attr_scheme option \<Rightarrow> client option \<Rightarrow> attr" where
  "iofunc_attr_init getuid getgid m dattr info =
     (let u = (case info of Some c \<Rightarrow> euid c | None \<Rightarrow> getuid);
          g = (case info of Some c \<Rightarrow> egid c | None \<Rightarrow> getgid);
          inherits = (case dattr of Some d \<Rightarrow> mode d AND S_ISGID \<noteq> 0 | None \<Rightarrow> False)
      in \<lparr>mount = (case dattr of Some d \<Rightarrow> mount d | None \<Rightarrow> None),
          flags = ATTR_DIRTY_TIME OR ATTR_MTIME OR ATTR_ATIME OR ATTR_CTIME,
          use_count = 0, rcount = 0, wcount = 0, rlocks = 0, wlocks = 0, mmap_list = [], nbytes = 0,
          uid = u, gid = (case dattr of Some d \<Rightarrow> if inherits then gid d else g | None \<Rightarrow> g),
          mtime = 0, atime = 0, ctime = 0,
          mode = (if inherits \<and> S_ISDIR m then m OR S_ISGID else m), nlink = 1\<rparr>)"

section \<open>Opening\<close>

definition needs_sync :: "32 word \<Rightarrow> mount option \<Rightarrow> bool" where
  "needs_sync fl mp \<longleftrightarrow> fl AND (O_SYNC OR O_DSYNC OR O_RSYNC) \<noteq> 0
     \<and> (case mp of None \<Rightarrow> True | Some mt \<Rightarrow> conf mt AND PC_SYNC_IO = 0)"

text \<open>
  Opening an existing file, the part of \<open>_iofunc_open\<close> behind the creation: the share modes, the
  access with the flags that are left, and the whole.
\<close>

definition share_conflict :: "connect \<Rightarrow> attr \<Rightarrow> bool" where
  "share_conflict msg a \<longleftrightarrow>
     granted_flags msg AND IO_FLAG_RD \<noteq> 0 \<and> rlocks a \<noteq> 0 \<or> granted_flags msg AND IO_FLAG_WR \<noteq> 0 \<and> wlocks a \<noteq> 0
     \<or> denies_read (con_sflag msg) \<and> rcount a \<noteq> 0 \<or> denies_write (con_sflag msg) \<and> wcount a \<noteq> 0"

definition open_status :: "32 word \<Rightarrow> attr \<Rightarrow> client option \<Rightarrow> nat" where
  "open_status fl a info =
     (let check = (if fl AND IO_FLAG_RD \<noteq> 0 then S_IREAD else 0) OR (if fl AND IO_FLAG_WR \<noteq> 0 then S_IWRITE else 0);
          status = iofunc_check_access a check info
      in
      if fl AND IO_FLAG_WR \<noteq> 0 \<and> S_ISDIR (mode a) then EISDIR
      else if fl AND IO_FLAG_WR \<noteq> 0 \<and> readonly (mount a) then EROFS
      else if info \<noteq> None \<and> check \<noteq> 0 \<and> status \<noteq> EOK then status
      else if IS32BIT a fl \<and> S_ISREG (mode a) \<and> LONG_MAX < nbytes a then EOVERFLOW
      else EOK)"

definition open_existing :: "connect \<Rightarrow> attr \<Rightarrow> client option \<Rightarrow> nat \<times> connect \<times> attr" where
  "open_existing msg a info =
     (let fl = granted_flags msg in
      if share_conflict msg a then (EBUSY, msg, a)
      else if fl AND (O_CREAT OR O_EXCL) = O_CREAT OR O_EXCL then (EEXIST, msg, a)
      else
        let cut = (fl AND (IO_FLAG_WR OR O_TRUNC) = O_TRUNC);
            msg1 = (if cut then msg\<lparr>con_ioflag := con_ioflag msg AND NOT O_TRUNC\<rparr> else msg);
            fl1 = (if cut then con_ioflag msg1 else fl);
            status = open_status fl1 a info
        in (status, msg1,
            if status = EOK \<and> fl1 AND O_TRUNC \<noteq> 0 \<and> \<not> S_ISFIFO (mode a) then a\<lparr>flags := flags a OR time_flags\<rparr> else a))"

text \<open>
  \<open>_iofunc_open\<close>: with a directory the file is created there, and \<open>attr\<close>, when given, is set up.
  Without a directory and without a file a NULL pointer is read, unless an error comes first.
\<close>

definition iofunc_open :: "int \<Rightarrow> int \<Rightarrow> connect \<Rightarrow> attr option \<Rightarrow> attr option \<Rightarrow> client option
    \<Rightarrow> (nat \<times> connect \<times> attr option \<times> attr option) option" where
  "iofunc_open getuid getgid msg attr dattr info =
     (let fl = granted_flags msg;
          of_file = (case attr of Some a \<Rightarrow> mount a | None \<Rightarrow> None);
          mountp = (case dattr of Some d \<Rightarrow> (if mount d = None then of_file else mount d) | None \<Rightarrow> of_file)
      in
      if needs_sync fl mountp then Some (EINVAL, msg, attr, dattr)
      else case dattr of
        Some d \<Rightarrow>
          if fl AND O_CREAT = 0 then Some (ENOENT, msg, attr, dattr)
          else
            let (status, d1, m) = iofunc_create d (con_mode msg) mountp info;
                m1 = m AND NOT S_ISVTX;
                m2 = (if m1 AND S_IFMT = 0 then m1 OR S_IFREG else if S_ISLNK m1 then m1 OR S_IPERMS else m1)
            in
            if status \<noteq> EOK then Some (status, msg, attr, Some d1)
            else Some (EOK, msg\<lparr>con_mode := m2\<rparr>, map_option (\<lambda>_. iofunc_attr_init getuid getgid m2 (Some d1) info) attr, Some d1)
      | None \<Rightarrow>
          (case attr of
             Some a \<Rightarrow> let (status, msg1, a1) = open_existing msg a info in Some (status, msg1, Some a1, None)
           | None \<Rightarrow>
               if fl AND IO_FLAG_MASK = 0 \<and> \<not> denies_read (con_sflag msg) \<and> \<not> denies_write (con_sflag msg)
                  \<and> fl AND (O_CREAT OR O_EXCL) = O_CREAT OR O_EXCL
               then Some (EEXIST, msg, None, None) else None))"

text \<open>The function \<open>iofunc_open\<close> of the source, which asks for the client when none is passed in.\<close>

definition iofunc_open_info :: "nat + client \<Rightarrow> int \<Rightarrow> int \<Rightarrow> connect \<Rightarrow> attr option \<Rightarrow> attr option \<Rightarrow> client option
    \<Rightarrow> (nat \<times> connect \<times> attr option \<times> attr option) option" where
  "iofunc_open_info ci getuid getgid msg attr dattr info =
     (case link_client ci (con_ioflag msg) info of
        Inl status \<Rightarrow> Some (status, msg, attr, dattr)
      | Inr info1 \<Rightarrow> iofunc_open getuid getgid msg attr dattr info1)"

text \<open>
  A special file: the attributes with the device number, the file type of the message, when the caller
  passed a place for them and they were set up.
\<close>

definition iofunc_mknod :: "nat + client \<Rightarrow> int \<Rightarrow> int \<Rightarrow> connect \<Rightarrow> 32 word \<Rightarrow> attr option \<Rightarrow> attr option \<Rightarrow> client option
    \<Rightarrow> nat \<times> connect \<times> (attr \<times> 32 word) option \<times> attr option" where
  "iofunc_mknod ci getuid getgid msg file_type attr dattr info =
     (case dattr of
        None \<Rightarrow> (EBADFSYS, msg, None, dattr)
      | Some d \<Rightarrow>
          (case link_client ci (con_ioflag msg) info of
             Inl status \<Rightarrow> (status, msg, None, dattr)
           | Inr info1 \<Rightarrow>
               let (status, d1, m) = iofunc_create d (con_mode msg) (mount d) info1 in
               if status \<noteq> EOK then (status, msg, None, Some d1)
               else (EOK, msg\<lparr>con_mode := m\<rparr>, map_option (\<lambda>_. (iofunc_attr_init getuid getgid m (Some d1) info1, file_type)) attr, Some d1)))"

section \<open>Open control blocks\<close>

definition new_ocb :: "connect \<Rightarrow> ocb" where
  "new_ocb msg = \<lparr>ioflag = granted_flags msg, offset = 0, sflag = con_sflag msg, ocb_flags = 0\<rparr>"

definition count_open :: "ocb \<Rightarrow> 'a attr_scheme \<Rightarrow> 'a attr_scheme" where
  "count_open oc a =
     a\<lparr>wcount := wcount a + (if ioflag oc AND IO_FLAG_WR \<noteq> 0 then 1 else 0),
       rcount := rcount a + (if ioflag oc AND IO_FLAG_RD \<noteq> 0 then 1 else 0),
       rlocks := rlocks a + (if denies_read (sflag oc) then 1 else 0),
       wlocks := wlocks a + (if denies_write (sflag oc) then 1 else 0),
       use_count := use_count a + 1\<rparr>"

text \<open>\<open>given\<close> says that the caller brings the block; one that was allocated here is freed when binding fails.\<close>

definition iofunc_ocb_attach :: "nat option \<Rightarrow> nat option \<Rightarrow> bool \<Rightarrow> connect \<Rightarrow> 'a attr_scheme \<Rightarrow> nat \<times> ocb option \<times> 'a attr_scheme" where
  "iofunc_ocb_attach alloc bound given msg a =
     (case (given, alloc) of
        (False, Some errno) \<Rightarrow> (errno, None, a)
      | _ \<Rightarrow>
          (let oc = new_ocb msg in
           case bound of
             Some errno \<Rightarrow> (errno, if given then Some oc else None, a)
           | None \<Rightarrow> (EOK, Some oc, count_open oc a)))"

definition OCB_MMAP :: "16 word" where "OCB_MMAP = 2"
definition OCB_LAST_INUSE :: "32 word" where "OCB_LAST_INUSE = 1"
definition OCB_LAST_READER :: "32 word" where "OCB_LAST_READER = 2"
definition OCB_LAST_WRITER :: "32 word" where "OCB_LAST_WRITER = 4"
definition OCB_LAST_RDLOCK :: "32 word" where "OCB_LAST_RDLOCK = 8"
definition OCB_LAST_WRLOCK :: "32 word" where "OCB_LAST_WRLOCK = 0x10"

text \<open>\<open>self\<close> is the address of the block, by which the list of mappings knows it.\<close>

definition iofunc_ocb_detach :: "int \<Rightarrow> nat \<Rightarrow> ocb \<Rightarrow> 'a attr_scheme \<Rightarrow> 32 word \<times> 'a attr_scheme" where
  "iofunc_ocb_detach clock self oc a =
     (let a1 = iofunc_time_update clock a;
          a2 = (if ocb_flags oc AND OCB_MMAP \<noteq> 0 then a1\<lparr>mmap_list := remove1 self (mmap_list a1)\<rparr> else a1);
          writer = (ioflag oc AND IO_FLAG_WR \<noteq> 0); reader = (ioflag oc AND IO_FLAG_RD \<noteq> 0);
          a3 = a2\<lparr>wcount := wcount a2 - (if writer then 1 else 0),
                  rcount := rcount a2 - (if reader then 1 else 0),
                  rlocks := rlocks a2 - (if denies_read (sflag oc) then 1 else 0),
                  wlocks := wlocks a2 - (if denies_write (sflag oc) then 1 else 0),
                  use_count := use_count a2 - 1\<rparr>
      in ((if writer \<and> wcount a3 = 0 then OCB_LAST_WRITER else 0)
          OR (if reader \<and> rcount a3 = 0 then OCB_LAST_READER else 0)
          OR (if denies_read (sflag oc) \<and> rlocks a3 = 0 then OCB_LAST_RDLOCK else 0)
          OR (if denies_write (sflag oc) \<and> wlocks a3 = 0 then OCB_LAST_WRLOCK else 0)
          OR (if use_count a3 = 0 then OCB_LAST_INUSE else 0), a3))"

text \<open>The handlers of open and close, with the attributes locked around them; the block is freed at the end.\<close>

definition iofunc_open_default :: "nat + client \<Rightarrow> int \<Rightarrow> int \<Rightarrow> nat option \<Rightarrow> nat option \<Rightarrow> connect \<Rightarrow> attr \<Rightarrow> (nat \<times> ocb option \<times> attr) option" where
  "iofunc_open_default ci getuid getgid alloc bound msg a =
     do { (status, msg1, attr1, d) \<leftarrow> iofunc_open_info ci getuid getgid msg (Some a) None None;
          a1 \<leftarrow> attr1;
          Some (if status \<noteq> EOK then (status, None, a1) else iofunc_ocb_attach alloc bound False msg1 a1) }"

definition iofunc_close_ocb :: "int \<Rightarrow> nat \<Rightarrow> ocb \<Rightarrow> 'a attr_scheme \<Rightarrow> nat \<times> 'a attr_scheme" where
  "iofunc_close_ocb clock self oc a = (EOK, snd (iofunc_ocb_detach clock self oc a))"

text \<open>\<open>iofunc_openfd\<close>: a second block for a file that is open, with no more access than the first.\<close>

definition openfd_request :: "32 word \<Rightarrow> 16 word \<Rightarrow> ocb \<Rightarrow> connect" where
  "openfd_request fl sf oc =
     \<lparr>con_ioflag = fl AND (IO_FLAG_MASK OR O_SETFLAG OR O_TRUNC), con_mode = 0, con_sflag = sf,
      con_access = ucast (ioflag oc AND IO_FLAG_MASK), con_eflag = 0\<rparr>"

definition iofunc_openfd :: "nat option \<Rightarrow> nat option \<Rightarrow> 32 word \<Rightarrow> 16 word \<Rightarrow> ocb \<Rightarrow> attr \<Rightarrow> nat \<times> ocb option \<times> attr" where
  "iofunc_openfd alloc bound fl sf oc a =
     (let req = openfd_request fl sf oc in
      if con_ioflag req AND ucast (con_access req) \<noteq> con_ioflag req AND IO_FLAG_MASK then (EACCES, None, a)
      else if needs_sync (granted_flags req) (mount a) then (EINVAL, None, a)
      else
        let (status, req1, a1) = open_existing req a None in
        if status \<noteq> EOK then (status, None, a1) else iofunc_ocb_attach alloc bound False req1 a1)"

section \<open>Device control\<close>

datatype dcmd = GETFLAGS | SETFLAGS "32 word" | GETMOUNTFLAGS | FADVISE | OTHER

datatype devctl_result = Status nat | Data "32 word" | Default

definition O_ACCMODE :: "32 word" where "O_ACCMODE = 3"
definition MOUNT_FLAGS :: "32 word" where "MOUNT_FLAGS = 0xFF"
definition ESPIPE :: nat where "ESPIPE = 29"

definition iofunc_devctl :: "dcmd \<Rightarrow> ocb \<Rightarrow> 'a attr_scheme \<Rightarrow> devctl_result \<times> ocb" where
  "iofunc_devctl dc oc a =
     (case dc of
        GETFLAGS \<Rightarrow> (Data ((ioflag oc AND O_SETFLAG) OR ((ioflag oc - 1) AND O_ACCMODE)), oc)
      | SETFLAGS fl \<Rightarrow>
          if needs_sync fl (mount a) then (Status EINVAL, oc)
          else (Status EOK, oc\<lparr>ioflag := (ioflag oc AND NOT O_SETFLAG) OR (fl AND O_SETFLAG)\<rparr>)
      | GETMOUNTFLAGS \<Rightarrow> (Data (case mount a of None \<Rightarrow> 0 | Some mt \<Rightarrow> mount_flags mt AND MOUNT_FLAGS), oc)
      | FADVISE \<Rightarrow> (if S_ISFIFO (mode a) then Status ESPIPE else Default, oc)
      | OTHER \<Rightarrow> (Default, oc))"

end
