(* ===== verification/Iofunc_Link.thy ===== *)
theory Iofunc_Link
  imports Iofunc_Open
begin

text \<open>
  Links: \<open>iofunc_link.c\<close>, \<open>iofunc_unlink.c\<close> and \<open>iofunc_rename.c\<close>. The attributes are in a map from
  file numbers, each assignment of the source is one update of the map in the source's order, and 0
  is NULL: a file may be its own directory, and two directories may be the same. Link counts are
  unsigned 32-bit numbers.
\<close>

type_synonym files = "nat \<Rightarrow> attr"

definition EFLAG_DOT :: "8 word" where "EFLAG_DOT = 2"
definition EFLAG_DOTDOT :: "8 word" where "EFLAG_DOTDOT = 4"

definition set_attr :: "nat \<Rightarrow> (attr \<Rightarrow> attr) \<Rightarrow> files \<Rightarrow> files" where
  "set_attr i f st = st(i := f (st i))"

definition no_dir_links :: "mount option \<Rightarrow> bool" where
  "no_dir_links mp = (case mp of None \<Rightarrow> True | Some mt \<Rightarrow> conf mt AND PC_LINK_DIR = 0)"

section \<open>Linking\<close>

text \<open>What the message asks for: an error, or the client.\<close>

definition link_allowed :: "nat + client \<Rightarrow> connect option \<Rightarrow> attr \<Rightarrow> mount option \<Rightarrow> client option \<Rightarrow> nat + client option" where
  "link_allowed ci msg a mp info =
     (case msg of
        None \<Rightarrow> Inr info
      | Some msg \<Rightarrow>
          (case link_client ci (con_ioflag msg) info of
             Inl status \<Rightarrow> Inl status
           | Inr info1 \<Rightarrow>
               if S_ISDIR (mode a) \<and> no_dir_links mp then Inl EPERM
               else if S_ISDIR (mode a) \<and> iofunc_check_access a 0 info1 \<noteq> EOK then Inl (iofunc_check_access a 0 info1)
               else Inr info1))"

text \<open>The assignments once the directory \<open>d\<close> has admitted an entry of mode \<open>m\<close> and become \<open>d1\<close>.\<close>

definition link_update :: "nat \<Rightarrow> nat \<Rightarrow> attr \<Rightarrow> 32 word \<Rightarrow> files \<Rightarrow> files" where
  "link_update i d d1 m st =
     (let st1 = set_attr i (mode_update (\<lambda>_. m)) (st(d := d1));
          st2 = (if mode (st i) \<noteq> m then set_attr i (flags_update (\<lambda>f. f OR ATTR_DIRTY_MODE)) st1 else st1);
          st3 = (if S_ISDIR m then set_attr d (flags_update (\<lambda>f. f OR ATTR_DIRTY_NLINK) \<circ> nlink_update (\<lambda>n. n + 1)) st2 else st2);
          st4 = set_attr d (flags_update (\<lambda>f. f OR time_flags)) st3;
          st5 = set_attr i (nlink_update (\<lambda>n. if S_ISDIR m then n + 1 + 1 else n + 1)) st4
      in set_attr i (flags_update (\<lambda>f. f OR (ATTR_DIRTY_NLINK OR ATTR_DIRTY_TIME OR ATTR_CTIME))) st5)"

definition iofunc_link :: "nat + client \<Rightarrow> connect option \<Rightarrow> nat \<Rightarrow> nat \<Rightarrow> client option \<Rightarrow> files \<Rightarrow> nat \<times> files" where
  "iofunc_link ci msg i d info st =
     (if i = 0 \<or> d = 0 then (EBADFSYS, st)
      else
        let mountp = (if mount (st i) = None then mount (st d) else mount (st i)) in
        case link_allowed ci msg (st i) mountp info of
          Inl status \<Rightarrow> (status, st)
        | Inr info1 \<Rightarrow>
            let (status, d1, m) = iofunc_create (st d) (mode (st i)) mountp info1 in
            if status \<noteq> EOK then (status, st) else (EOK, link_update i d d1 m st))"

section \<open>Unlinking\<close>

definition unlink_allowed :: "nat + client \<Rightarrow> connect option \<Rightarrow> attr \<Rightarrow> mount option \<Rightarrow> client option \<Rightarrow> nat + client option" where
  "unlink_allowed ci msg a mp info =
     (case msg of
        None \<Rightarrow> Inr info
      | Some msg \<Rightarrow>
          (case link_client ci (con_ioflag msg) info of
             Inl status \<Rightarrow> Inl status
           | Inr info1 \<Rightarrow>
               if S_ISDIR (con_mode msg) then
                 (if \<not> S_ISDIR (mode a) then Inl ENOTDIR
                  else if con_eflag msg AND EFLAG_DOTDOT \<noteq> 0 then Inl EEXIST
                  else if con_eflag msg AND EFLAG_DOT \<noteq> 0 then Inl EINVAL
                  else if 2 < nlink a then Inl ENOTEMPTY
                  else Inr info1)
               else if S_ISDIR (mode a) \<and> no_dir_links mp then Inl EPERM
               else if S_ISDIR (mode a) \<and> iofunc_check_access a 0 info1 \<noteq> EOK then Inl (iofunc_check_access a 0 info1)
               else Inr info1))"

text \<open>Who may remove an entry: in a sticky directory the owners and who may write the file.\<close>

definition may_remove :: "attr \<Rightarrow> attr option \<Rightarrow> client option \<Rightarrow> nat" where
  "may_remove a dattr info =
     (case dattr of
        None \<Rightarrow> if iofunc_check_access a S_IWRITE info \<noteq> EOK \<and> iofunc_check_access a S_ISUID info \<noteq> EOK then EPERM else EOK
      | Some d \<Rightarrow>
          if mode d AND S_ISVTX \<noteq> 0 then
            (if iofunc_check_access a S_IWRITE info \<noteq> EOK \<and> iofunc_check_access a S_ISUID info \<noteq> EOK
                \<and> iofunc_check_access d S_ISUID info \<noteq> EOK then EPERM else EOK)
          else iofunc_check_access d S_IWRITE info)"

definition unlink_update :: "nat \<Rightarrow> nat \<Rightarrow> bool \<Rightarrow> files \<Rightarrow> files" where
  "unlink_update i d dir st =
     (let st1 = (if d \<noteq> 0 \<and> dir then set_attr d (flags_update (\<lambda>f. f OR ATTR_DIRTY_NLINK) \<circ> nlink_update (\<lambda>n. n - 1)) st else st);
          st2 = (if d \<noteq> 0 then set_attr d (flags_update (\<lambda>f. f OR time_flags)) st1 else st1);
          st3 = set_attr i (nlink_update (\<lambda>n. if dir then n - 1 - 1 else n - 1)) st2
      in set_attr i (flags_update (\<lambda>f. f OR (ATTR_DIRTY_NLINK OR ATTR_DIRTY_TIME OR ATTR_CTIME))) st3)"

definition iofunc_unlink :: "nat + client \<Rightarrow> connect option \<Rightarrow> nat \<Rightarrow> nat \<Rightarrow> client option \<Rightarrow> files \<Rightarrow> nat \<times> files" where
  "iofunc_unlink ci msg i d info st =
     (if i = 0 \<or> d \<noteq> 0 \<and> \<not> S_ISDIR (mode (st d)) then (EBADFSYS, st)
      else
        let mountp = (if mount (st i) = None then (if d = 0 then None else mount (st d)) else mount (st i)) in
        case unlink_allowed ci msg (st i) mountp info of
          Inl status \<Rightarrow> (status, st)
        | Inr info1 \<Rightarrow>
            let dir = S_ISDIR (mode (st i));
                status = may_remove (st i) (if d = 0 then None else Some (st d)) info1
            in
            if status \<noteq> EOK then (status, st)
            else if nlink (st i) < (if dir then 2 else 1) then (EBADFSYS, st)
            else if readonly mountp then (EROFS, st)
            else if d \<noteq> 0 \<and> dir \<and> nlink (st d) < 1 then (EBADFSYS, st)
            else (EOK, unlink_update i d dir st))"

section \<open>Renaming\<close>

text \<open>The checks on an existing destination: \<open>None\<close> when it may be replaced.\<close>

definition replace_error :: "connect \<Rightarrow> attr \<Rightarrow> attr \<Rightarrow> nat option" where
  "replace_error msg old new =
     (if S_ISDIR (mode new) then
        (if \<not> S_ISDIR (mode old) then Some EISDIR
         else if con_eflag msg AND EFLAG_DOT \<noteq> 0 then Some EINVAL
         else if 2 < nlink old then Some ENOTEMPTY
         else None)
      else if S_ISDIR (mode old) then Some ENOTDIR
      else None)"

text \<open>
  The second half: the new entry is linked and the old one unlinked, with the saved attributes put
  back when this fails. \<open>st0\<close> is the state in which \<open>newattr\<close> and \<open>newdattr\<close> were saved.
\<close>

definition rename_move :: "nat + client \<Rightarrow> nat \<Rightarrow> nat \<Rightarrow> nat \<Rightarrow> nat \<Rightarrow> client option \<Rightarrow> files \<Rightarrow> files \<Rightarrow> nat \<times> files" where
  "rename_move ci old oldd new newd info st0 st1 =
     (let restore = (\<lambda>st. (if new \<noteq> 0 then st(new := st0 new) else st)(newd := st0 newd));
          (status, st2) = iofunc_link ci None old newd info st1
      in
      if status \<noteq> EOK then (status, restore st2)
      else
        let (status, st3) = iofunc_unlink ci None old oldd info st2 in
        if status \<noteq> EOK then (status, restore (st3(old := st1 old))) else (EOK, st3))"

definition iofunc_rename :: "nat + client \<Rightarrow> connect \<Rightarrow> nat \<Rightarrow> nat \<Rightarrow> nat \<Rightarrow> nat \<Rightarrow> client option \<Rightarrow> files \<Rightarrow> nat \<times> files" where
  "iofunc_rename ci msg old oldd new newd info st =
     (if old = 0 \<or> oldd = 0 \<or> newd = 0 then (EBADFSYS, st)
      else if old = newd then (EINVAL, st)
      else case link_client ci (con_ioflag msg) info of
        Inl status \<Rightarrow> (status, st)
      | Inr info1 \<Rightarrow>
          if new = 0 then rename_move ci old oldd new newd info1 st st
          else if new = old then (EOK, st)
          else (case replace_error msg (st old) (st new) of
                  Some err \<Rightarrow> (err, st)
                | None \<Rightarrow>
                    let (status, st1) = iofunc_unlink ci None new newd info1 st in
                    if status \<noteq> EOK then (status, st1) else rename_move ci old oldd new newd info1 st st1))"

end
