(* ===== verification/Iofunc_Access.thy ===== *)
theory Iofunc_Access
  imports Iofunc_Link
begin

text \<open>
  Permissions: the bits that the check looks at, the decision as POSIX words it, and what the
  operations that rest on it leave behind when the client is not root.
\<close>

lemma bit_test: "(x :: 32 word) AND 2 ^ n \<noteq> 0 \<longleftrightarrow> bit x n"
  by (simp add: and_exp_eq_0_iff_not_bit)

lemmas bits32 = bit_eq_iff[where 'a = "32 word"]

lemma S_IRWXU_bits: "S_IRWXU = 2 ^ 6 OR 2 ^ 7 OR 2 ^ 8"
  by (simp add: S_IRWXU_def)

lemma bit_S_IRWXU: "bit S_IRWXU n \<longleftrightarrow> n \<in> {6, 7, 8}"
  unfolding S_IRWXU_bits bit_or_iff bit_exp_iff by auto

lemma S_ISUID_test: "x AND S_ISUID \<noteq> 0 \<longleftrightarrow> bit x 11"
  using bit_test[of x 11] by (simp add: S_ISUID_def)

lemma S_ISGID_test: "x AND S_ISGID \<noteq> 0 \<longleftrightarrow> bit x 10"
  using bit_test[of x 10] by (simp add: S_ISGID_def)

lemma rwx_eq: "p AND S_IRWXU = q AND S_IRWXU \<longleftrightarrow> (\<forall>b\<in>{6, 7, 8}. bit p b = bit q b)"
proof
  assume e: "p AND S_IRWXU = q AND S_IRWXU"
  have "bit p b = bit q b" if "b \<in> {6, 7, 8}" for b
    using arg_cong[OF e, of "\<lambda>w. bit w b"] that by (auto simp: bit_and_iff bit_S_IRWXU)
  then show "\<forall>b\<in>{6, 7, 8}. bit p b = bit q b" by blast
qed (auto simp: bits32 bit_and_iff bit_S_IRWXU)

lemma rwx_zero: "x AND S_IRWXU = 0 \<longleftrightarrow> (\<forall>b\<in>{6, 7, 8}. \<not> bit x b)"
  using rwx_eq[of x 0] by simp

lemma rwx_subset: "m AND (x AND S_IRWXU) = x AND S_IRWXU \<longleftrightarrow> (\<forall>b\<in>{6, 7, 8}. bit x b \<longrightarrow> bit m b)"
  using rwx_eq[of "m AND x" x] by (auto simp: and.assoc bit_and_iff)

definition in_group :: "'a attr_scheme \<Rightarrow> client \<Rightarrow> bool" where
  "in_group a c \<longleftrightarrow> gid a = egid c \<or> gid a \<in> set (grouplist c)"

definition class_shift :: "'a attr_scheme \<Rightarrow> client \<Rightarrow> nat" where
  "class_shift a c = (if euid c = uid a then 0 else if in_group a c then 3 else 6)"

definition permits :: "'a attr_scheme \<Rightarrow> client \<Rightarrow> 32 word \<Rightarrow> bool" where
  "permits a c check \<longleftrightarrow>
     euid c = 0 \<or> bit check 11 \<and> euid c = uid a \<or> bit check 10 \<and> in_group a c
     \<or> (\<exists>b\<in>{6, 7, 8}. bit check b) \<and> (\<forall>b\<in>{6, 7, 8}. bit check b \<longrightarrow> bit (mode a) (b - class_shift a c))"

lemma shifted_bits: "k \<in> {0, 3, 6} \<Longrightarrow> (\<forall>b\<in>{6, 7, 8}. bit x b \<longrightarrow> bit (push_bit k (m :: 32 word)) b) \<longleftrightarrow> (\<forall>b\<in>{6, 7, 8}. bit x b \<longrightarrow> bit m (b - k))"
  by (auto simp: bit_push_bit_iff)

lemma check_access_shift:
  "iofunc_check_access a check (Some c) =
     (if euid c = 0 \<or> check AND S_ISUID \<noteq> 0 \<and> euid c = uid a \<or> check AND S_ISGID \<noteq> 0 \<and> in_group a c then EOK
      else if check AND S_IRWXU = 0 then EPERM
      else if push_bit (class_shift a c) (mode a) AND (check AND S_IRWXU) = check AND S_IRWXU then EOK else EACCES)"
  by (auto simp: iofunc_check_access_def class_shift_def in_group_def Let_def)

lemma check_access_permits: "iofunc_check_access a check (Some c) = EOK \<longleftrightarrow> permits a c check"
proof -
  have k: "class_shift a c \<in> {0, 3, 6}" by (simp add: class_shift_def)
  show ?thesis
    unfolding check_access_shift permits_def S_ISUID_test S_ISGID_test rwx_zero rwx_subset shifted_bits[OF k]
    by (auto simp: EOK_def EPERM_def EACCES_def)
qed

lemma check_access_root: "iofunc_check_access a 0 (Some c) = EOK \<longleftrightarrow> euid c = 0"
  by (simp add: check_access_permits permits_def)

definition acting :: "ocb \<Rightarrow> client \<Rightarrow> client" where
  "acting oc c = (if ioflag oc AND O_REALIDS \<noteq> 0 then c\<lparr>ruid := euid c, euid := ruid c, rgid := egid c, egid := rgid c\<rparr> else c)"

lemma client_info_acting: "iofunc_client_info (Inr c) (ioflag oc) = Inr (acting oc c)"
  by (simp add: iofunc_client_info_def acting_def)

lemma masked_off: "((m :: 32 word) AND NOT k) AND k = 0"
  by (auto simp: bits32 bit_and_iff bit_not_iff)

lemma masked_off_both: "((m :: 32 word) AND NOT p AND NOT q) AND (p OR q) = 0"
  by (auto simp: bits32 bit_and_iff bit_or_iff bit_not_iff)

lemma mode_flags_swap [simp]: "mode (a\<lparr>flags := f\<rparr>) = mode a" "mode (a\<lparr>mode := m, flags := f\<rparr>) = m"
  by simp_all

lemma knock_down_user:
  assumes "knock_down (Inr c) oc a = (s, a1)" "euid (acting oc c) \<noteq> 0" "mode a AND execs \<noteq> 0"
  shows "mode a1 AND set_ids = 0"
  using assms check_access_root[of a "acting oc c"]
  by (auto simp: knock_down_def client_info_acting masked_off split: if_splits)

lemma write_verify_user:
  assumes "iofunc_write_verify (Inr c) xtype xoff n oc a = Some (EOK, n1, nb, oc1, a1)" "n1 \<noteq> 0"
    "euid (acting oc c) \<noteq> 0" "mode a AND execs \<noteq> 0"
  shows "mode a1 AND set_ids = 0"
proof -
  obtain s where "knock_down (Inr c) oc a = (s, a1)"
    using assms(1,2) by (auto simp: iofunc_write_verify_def EOK_def EBADF_def EROFS_def EISDIR_def EFBIG_def write_room_def Let_def bind_eq_Some_conv split: if_splits sum.splits prod.splits)
  then show ?thesis using knock_down_user assms(3,4) by blast
qed

lemma space_verify_user:
  assumes "iofunc_space_verify (Inr c) msg oc a = (EOK, nb, a1)" "euid (acting oc c) \<noteq> 0" "mode a AND execs \<noteq> 0"
  shows "mode a1 AND set_ids = 0"
proof -
  obtain s where "knock_down (Inr c) oc a = (s, a1)"
    using assms(1) by (auto simp: iofunc_space_verify_def EOK_def EBADF_def EROFS_def EISDIR_def EFBIG_def split: if_splits prod.splits)
  then show ?thesis using knock_down_user assms(2,3) by blast
qed

lemma chown_done:
  assumes "iofunc_chown (Inr c) u g oc a = (EOK, a1)"
  obtains v h where "chown_status (acting oc c) v h a = EOK" "a1 = chown_change (acting oc c) v h a"
  using assms that by (auto simp: iofunc_chown_def client_info_acting Let_def split: if_splits)

lemma chown_change_user:
  assumes "euid c \<noteq> 0" "mode a AND execs \<noteq> 0" "\<not> S_ISDIR (mode a)"
  shows "mode (chown_change c u g a) AND (S_ISUID OR S_ISGID) = 0"
  using assms by (simp add: chown_change_def Let_def masked_off_both)

lemma chown_change_ids: "uid (chown_change c u g a) = u" "gid (chown_change c u g a) = g"
  by (simp_all add: chown_change_def Let_def)

definition chown_restricted :: "'a attr_scheme \<Rightarrow> bool" where
  "chown_restricted a = (case mount a of None \<Rightarrow> True | Some mt \<Rightarrow> conf mt AND PC_CHOWN_RESTRICTED \<noteq> 0)"

lemma chown_status_user:
  assumes "chown_status c u g a = EOK" "euid c \<noteq> 0" "chown_restricted a"
  shows "euid c = uid a \<and> u = uid a \<and> (g = egid c \<or> g \<in> set (grouplist c))"
  using assms check_access_root[of a c] unfolding chown_status_def chown_restricted_def[symmetric] by (auto simp: Let_def split: if_splits)

end
