(* ===== verification/Iofunc_Share.thy ===== *)
theory Iofunc_Share
  imports Iofunc_Access
begin

text \<open>
  Share modes: a file with its open control blocks under every operation that opens, closes or
  changes them, the interface between a counter and the blocks it counts, and its five instances.
\<close>

definition reads :: "ocb \<Rightarrow> bool" where "reads oc \<longleftrightarrow> ioflag oc AND IO_FLAG_RD \<noteq> 0"
definition writes :: "ocb \<Rightarrow> bool" where "writes oc \<longleftrightarrow> ioflag oc AND IO_FLAG_WR \<noteq> 0"

definition close_ocb :: "nat \<Rightarrow> ocb list \<Rightarrow> ocb list" where
  "close_ocb i os = take i os @ drop (Suc i) os"

text \<open>
  One step of a file: its open control blocks and its attributes. Memory mappings, which count as
  blocks but are made without asking for share modes, are not among the steps. A file that nobody
  has open may also be made anew by a creating open (\<open>made\<close>), which sets its attributes up.
\<close>

inductive share_step :: "ocb list \<times> attr \<Rightarrow> ocb list \<times> attr \<Rightarrow> bool" where
  opened: "iofunc_open gu gg msg (Some a) None info = Some (EOK, msg1, Some a1, None)
     \<Longrightarrow> iofunc_ocb_attach alloc None given msg1 a1 = (EOK, Some oc, a2) \<Longrightarrow> length os < 65535
     \<Longrightarrow> share_step (os, a) (oc # os, a2)"
| made: "iofunc_open gu gg msg (Some a) (Some d) info = Some (EOK, msg1, Some a1, d1)
     \<Longrightarrow> iofunc_ocb_attach alloc None given msg1 a1 = (EOK, Some oc, a2) \<Longrightarrow> share_step ([], a) ([oc], a2)"
| unbound: "iofunc_open gu gg msg (Some a) None info = Some (EOK, msg1, Some a1, None)
     \<Longrightarrow> iofunc_ocb_attach alloc bound given msg1 a1 = (err, r, a2) \<Longrightarrow> err \<noteq> EOK \<Longrightarrow> share_step (os, a) (os, a2)"
| refused: "iofunc_open gu gg msg (Some a) None info = Some (err, msg1, Some a1, None) \<Longrightarrow> err \<noteq> EOK \<Longrightarrow> share_step (os, a) (os, a1)"
| duplicated: "first \<in> set os \<Longrightarrow> iofunc_openfd alloc None fl sf first a = (EOK, Some oc, a1) \<Longrightarrow> length os < 65535
     \<Longrightarrow> share_step (os, a) (oc # os, a1)"
| closed: "i < length os \<Longrightarrow> iofunc_ocb_detach clock self (os ! i) a = (lastfl, a1) \<Longrightarrow> share_step (os, a) (close_ocb i os, a1)"
| controlled: "i < length os \<Longrightarrow> iofunc_devctl dc (os ! i) a = (r, oc) \<Longrightarrow> share_step (os, a) (os[i := oc], a)"
| chmoded: "i < length os \<Longrightarrow> iofunc_chmod ci m (os ! i) a = (r, a1) \<Longrightarrow> share_step (os, a) (os, a1)"
| chowned: "i < length os \<Longrightarrow> iofunc_chown ci u g (os ! i) a = (r, a1) \<Longrightarrow> share_step (os, a) (os, a1)"

text \<open>What opening an existing file leaves: the counters, and a request that kept its access.\<close>

definition same_counts :: "attr \<Rightarrow> attr \<Rightarrow> bool" where
  "same_counts a b \<longleftrightarrow> use_count a = use_count b \<and> rcount a = rcount b \<and> wcount a = wcount b \<and> rlocks a = rlocks b \<and> wlocks a = wlocks b"

lemma same_counts_refl [simp]: "same_counts a a"
  by (simp add: same_counts_def)

lemma open_existing_counts: "same_counts (snd (snd (open_existing msg a info))) a"
  by (simp add: open_existing_def Let_def same_counts_def)

lemma open_counts:
  assumes "iofunc_open gu gg msg (Some a) None info = Some (e, msg1, Some a1, None)"
  shows "same_counts a1 a"
  using assms open_existing_counts[of msg a info]
  by (auto simp: iofunc_open_def Let_def split: if_splits prod.splits)

lemma open_ok_existing:
  assumes "iofunc_open gu gg msg (Some a) None info = Some (EOK, msg1, Some a1, None)"
  shows "open_existing msg a info = (EOK, msg1, a1)"
  using assms by (auto simp: iofunc_open_def Let_def EOK_def EINVAL_def split: if_splits prod.splits)

lemma open_made:
  assumes "iofunc_open gu gg msg (Some a) (Some d) info = Some (EOK, msg1, Some a1, d1)"
  shows "\<exists>m (dd :: attr). a1 = iofunc_attr_init gu gg m (Some dd) info"
  using assms by (auto simp: iofunc_open_def Let_def EOK_def EINVAL_def ENOENT_def split: if_splits prod.splits)

lemma disjoint_bits: "(k :: 32 word) AND t = 0 \<Longrightarrow> bit k n \<Longrightarrow> \<not> bit t n"
  using bit_and_iff[of k t n] by simp

lemma granted_trunc:
  assumes "k AND O_TRUNC = 0"
  shows "granted_flags (msg\<lparr>con_ioflag := con_ioflag msg AND NOT O_TRUNC\<rparr>) AND k = granted_flags msg AND k"
proof (rule bit_word_eqI)
  fix n :: nat
  assume "n < LENGTH(32)"
  then show "bit (granted_flags (msg\<lparr>con_ioflag := con_ioflag msg AND NOT O_TRUNC\<rparr>) AND k) n = bit (granted_flags msg AND k) n"
    using disjoint_bits[OF assms, of n] by (auto simp: granted_flags_def bit_and_iff bit_not_iff)
qed

lemma open_existing_ok:
  assumes "open_existing msg a info = (EOK, msg1, a1)"
  shows "granted_flags msg1 AND IO_FLAG_RD = granted_flags msg AND IO_FLAG_RD" "granted_flags msg1 AND IO_FLAG_WR = granted_flags msg AND IO_FLAG_WR"
    "con_sflag msg1 = con_sflag msg"
    "reads (new_ocb msg1) \<Longrightarrow> rlocks a = 0" "writes (new_ocb msg1) \<Longrightarrow> wlocks a = 0"
    "denies_read (sflag (new_ocb msg1)) \<Longrightarrow> rcount a = 0" "denies_write (sflag (new_ocb msg1)) \<Longrightarrow> wcount a = 0"
proof -
  have m: "msg1 = msg \<or> msg1 = msg\<lparr>con_ioflag := con_ioflag msg AND NOT O_TRUNC\<rparr>"
    using assms by (auto simp: open_existing_def Let_def split: if_splits)
  show rd: "granted_flags msg1 AND IO_FLAG_RD = granted_flags msg AND IO_FLAG_RD" and wr: "granted_flags msg1 AND IO_FLAG_WR = granted_flags msg AND IO_FLAG_WR"
    and sf: "con_sflag msg1 = con_sflag msg"
    using m granted_trunc[of IO_FLAG_RD msg] granted_trunc[of IO_FLAG_WR msg] by (auto simp: IO_FLAG_RD_def IO_FLAG_WR_def O_TRUNC_def)
  have "\<not> share_conflict msg a"
    using assms by (auto simp: open_existing_def Let_def EOK_def EBUSY_def split: if_splits)
  then show "reads (new_ocb msg1) \<Longrightarrow> rlocks a = 0" "writes (new_ocb msg1) \<Longrightarrow> wlocks a = 0"
    "denies_read (sflag (new_ocb msg1)) \<Longrightarrow> rcount a = 0" "denies_write (sflag (new_ocb msg1)) \<Longrightarrow> wcount a = 0"
    by (auto simp: share_conflict_def reads_def writes_def new_ocb_def rd wr sf)
qed

lemma attach_ok: "iofunc_ocb_attach alloc None given msg a = (EOK, Some oc, a1) \<Longrightarrow> oc = new_ocb msg \<and> a1 = count_open oc a"
  by (auto simp: iofunc_ocb_attach_def Let_def split: option.splits bool.splits)

lemma attach_failed: "iofunc_ocb_attach alloc bound given msg a = (e, r, a1) \<Longrightarrow> e \<noteq> EOK \<Longrightarrow> a1 = a"
  by (auto simp: iofunc_ocb_attach_def Let_def split: option.splits bool.splits)

lemma openfd_ok:
  assumes "iofunc_openfd alloc None fl sf first a = (EOK, Some oc, a1)"
  obtains msg msg1 b where "open_existing msg a None = (EOK, msg1, b)" "oc = new_ocb msg1" "a1 = count_open oc b"
  using assms that attach_ok
  by (fastforce simp: iofunc_openfd_def Let_def EOK_def EACCES_def EINVAL_def split: if_splits prod.splits)

lemma chmod_counts: "same_counts (snd (iofunc_chmod ci m oc a)) a"
  by (simp add: iofunc_chmod_def Let_def same_counts_def split: sum.splits)

lemma chown_counts: "same_counts (snd (iofunc_chown ci u g oc a)) a"
  by (simp add: iofunc_chown_def chown_change_def Let_def same_counts_def split: sum.splits)

lemma setflag_access:
  assumes "k AND O_SETFLAG = 0"
  shows "((x AND NOT O_SETFLAG) OR (y AND O_SETFLAG)) AND k = x AND k"
proof (rule bit_word_eqI)
  fix n :: nat
  assume "n < LENGTH(32)"
  then show "bit (((x AND NOT O_SETFLAG) OR (y AND O_SETFLAG)) AND k) n = bit (x AND k) n"
    using disjoint_bits[OF assms, of n] by (auto simp: bit_and_iff bit_or_iff bit_not_iff)
qed

lemma devctl_access:
  assumes "iofunc_devctl dc oc a = (r, oc1)"
  shows "reads oc1 = reads oc \<and> writes oc1 = writes oc \<and> sflag oc1 = sflag oc"
proof -
  have "IO_FLAG_RD AND O_SETFLAG = 0" "IO_FLAG_WR AND O_SETFLAG = 0"
    by (simp_all add: IO_FLAG_RD_def IO_FLAG_WR_def O_SETFLAG_def O_NONBLOCK_def O_APPEND_def O_DSYNC_def O_RSYNC_def O_SYNC_def O_LARGEFILE_def)
  then show ?thesis
    using assms setflag_access[of IO_FLAG_RD] setflag_access[of IO_FLAG_WR]
    by (auto simp: iofunc_devctl_def reads_def writes_def split: dcmd.splits if_splits)
qed

text \<open>
  The interface between the counters of a file and its open control blocks: a counter \<open>get\<close> goes
  with a property \<open>P\<close> of blocks when opening adds one and closing takes one for a block with it.
\<close>

locale tracked =
  fixes get :: "attr \<Rightarrow> 16 word" and P :: "ocb \<Rightarrow> bool"
  assumes counts_open: "get (count_open oc a) = get a + (if P oc then 1 else 0)"
    and counts_close: "get (snd (iofunc_ocb_detach clock self oc a)) = get a - (if P oc then 1 else 0)"
    and control: "iofunc_devctl dc oc a = (r, oc1) \<Longrightarrow> P oc1 = P oc"
    and steady: "same_counts a b \<Longrightarrow> get a = get b"
    and fresh: "get (iofunc_attr_init gu gg m (d :: attr option) info) = 0"
begin

definition exact :: "ocb list \<times> attr \<Rightarrow> bool" where
  "exact s \<longleftrightarrow> get (snd s) = of_nat (length (filter P (fst s)))"

lemma filter_close: "i < length os \<Longrightarrow> length (filter P os) = length (filter P (close_ocb i os)) + (if P (os ! i) then 1 else 0)"
  by (subst id_take_nth_drop[of i os]) (simp_all add: close_ocb_def)

lemma filter_control:
  assumes "i < length os" "P oc = P (os ! i)"
  shows "length (filter P (os[i := oc])) = length (filter P os)"
proof -
  have "filter P os = filter P (take i os) @ filter P [os ! i] @ filter P (drop (Suc i) os)"
    by (subst id_take_nth_drop[OF assms(1)]) simp
  then show ?thesis using assms by (simp add: upd_conv_take_nth_drop)
qed

lemma exact_count: "exact (os, a) \<Longrightarrow> same_counts b a \<Longrightarrow> exact (oc # os, count_open oc b)"
  using steady by (auto simp: exact_def counts_open)

lemma exact_step: "share_step s s' \<Longrightarrow> exact s \<Longrightarrow> exact s'"
proof (induction rule: share_step.induct)
  case (opened gu gg msg a info msg1 a1 alloc given oc a2 os)
  then show ?case using exact_count[OF _ open_counts[OF opened(1)]] attach_ok[OF opened(2)] by simp
next
  case (made gu gg msg a d info msg1 a1 d1 alloc given oc a2)
  obtain m and dd :: attr where "a1 = iofunc_attr_init gu gg m (Some dd) info" using open_made[OF made(1)] by blast
  then show ?case using fresh attach_ok[OF made(2)] by (simp add: exact_def counts_open)
next
  case (unbound gu gg msg a info msg1 a1 alloc bound given err r a2 os)
  then show ?case using steady[OF open_counts[OF unbound(1)]] attach_failed[OF unbound(2,3)] by (simp add: exact_def)
next
  case (refused gu gg msg a info err msg1 a1 os)
  then show ?case using steady[OF open_counts[OF refused(1)]] by (simp add: exact_def)
next
  case (duplicated first os alloc fl sf a oc a1)
  obtain msg msg1 b where "open_existing msg a None = (EOK, msg1, b)" "a1 = count_open oc b" using openfd_ok[OF duplicated(2)] .
  then show ?case using exact_count[of os a b oc] duplicated(4) open_existing_counts[of msg a None] by simp
next
  case (closed i os clock self a lastfl a1)
  have "get a1 = get a - (if P (os ! i) then 1 else 0)" using counts_close[of clock self "os ! i" a] closed(2) by simp
  then show ?case using closed(3) filter_close[OF closed(1)] by (simp add: exact_def)
next
  case (controlled i os dc a r oc)
  then show ?case using filter_control[OF controlled(1) control[OF controlled(2)]] by (simp add: exact_def)
next
  case (chmoded i os ci m a r a1)
  then show ?case using steady[OF chmod_counts[of ci m "os ! i" a]] by (simp add: exact_def)
next
  case (chowned i os ci u g a r a1)
  then show ?case using steady[OF chown_counts[of ci u g "os ! i" a]] by (simp add: exact_def)
qed

lemma none_open: "exact (os, a) \<Longrightarrow> get a = 0 \<Longrightarrow> length os < 65536 \<Longrightarrow> \<forall>oc\<in>set os. \<not> P oc"
proof -
  assume e: "exact (os, a)" "get a = 0" "length os < 65536"
  have n: "length (filter P os) < 2 ^ LENGTH(16)" using le_less_trans[OF length_filter_le e(3)] by simp
  have "(of_nat (length (filter P os)) :: 16 word) = 0" using e by (simp add: exact_def)
  moreover have "unat (of_nat (length (filter P os)) :: 16 word) = length (filter P os)" using n unfolding unat_of_nat by simp
  ultimately have "length (filter P os) = 0" by simp
  then show ?thesis by (simp add: filter_empty_conv)
qed

end

lemma detach_counters:
  "wcount (snd (iofunc_ocb_detach clock self oc a)) = wcount a - (if writes oc then 1 else 0)"
  "rcount (snd (iofunc_ocb_detach clock self oc a)) = rcount a - (if reads oc then 1 else 0)"
  "rlocks (snd (iofunc_ocb_detach clock self oc a)) = rlocks a - (if denies_read (sflag oc) then 1 else 0)"
  "wlocks (snd (iofunc_ocb_detach clock self oc a)) = wlocks a - (if denies_write (sflag oc) then 1 else 0)"
  "use_count (snd (iofunc_ocb_detach clock self oc a)) = use_count a - 1"
  by (simp_all add: iofunc_ocb_detach_def iofunc_time_update_def Let_def reads_def writes_def)

lemma attach_counters:
  "wcount (count_open oc a) = wcount a + (if writes oc then 1 else 0)"
  "rcount (count_open oc a) = rcount a + (if reads oc then 1 else 0)"
  "rlocks (count_open oc a) = rlocks a + (if denies_read (sflag oc) then 1 else 0)"
  "wlocks (count_open oc a) = wlocks a + (if denies_write (sflag oc) then 1 else 0)"
  "use_count (count_open oc a) = use_count a + 1"
  by (simp_all add: count_open_def reads_def writes_def)

lemma init_counters:
  "wcount (iofunc_attr_init gu gg m d info) = 0" "rcount (iofunc_attr_init gu gg m d info) = 0"
  "rlocks (iofunc_attr_init gu gg m d info) = 0" "wlocks (iofunc_attr_init gu gg m d info) = 0"
  "use_count (iofunc_attr_init gu gg m d info) = 0"
  by (simp_all add: iofunc_attr_init_def Let_def)

interpretation readers: tracked rcount reads
  by unfold_locales (auto simp: detach_counters attach_counters same_counts_def init_counters dest: devctl_access)

interpretation writers: tracked wcount writes
  by unfold_locales (auto simp: detach_counters attach_counters same_counts_def init_counters dest: devctl_access)

interpretation read_deniers: tracked rlocks "\<lambda>oc. denies_read (sflag oc)"
  by unfold_locales (auto simp: detach_counters attach_counters same_counts_def init_counters dest: devctl_access)

interpretation write_deniers: tracked wlocks "\<lambda>oc. denies_write (sflag oc)"
  by unfold_locales (auto simp: detach_counters attach_counters same_counts_def init_counters dest: devctl_access)

interpretation users: tracked use_count "\<lambda>oc. True"
  by unfold_locales (auto simp: detach_counters attach_counters same_counts_def init_counters)

definition compatible :: "ocb \<Rightarrow> ocb \<Rightarrow> bool" where
  "compatible p q \<longleftrightarrow> \<not> (denies_read (sflag p) \<and> reads q) \<and> \<not> (denies_write (sflag p) \<and> writes q)
     \<and> \<not> (denies_read (sflag q) \<and> reads p) \<and> \<not> (denies_write (sflag q) \<and> writes p)"

definition counters_exact :: "ocb list \<times> attr \<Rightarrow> bool" where
  "counters_exact s \<longleftrightarrow> length (fst s) < 65536 \<and> readers.exact s \<and> writers.exact s \<and> read_deniers.exact s \<and> write_deniers.exact s \<and> users.exact s"

lemma compatible_swap: "compatible p q = compatible q p"
  by (auto simp: compatible_def)

lemma newcomer_compatible:
  assumes "open_existing msg a info = (EOK, msg1, a1)" "counters_exact (os, a)"
  shows "\<forall>oc\<in>set os. compatible (new_ocb msg1) oc"
proof -
  note ok = open_existing_ok(4-7)[OF assms(1)]
  have x: "length os < 65536" "readers.exact (os, a)" "writers.exact (os, a)" "read_deniers.exact (os, a)" "write_deniers.exact (os, a)"
    using assms(2) by (simp_all add: counters_exact_def)
  show ?thesis
    using ok readers.none_open[OF x(2) _ x(1)] writers.none_open[OF x(3) _ x(1)]
      read_deniers.none_open[OF x(4) _ x(1)] write_deniers.none_open[OF x(5) _ x(1)]
    unfolding compatible_def by blast
qed

lemma share_step_length: "share_step s s' \<Longrightarrow> length (fst s) < 65536 \<Longrightarrow> length (fst s') < 65536"
  by (induction rule: share_step.induct) (auto simp: close_ocb_def)

lemma counters_step: "share_step s s' \<Longrightarrow> counters_exact s \<Longrightarrow> counters_exact s'"
  unfolding counters_exact_def
  using share_step_length readers.exact_step writers.exact_step read_deniers.exact_step write_deniers.exact_step users.exact_step by blast

lemma sorted_wrt_control:
  assumes "sorted_wrt compatible os" "i < length os" "\<And>r. compatible oc r = compatible (os ! i) r"
  shows "sorted_wrt compatible (os[i := oc])"
  using assms compatible_swap unfolding sorted_wrt_iff_nth_less by (metis length_list_update nth_list_update_eq nth_list_update_neq)

lemma sorted_wrt_close: "sorted_wrt R os \<Longrightarrow> sorted_wrt R (close_ocb i os)"
  unfolding close_ocb_def using sorted_wrt_append[of R "take i os" "drop i os"]
  by (auto simp: sorted_wrt_append sorted_wrt_drop dest: in_set_dropD) (metis append_take_drop_id drop_Suc drop_drop in_set_dropD plus_1_eq_Suc)

lemma share_step_compatible: "share_step s s' \<Longrightarrow> counters_exact s \<Longrightarrow> sorted_wrt compatible (fst s) \<Longrightarrow> sorted_wrt compatible (fst s')"
proof (induction rule: share_step.induct)
  case (opened gu gg msg a info msg1 a1 alloc given oc a2 os)
  then show ?case using newcomer_compatible[OF open_ok_existing[OF opened(1)]] attach_ok[OF opened(2)] by simp
next
  case (duplicated first os alloc fl sf a oc a1)
  obtain msg msg1 b where "open_existing msg a None = (EOK, msg1, b)" "oc = new_ocb msg1" using openfd_ok[OF duplicated(2)] .
  then show ?case using newcomer_compatible duplicated(4,5) by auto
next
  case (controlled i os dc a r oc)
  have "compatible oc q = compatible (os ! i) q" for q using devctl_access[OF controlled(2)] by (simp add: compatible_def)
  then show ?case using sorted_wrt_control[OF _ controlled(1)] controlled(4) by simp
qed (simp_all add: sorted_wrt_close)

text \<open>The handlers of open and close are such steps.\<close>

lemma open_default_step:
  assumes "iofunc_open_default ci gu gg alloc None msg a = Some (EOK, Some oc, a1)" "length os < 65535" "ci \<noteq> Inl EOK"
  shows "share_step (os, a) (oc # os, a1)"
proof -
  obtain c where c: "link_client ci (con_ioflag msg) None = Inr c"
    using assms(1,3) by (auto simp: iofunc_open_default_def iofunc_open_info_def link_client_def iofunc_client_info_def split: sum.splits if_splits)
  obtain msg1 b d where o: "iofunc_open gu gg msg (Some a) None c = Some (EOK, msg1, Some b, d)" "iofunc_ocb_attach alloc None False msg1 b = (EOK, Some oc, a1)"
    using assms(1) c by (auto simp: iofunc_open_default_def iofunc_open_info_def bind_eq_Some_conv split: if_splits)
  have "d = None" using o(1) by (auto simp: iofunc_open_def Let_def split: if_splits prod.splits)
  then show ?thesis using share_step.opened[OF _ o(2) assms(2)] o(1) by blast
qed

lemma close_ocb_step: "i < length os \<Longrightarrow> iofunc_close_ocb clock self (os ! i) a = (st, a1) \<Longrightarrow> share_step (os, a) (close_ocb i os, a1)"
  using share_step.closed[of i os clock self a] by (metis iofunc_close_ocb_def prod.collapse prod.inject)

definition idle :: "attr \<Rightarrow> bool" where
  "idle a \<longleftrightarrow> use_count a = 0 \<and> rcount a = 0 \<and> wcount a = 0 \<and> rlocks a = 0 \<and> wlocks a = 0"

lemma idle_exact: "idle a \<Longrightarrow> counters_exact ([], a)"
  by (simp add: idle_def counters_exact_def readers.exact_def writers.exact_def read_deniers.exact_def write_deniers.exact_def users.exact_def)

lemma share_reach:
  assumes "share_step\<^sup>*\<^sup>* ([], a) s" "idle a"
  shows "counters_exact s \<and> sorted_wrt compatible (fst s)"
  using assms(1)
proof (induction rule: rtranclp_induct)
  case base
  then show ?case using idle_exact[OF assms(2)] by simp
next
  case (step s t)
  then show ?case using counters_step share_step_compatible by blast
qed

end
