(* ===== verification/Iofunc_Rename.thy ===== *)
theory Iofunc_Rename
  imports Iofunc_Share
begin

text \<open>
  Links: what linking and unlinking do to every file of the map, that a failing call changes
  nothing, and the branches of renaming.
\<close>

lemma link_failed: "iofunc_link ci msg i d info st = (s, st1) \<Longrightarrow> s \<noteq> EOK \<Longrightarrow> st1 = st"
  by (auto simp: iofunc_link_def Let_def split: if_splits sum.splits prod.splits)

lemma unlink_failed: "iofunc_unlink ci msg i d info st = (s, st1) \<Longrightarrow> s \<noteq> EOK \<Longrightarrow> st1 = st"
  by (auto simp: iofunc_unlink_def Let_def split: if_splits sum.splits)

lemma set_attr_other [simp]: "k \<noteq> i \<Longrightarrow> set_attr i f st k = st k"
  by (simp add: set_attr_def)

lemma set_attr_at: "set_attr i f st k = (if k = i then f (st i) else st k)"
  by (simp add: set_attr_def)

lemma isdir_setgid: "S_ISDIR (m AND NOT S_ISGID) = S_ISDIR m"
proof -
  have "(m AND NOT S_ISGID) AND S_IFMT = m AND S_IFMT"
    by (simp add: and.assoc S_ISGID_def S_IFMT_def)
  then show ?thesis by (simp add: S_ISDIR_def)
qed

definition link_delta :: "bool \<Rightarrow> nat \<Rightarrow> nat \<Rightarrow> nat \<Rightarrow> 32 word" where
  "link_delta dir i d k = (if dir \<and> k = d then 1 else 0) + (if k = i then (if dir then 2 else 1) else 0)"

lemma create_ok:
  assumes "iofunc_create d m mp info = (EOK, d1, m1)"
  shows "nlink d1 = nlink d" "mode d1 = mode d" "S_ISDIR m1 = S_ISDIR m" "m1 = m \<or> m1 = m AND NOT S_ISGID"
  using assms by (auto simp: iofunc_create_def Let_def EOK_def EBADFSYS_def ENOSYS_def EBUSY_def EROFS_def isdir_setgid split: if_splits)

lemma set_attr_fields [simp]:
  "nlink (set_attr i (flags_update f) st k) = nlink (st k)"
  "nlink (set_attr i (mode_update g) st k) = nlink (st k)"
  "nlink (set_attr i (nlink_update h) st k) = (if k = i then h (nlink (st k)) else nlink (st k))"
  "nlink (set_attr i (flags_update f \<circ> nlink_update h) st k) = (if k = i then h (nlink (st k)) else nlink (st k))"
  "mode (set_attr i (flags_update f) st k) = mode (st k)"
  "mode (set_attr i (mode_update g) st k) = (if k = i then g (mode (st k)) else mode (st k))"
  "mode (set_attr i (nlink_update h) st k) = mode (st k)"
  "mode (set_attr i (flags_update f \<circ> nlink_update h) st k) = mode (st k)"
  by (simp_all add: set_attr_at)

lemma link_update_effect:
  assumes "nlink d1 = nlink (st d)" "mode d1 = mode (st d)" "S_ISDIR m = S_ISDIR (mode (st i))"
  shows "nlink (link_update i d d1 m st k) = nlink (st k) + link_delta (S_ISDIR (mode (st i))) i d k"
    "S_ISDIR (mode (link_update i d d1 m st k)) = S_ISDIR (mode (st k))"
    "k \<noteq> i \<Longrightarrow> k \<noteq> d \<Longrightarrow> link_update i d d1 m st k = st k"
proof -
  note d = link_update_def Let_def
  show "nlink (link_update i d d1 m st k) = nlink (st k) + link_delta (S_ISDIR (mode (st i))) i d k"
    unfolding d assms(3) link_delta_def using assms(1) by (cases "S_ISDIR (mode (st i))"; cases "mode (st i) = m") auto
  have "mode (link_update i d d1 m st k) = (if k = i then m else mode (st k))"
    unfolding d using assms(2) by simp
  then show "S_ISDIR (mode (link_update i d d1 m st k)) = S_ISDIR (mode (st k))" using assms(3) by simp
  show "k \<noteq> i \<Longrightarrow> k \<noteq> d \<Longrightarrow> link_update i d d1 m st k = st k"
    unfolding d by (cases "S_ISDIR m"; cases "mode (st i) = m") simp_all
qed

lemma unlink_update_effect:
  assumes "d \<noteq> 0"
  shows "nlink (unlink_update i d dir st k) = nlink (st k) - link_delta dir i d k"
    "mode (unlink_update i d dir st k) = mode (st k)"
    "k \<noteq> i \<Longrightarrow> k \<noteq> d \<Longrightarrow> unlink_update i d dir st k = st k"
  using assms by (simp_all add: unlink_update_def Let_def link_delta_def)

lemma link_ok:
  assumes "iofunc_link ci None i d info st = (EOK, st1)"
  obtains d1 m where "st1 = link_update i d d1 m st" "nlink d1 = nlink (st d)" "mode d1 = mode (st d)" "S_ISDIR m = S_ISDIR (mode (st i))"
proof -
  let ?mp = "if mount (st i) = None then mount (st d) else mount (st i)"
  obtain s d1 m where c: "iofunc_create (st d) (mode (st i)) ?mp info = (s, d1, m)" by (metis prod_cases3)
  have nz: "i \<noteq> 0 \<and> d \<noteq> 0" using assms by (cases "i = 0 \<or> d = 0") (auto simp: iofunc_link_def EOK_def EBADFSYS_def)
  then have "(if s \<noteq> EOK then (s, st) else (EOK, link_update i d d1 m st)) = (EOK, st1)"
    using assms c by (simp add: iofunc_link_def link_allowed_def)
  then have "s = EOK" "st1 = link_update i d d1 m st" by (auto split: if_splits)
  then show thesis using that create_ok(1-3)[of "st d" "mode (st i)" ?mp info d1 m] c by simp
qed

lemma unlink_ok:
  assumes "iofunc_unlink ci None i d info st = (EOK, st1)"
  shows "st1 = unlink_update i d (S_ISDIR (mode (st i))) st"
  using assms by (auto simp: iofunc_unlink_def unlink_allowed_def Let_def EOK_def EBADFSYS_def EROFS_def split: if_splits)

lemma rename_move_failed:
  assumes "rename_move ci old oldd new newd info st0 st1 = (s, st')" "s \<noteq> EOK" "old \<noteq> new" "old \<noteq> newd"
    and same: "\<And>k. new = 0 \<or> k \<noteq> new \<and> k \<noteq> newd \<Longrightarrow> st1 k = st0 k"
  shows "st' = st0"
proof
  fix k
  obtain s2 st2 where l: "iofunc_link ci None old newd info st1 = (s2, st2)" by force
  obtain s3 st3 where u: "iofunc_unlink ci None old oldd info st2 = (s3, st3)" by force
  show "st' k = st0 k"
  proof (cases "s2 = EOK")
    case False
    then have "st2 = st1" using link_failed[OF l] by simp
    then show ?thesis using assms(1) False same l by (auto simp: rename_move_def Let_def split: if_splits)
  next
    case True
    then obtain d1 m where m: "st2 = link_update old newd d1 m st1" "nlink d1 = nlink (st1 newd)" "mode d1 = mode (st1 newd)" "S_ISDIR m = S_ISDIR (mode (st1 old))"
      using link_ok l by blast
    have keep: "k \<noteq> old \<Longrightarrow> k \<noteq> newd \<Longrightarrow> st2 k = st1 k" for k using link_update_effect(3)[OF m(2-4)] m(1) by blast
    have ne: "s3 \<noteq> EOK" using assms(1,2) True l u by (auto simp: rename_move_def Let_def split: if_splits)
    then have "st3 = st2" using unlink_failed[OF u] by blast
    then show ?thesis using assms(1,3,4) True ne same keep l u by (auto simp: rename_move_def Let_def split: if_splits)
  qed
qed

lemma rename_move_done:
  assumes "rename_move ci old oldd new newd info st0 st1 = (EOK, st')" "oldd \<noteq> 0"
  shows "nlink (st' k) = nlink (st1 k) + link_delta (S_ISDIR (mode (st1 old))) old newd k - link_delta (S_ISDIR (mode (st1 old))) old oldd k"
proof -
  obtain s2 st2 where l: "iofunc_link ci None old newd info st1 = (s2, st2)" by force
  obtain s3 st3 where u: "iofunc_unlink ci None old oldd info st2 = (s3, st3)" by force
  have ok: "s2 = EOK" "s3 = EOK" "st' = st3" using assms(1) l u by (auto simp: rename_move_def Let_def split: if_splits)
  obtain d1 m where m: "st2 = link_update old newd d1 m st1" "nlink d1 = nlink (st1 newd)" "mode d1 = mode (st1 newd)" "S_ISDIR m = S_ISDIR (mode (st1 old))"
    using link_ok l ok(1) by blast
  have "st3 = unlink_update old oldd (S_ISDIR (mode (st1 old))) st2"
    using unlink_ok[OF u[unfolded ok(2)]] link_update_effect(2)[OF m(2-4), of old] m(1) by simp
  then show ?thesis using unlink_update_effect(1)[OF assms(2)] link_update_effect(1)[OF m(2-4)] m(1) ok(3) by simp
qed

definition rename_delta :: "bool \<Rightarrow> nat \<Rightarrow> nat \<Rightarrow> nat \<Rightarrow> nat \<Rightarrow> nat \<Rightarrow> 32 word" where
  "rename_delta dir old oldd new newd k =
     link_delta dir old newd k - link_delta dir old oldd k - (if new = 0 then 0 else link_delta dir new newd k)"

lemma replace_fine: "replace_error msg a b = None \<Longrightarrow> S_ISDIR (mode b) = S_ISDIR (mode a)"
  by (auto simp: replace_error_def split: if_splits)

lemma link_client_error: "link_client ci fl info = Inl s \<Longrightarrow> ci \<noteq> Inl EOK \<Longrightarrow> s \<noteq> EOK"
  by (auto simp: link_client_def iofunc_client_info_def split: option.splits sum.splits)

text \<open>The branches of renaming: nothing happens, or the new entry is made with or without replacing one.\<close>

lemma rename_branches:
  assumes "iofunc_rename ci msg old oldd new newd info st = (s, st')" "ci \<noteq> Inl EOK"
  obtains (idle) "st' = st" "s \<noteq> EOK \<or> new = old"
    | (fresh) info1 where "oldd \<noteq> 0" "newd \<noteq> 0" "old \<noteq> 0" "old \<noteq> newd" "new = 0" "rename_move ci old oldd new newd info1 st st = (s, st')"
    | (replace) info1 st1 where "oldd \<noteq> 0" "newd \<noteq> 0" "old \<noteq> newd" "new \<noteq> 0" "new \<noteq> old" "S_ISDIR (mode (st new)) = S_ISDIR (mode (st old))"
        "iofunc_unlink ci None new newd info1 st = (EOK, st1)" "rename_move ci old oldd new newd info1 st st1 = (s, st')"
proof (cases "old = 0 \<or> oldd = 0 \<or> newd = 0 \<or> old = newd")
  case True
  then show thesis using idle assms(1) by (auto simp: iofunc_rename_def EBADFSYS_def EINVAL_def EOK_def split: if_splits)
next
  case False
  show thesis
  proof (cases "link_client ci (con_ioflag msg) info")
    case (Inl e)
    then show thesis using idle assms(1) link_client_error[OF Inl assms(2)] False by (simp add: iofunc_rename_def)
  next
    case (Inr info1)
    note r = assms(1)[unfolded iofunc_rename_def]
    obtain s1 st1 where u: "iofunc_unlink ci None new newd info1 st = (s1, st1)" by force
    consider "new = 0" | "new = old" | e where "new \<noteq> 0" "new \<noteq> old" "replace_error msg (st old) (st new) = Some e"
      | "new \<noteq> 0" "new \<noteq> old" "replace_error msg (st old) (st new) = None" by fastforce
    then show thesis
    proof cases
      case 1
      then show thesis using fresh False r Inr by simp
    next
      case 2
      then show thesis using idle False r Inr by simp
    next
      case 3
      have "e \<noteq> EOK" using 3(3) by (auto simp: replace_error_def EOK_def EISDIR_def EINVAL_def ENOTEMPTY_def ENOTDIR_def split: if_splits)
      then show thesis using idle False r Inr 3 by simp
    next
      case 4
      show thesis
      proof (cases "s1 = EOK")
        case True
        then show thesis using replace[of info1 st1] False r Inr 4 u replace_fine[OF 4(3)] by simp
      next
        case ne: False
        then show thesis using idle unlink_failed[OF u] False r Inr 4 u by simp
      qed
    qed
  qed
qed

lemma rename_result:
  assumes "iofunc_rename ci msg old oldd new newd info st = (s, st')" "ci \<noteq> Inl EOK"
  shows "if s = EOK \<and> new \<noteq> old then \<forall>k. nlink (st' k) = nlink (st k) + rename_delta (S_ISDIR (mode (st old))) old oldd new newd k
    else st' = st"
  using assms
proof (cases rule: rename_branches)
  case idle
  then show ?thesis by auto
next
  case (fresh info1)
  then show ?thesis using rename_move_done[of ci old oldd new newd info1 st st st'] rename_move_failed[OF fresh(6)] by (auto simp: rename_delta_def)
next
  case (replace info1 st1)
  have st1: "st1 = unlink_update new newd (S_ISDIR (mode (st old))) st" using unlink_ok[OF replace(7)] replace(6) by simp
  note u = unlink_update_effect[OF replace(2), where i = new and dir = "S_ISDIR (mode (st old))" and st = st, folded st1]
  have "s = EOK \<Longrightarrow> nlink (st' k) = nlink (st k) + rename_delta (S_ISDIR (mode (st old))) old oldd new newd k" for k
    using rename_move_done[of ci old oldd new newd info1 st st1 st' k] replace u(1)[of k] u(2)[of old] by (simp add: rename_delta_def)
  moreover have "s \<noteq> EOK \<Longrightarrow> st' = st" using rename_move_failed[OF replace(8)] replace u(3) by metis
  ultimately show ?thesis using replace(5) by simp
qed

lemma root_access: "euid c = 0 \<Longrightarrow> iofunc_check_access a check (Some c) = EOK"
  by (simp add: iofunc_check_access_def)

lemma root_create:
  assumes "S_ISDIR (mode d)" "mount d = None" "wlocks d = 0" "euid c = 0"
  shows "iofunc_create d m None (Some c) = (EOK, d\<lparr>flags := flags d OR time_flags\<rparr>, m)"
  using assms by (simp add: iofunc_create_def root_access readonly_def)

lemma root_unlink:
  assumes "i \<noteq> 0" "d \<noteq> 0" "S_ISDIR (mode (st i))" "S_ISDIR (mode (st d))" "mount (st i) = None" "mount (st d) = None"
    "\<not> nlink (st i) < 2" "nlink (st d) \<noteq> 0" "euid c = 0"
  shows "iofunc_unlink ci None i d (Some c) st = (EOK, unlink_update i d True st)"
  using assms by (simp add: iofunc_unlink_def unlink_allowed_def may_remove_def root_access readonly_def)

lemma root_link:
  assumes "i \<noteq> 0" "d \<noteq> 0" "S_ISDIR (mode (st d))" "mount (st i) = None" "mount (st d) = None" "wlocks (st d) = 0" "euid c = 0"
  shows "iofunc_link ci None i d (Some c) st = (EOK, link_update i d ((st d)\<lparr>flags := flags (st d) OR time_flags\<rparr>) (mode (st i)) st)"
  using assms by (simp add: iofunc_link_def link_allowed_def root_create)

lemma set_attr_mount [simp]:
  "mount (set_attr i (flags_update f) st k) = mount (st k)"
  "mount (set_attr i (mode_update g) st k) = mount (st k)"
  "mount (set_attr i (nlink_update h) st k) = mount (st k)"
  "mount (set_attr i (flags_update f \<circ> nlink_update h) st k) = mount (st k)"
  "wlocks (set_attr i (flags_update f) st k) = wlocks (st k)"
  "wlocks (set_attr i (nlink_update h) st k) = wlocks (st k)"
  "wlocks (set_attr i (flags_update f \<circ> nlink_update h) st k) = wlocks (st k)"
  by (simp_all add: set_attr_at)

lemma unlink_update_mount: "mount (unlink_update i d dir st k) = mount (st k)" "wlocks (unlink_update i d dir st k) = wlocks (st k)"
  by (simp_all add: unlink_update_def Let_def)

lemma link_update_mount: "mount d1 = mount (st d) \<Longrightarrow> mount (link_update i d d1 m st k) = mount (st k)"
  by (simp add: link_update_def Let_def)

lemma rename_directories:
  assumes "distinct [0, old, new, d]" "\<forall>k. mount (st k) = None" "S_ISDIR (mode (st old))" "S_ISDIR (mode (st new))" "S_ISDIR (mode (st d))"
    "wlocks (st d) = 0" "nlink (st old) = 2" "2 \<le> nlink (st new)" "nlink (st d) \<noteq> 0" "euid c = 0" "con_eflag msg AND EFLAG_DOT = 0"
  shows "fst (iofunc_rename ci msg old d new d (Some c) st) = EOK"
proof -
  let ?st1 = "unlink_update new d True st"
  let ?d1 = "(?st1 d)\<lparr>flags := flags (?st1 d) OR time_flags\<rparr>"
  let ?st2 = "link_update old d ?d1 (mode (?st1 old)) ?st1"
  have nz: "old \<noteq> 0" "new \<noteq> 0" "d \<noteq> 0" "old \<noteq> new" "old \<noteq> d" "new \<noteq> d" using assms(1) by auto
  note u = unlink_update_effect[OF nz(3), where i = new and dir = True and st = st]
  have u1: "iofunc_unlink ci None new d (Some c) st = (EOK, ?st1)"
    by (rule root_unlink) (use nz assms in \<open>simp_all add: linorder_not_less\<close>)
  have l: "iofunc_link ci None old d (Some c) ?st1 = (EOK, ?st2)"
    by (rule root_link) (use nz assms in \<open>simp_all add: u unlink_update_mount\<close>)
  have e: "nlink ?d1 = nlink (?st1 d)" "mode ?d1 = mode (?st1 d)" "S_ISDIR (mode (?st1 old)) = S_ISDIR (mode (?st1 old))" "mount ?d1 = mount (?st1 d)" by simp_all
  note k = link_update_effect[OF e(1-3)]
  have n: "nlink (?st2 old) = 4" "nlink (?st2 d) = nlink (st d)" unfolding k(1) unfolding u using nz assms by (simp_all add: link_delta_def)
  have m: "S_ISDIR (mode (?st2 k)) = S_ISDIR (mode (st k))" "mount (?st2 k) = mount (st k)" for k
    unfolding k(2) link_update_mount[where st = ?st1 and d = d, OF e(4)] unfolding u(2) unlink_update_mount(1) by (rule refl)+
  have u2: "iofunc_unlink ci None old d (Some c) ?st2 = (EOK, unlink_update old d True ?st2)"
    by (rule root_unlink) (unfold m n, use nz assms in simp_all)
  have "replace_error msg (st old) (st new) = None" using assms by (simp add: replace_error_def)
  then show ?thesis using nz u1 l u2 by (simp add: iofunc_rename_def link_client_def rename_move_def)
qed

end
