(* ===== verification/Iofunc_Props.thy ===== *)
theory Iofunc_Props
  imports Iofunc_Rename
begin

text \<open>
  The properties of the attribute functions: the permission check, changes by unprivileged clients,
  share modes, and renaming.
\<close>

text \<open>
  (C18) The permission check decides as POSIX says. The check succeeds exactly for root, for the owner
  or a group member where that alone suffices, and for a client whose class, the first of owner,
  group and others it belongs to, has every one of the requested read, write and execute bits. When
  it fails, the error is EACCES if such bits were requested and EPERM otherwise.
\<close>

theorem check_access_posix:
  "iofunc_check_access a check (Some c) =
     (if permits a c check then EOK else if check AND S_IRWXU = 0 then EPERM else EACCES)"
proof (cases "permits a c check")
  case True
  then show ?thesis using check_access_permits[of a check c] by simp
next
  case False
  then have "iofunc_check_access a check (Some c) \<noteq> EOK" using check_access_permits[of a check c] by simp
  then show ?thesis using False unfolding check_access_shift by (auto split: if_splits)
qed

text \<open>
  (C17) Files do not lend privileges after a change by an unprivileged client. When a client that is
  not root writes to an executable or changes its size, the set-user-id, set-group-id and sticky bits
  are gone; when it changes owner or group of one that is no directory, the set-id bits are gone; and
  where changing owners is restricted, only the owner succeeds, the owner stays, and the
  new group is one of the client's.
\<close>

theorem unprivileged_change_safe:
  assumes "euid (acting oc c) \<noteq> 0"
  shows "(iofunc_write_verify (Inr c) xtype xoff n oc a = Some (EOK, n1, nb, oc1, a1) \<and> n1 \<noteq> 0 \<and> mode a AND execs \<noteq> 0
      \<longrightarrow> mode a1 AND set_ids = 0)
    \<and> (iofunc_space_verify (Inr c) msg oc a = (EOK, nb, a1) \<and> mode a AND execs \<noteq> 0 \<longrightarrow> mode a1 AND set_ids = 0)
    \<and> (iofunc_chown (Inr c) u g oc a = (EOK, a1) \<and> mode a AND execs \<noteq> 0 \<and> \<not> S_ISDIR (mode a)
      \<longrightarrow> mode a1 AND (S_ISUID OR S_ISGID) = 0)
    \<and> (iofunc_chown (Inr c) u g oc a = (EOK, a1) \<and> chown_restricted a
      \<longrightarrow> euid (acting oc c) = uid a \<and> uid a1 = uid a \<and> (gid a1 = egid (acting oc c) \<or> gid a1 \<in> set (grouplist (acting oc c))))"
proof (intro conjI impI)
  assume "iofunc_write_verify (Inr c) xtype xoff n oc a = Some (EOK, n1, nb, oc1, a1) \<and> n1 \<noteq> 0 \<and> mode a AND execs \<noteq> 0"
  then show "mode a1 AND set_ids = 0" using write_verify_user assms by blast
next
  assume "iofunc_space_verify (Inr c) msg oc a = (EOK, nb, a1) \<and> mode a AND execs \<noteq> 0"
  then show "mode a1 AND set_ids = 0" using space_verify_user assms by blast
next
  assume h: "iofunc_chown (Inr c) u g oc a = (EOK, a1) \<and> mode a AND execs \<noteq> 0 \<and> \<not> S_ISDIR (mode a)"
  then obtain v k where "a1 = chown_change (acting oc c) v k a" using chown_done by blast
  then show "mode a1 AND (S_ISUID OR S_ISGID) = 0" using chown_change_user[OF assms] h by blast
next
  assume h: "iofunc_chown (Inr c) u g oc a = (EOK, a1) \<and> chown_restricted a"
  then obtain v k where v: "chown_status (acting oc c) v k a = EOK" "a1 = chown_change (acting oc c) v k a" using chown_done by blast
  note s = chown_status_user[OF v(1) assms conjunct2[OF h]]
  show "euid (acting oc c) = uid a" "uid a1 = uid a" "gid a1 = egid (acting oc c) \<or> gid a1 \<in> set (grouplist (acting oc c))"
    using s by (simp_all add: v(2) chown_change_ids)
qed

text \<open>A set-user-id program of user 100, and that user as a client.\<close>

definition program :: attr where
  "program = \<lparr>mount = None, flags = 0, use_count = 0, rcount = 0, wcount = 0, rlocks = 0, wlocks = 0, mmap_list = [],
     nbytes = 64, uid = 100, gid = 7, mtime = 0, atime = 0, ctime = 0, mode = 0x89ED, nlink = 1\<rparr>"

definition user :: client where
  "user = \<lparr>ruid = 100, euid = 100, rgid = 7, egid = 7, grouplist = [8]\<rparr>"

definition read_write :: ocb where
  "read_write = \<lparr>ioflag = 0x8003, offset = 0, sflag = 0, ocb_flags = 0\<rparr>"

lemmas mode_bits = S_ISDIR_def S_ISREG_def S_IFMT_def S_IFDIR_def S_IFREG_def set_ids_def execs_def S_ISUID_def S_ISGID_def S_ISVTX_def
  S_IXUSR_def S_IXGRP_def S_IXOTH_def S_IRWXU_def S_IREAD_def S_IWRITE_def

lemmas flag_bits = IO_FLAG_RD_def IO_FLAG_WR_def IO_FLAG_MASK_def O_REALIDS_def O_LARGEFILE_def O_APPEND_def O_NONBLOCK_def
  O_TRUNC_def O_CREAT_def O_EXCL_def O_SYNC_def O_DSYNC_def O_RSYNC_def XTYPE_MASK_def XTYPE_OFFSET_def SH_MASK_def SH_DENYRW_def SH_DENYRD_def SH_DENYWR_def

theorem unprivileged_change_witness:
  "\<exists>n nb oc a1 a3. iofunc_write_verify (Inr user) 0 0 10 read_write program = Some (EOK, n, nb, oc, a1) \<and> n = 10
     \<and> mode program AND set_ids \<noteq> 0 \<and> mode a1 AND set_ids = 0
     \<and> iofunc_chown (Inr user) (- 1) 8 read_write program = (EOK, a3) \<and> gid a3 = 8 \<and> uid a3 = uid program \<and> mode a3 AND (S_ISUID OR S_ISGID) = 0"
proof -
  have act: "acting read_write user = user" by (simp add: acting_def read_write_def flag_bits)
  have root: "iofunc_check_access program 0 (Some user) \<noteq> EOK" using check_access_root[of program user] by (simp add: user_def)
  have w: "\<exists>a1. iofunc_write_verify (Inr user) 0 0 10 read_write program = Some (EOK, 10, 0, read_write, a1)"
    using root by (simp add: iofunc_write_verify_def write_room_def knock_down_def iofunc_client_info_def iofunc_isnonblock_def IS32BIT_def readonly_def
        XFLAG_NONBLOCK_def XFLAG_BLOCK_def read_write_def program_def mode_bits flag_bits MOUNT_32BIT_def Let_def)
  then obtain a1 where a1: "iofunc_write_verify (Inr user) 0 0 10 read_write program = Some (EOK, 10, 0, read_write, a1)" by blast
  have "chown_status user 100 8 program = EOK" "uid program = 100"
    by (simp_all add: chown_status_def readonly_def program_def user_def Let_def)
  then obtain a3 where a3: "iofunc_chown (Inr user) (- 1) 8 read_write program = (EOK, a3)" "a3 = chown_change user 100 8 program"
    by (simp add: iofunc_chown_def client_info_acting act)
  have p: "mode program AND execs \<noteq> 0" "\<not> S_ISDIR (mode program)" "mode program AND set_ids \<noteq> 0" "chown_restricted program"
    by (simp_all add: program_def mode_bits chown_restricted_def)
  have e: "euid (acting read_write user) \<noteq> 0" unfolding act by (simp add: user_def)
  show ?thesis
    using unprivileged_change_safe[OF e, of 0 0 10 program 10 0 read_write a1] unprivileged_change_safe[OF e, of _ _ _ program _ _ _ a3 _ "- 1" 8] a1 a3(1) p
    by (intro exI[of _ 10] exI[of _ 0] exI[of _ read_write] exI[of _ a1] exI[of _ a3]) (auto simp: a3(2) chown_change_ids)
qed

text \<open>
  (C7) Share modes hold. Start with a file nobody has open, and open it in any way, by a creating
  open too while nobody has it open, duplicate descriptors, close them, change their flags, change
  mode and owner, with refusals in between, never with 65536 descriptors at once, the size of the
  counters, and without memory mappings. Then no descriptor reads or writes while another one
  denies it, and in every such state the counters are the numbers of open descriptors, readers,
  writers, and deniers of reading and writing.
\<close>

theorem share_modes_hold:
  assumes "share_step\<^sup>*\<^sup>* ([], a0) (os, a)" "idle a0"
  shows "(\<forall>i < length os. \<forall>j < length os. i \<noteq> j \<longrightarrow>
        \<not> (denies_read (sflag (os ! i)) \<and> reads (os ! j)) \<and> \<not> (denies_write (sflag (os ! i)) \<and> writes (os ! j)))
    \<and> use_count a = of_nat (length os) \<and> rcount a = of_nat (length (filter reads os)) \<and> wcount a = of_nat (length (filter writes os))
    \<and> rlocks a = of_nat (length (filter (\<lambda>oc. denies_read (sflag oc)) os))
    \<and> wlocks a = of_nat (length (filter (\<lambda>oc. denies_write (sflag oc)) os))"
proof -
  note r = share_reach[OF assms]
  have "compatible (os ! i) (os ! j)" if "i < length os" "j < length os" "i \<noteq> j" for i j
    using r that compatible_swap unfolding sorted_wrt_iff_nth_less fst_conv by (metis nat_neq_iff)
  then show ?thesis
    using r by (simp add: compatible_def counters_exact_def readers.exact_def writers.exact_def read_deniers.exact_def write_deniers.exact_def users.exact_def)
qed

definition open_request :: "16 word \<Rightarrow> connect" where
  "open_request sf = \<lparr>con_ioflag = 0x8001, con_mode = 0, con_sflag = sf, con_access = 1, con_eflag = 0\<rparr>"

lemma open_program:
  assumes "a = program \<or> a = count_open (new_ocb (open_request 0x20)) program"
  shows "iofunc_open 0 0 (open_request 0x20) (Some a) None (Some user) = Some (EOK, open_request 0x20, Some a, None)"
  using assms
  by (elim disjE) (simp_all add: iofunc_open_def open_existing_def share_conflict_def open_status_def needs_sync_def iofunc_check_access_def granted_flags_def
      denies_read_def denies_write_def IS32BIT_def count_open_def new_ocb_def open_request_def program_def user_def mode_bits flag_bits Let_def)

theorem share_modes_witness:
  "\<exists>os a. share_step\<^sup>*\<^sup>* ([], program) (os, a) \<and> length os = 2 \<and> denies_write (sflag (os ! 0)) \<and> \<not> writes (os ! 1) \<and> wlocks a = 2"
proof -
  let ?m = "open_request 0x20" let ?oc = "new_ocb ?m" let ?a1 = "count_open ?oc program" let ?a2 = "count_open ?oc ?a1"
  have t: "iofunc_ocb_attach None None False ?m b = (EOK, Some ?oc, count_open ?oc b)" for b :: attr
    by (simp add: iofunc_ocb_attach_def Let_def)
  have s1: "share_step ([], program) ([?oc], ?a1)"
    by (rule opened[OF open_program t]) simp_all
  have s2: "share_step ([?oc], ?a1) ([?oc, ?oc], ?a2)"
    by (rule opened[OF open_program t]) simp_all
  have r: "share_step\<^sup>*\<^sup>* ([], program) ([?oc, ?oc], ?a2)" by (rule converse_rtranclp_into_rtranclp[where r = share_step, OF s1 r_into_rtranclp[where r = share_step, OF s2]])
  have d: "idle program" "denies_write (sflag ?oc)" by (simp_all add: idle_def program_def new_ocb_def open_request_def denies_write_def flag_bits)
  have "\<not> writes ?oc \<and> wlocks ?a2 = 2" using share_modes_hold[OF r d(1)] d(2) by fastforce
  then show ?thesis using r d(2) by (intro exI[of _ "[?oc, ?oc]"] exI[of _ ?a2]) simp
qed

text \<open>
  (C8) Renaming happens as a whole or not at all. If it fails, or both names are the same file, no
  attribute has changed. If it succeeds, the link count of every file has changed by exactly what the
  new entry adds and the old and the replaced entry take away, a directory counting twice and once
  more for its parent, even where the files and directories involved coincide.
\<close>

theorem rename_all_or_nothing:
  assumes "iofunc_rename ci msg old oldd new newd info st = (status, st')" "ci \<noteq> Inl EOK"
  shows "if status = EOK \<and> new \<noteq> old
    then \<forall>k. nlink (st' k) = nlink (st k) + rename_delta (S_ISDIR (mode (st old))) old oldd new newd k
    else st' = st"
  by (rule rename_result[OF assms])

text \<open>
  (C36) Renaming a directory over another one looks at the wrong link count: the one renamed must
  be empty, the one replaced, which is lost, need not be. Here root renames within one directory.
\<close>

theorem rename_replaces_full_directory:
  assumes "distinct [0, old, new, d]" "\<forall>k. mount (st k) = None" "S_ISDIR (mode (st old))" "S_ISDIR (mode (st new))" "S_ISDIR (mode (st d))"
    "wlocks (st d) = 0" "2 \<le> nlink (st old)" "2 \<le> nlink (st new)" "nlink (st d) \<noteq> 0" "euid c = 0" "con_eflag msg AND EFLAG_DOT = 0"
  shows "fst (iofunc_rename ci msg old d new d (Some c) st) = (if 2 < nlink (st old) then ENOTEMPTY else EOK)"
proof (cases "2 < nlink (st old)")
  case True
  then have "replace_error msg (st old) (st new) = Some ENOTEMPTY" using assms by (simp add: replace_error_def)
  then show ?thesis using assms(1) True by (auto simp: iofunc_rename_def link_client_def)
next
  case False
  then have "nlink (st old) = 2" using assms(7) by (simp add: linorder_not_less)
  then show ?thesis using rename_directories[OF assms(1-6) _ assms(8-11)] False by simp
qed

definition directory :: "32 word \<Rightarrow> attr" where
  "directory n = program\<lparr>mode := 0x41ED, nlink := n\<rparr>"

definition tree :: files where
  "tree = (\<lambda>k. if k = 2 then directory 2 else if k = 3 then directory 5 else directory 4)"

definition move :: connect where
  "move = \<lparr>con_ioflag = 0, con_mode = 0, con_sflag = 0, con_access = 0, con_eflag = 0\<rparr>"

lemma tree_facts: "S_ISDIR (mode (tree k))" "mount (tree k) = None" "wlocks (tree k) = 0" "nlink (tree 2) = 2" "nlink (tree 3) = 5" "nlink (tree 4) = 4"
  by (simp_all add: tree_def directory_def program_def mode_bits)

theorem rename_replaces_full_witness:
  "2 < nlink (tree 3) \<and> fst (iofunc_rename (Inl 3) move 2 4 3 4 (Some (user\<lparr>euid := 0\<rparr>)) tree) = EOK"
  using rename_replaces_full_directory[of 2 3 4 tree "user\<lparr>euid := 0\<rparr>" move "Inl 3"] by (simp add: tree_facts move_def)

theorem rename_all_or_nothing_witness:
  "\<exists>st'. iofunc_rename (Inl 3) move 2 4 3 4 (Some (user\<lparr>euid := 0\<rparr>)) tree = (EOK, st') \<and> nlink (st' 2) = 2 \<and> nlink (st' 3) = 3 \<and> nlink (st' 4) = 3"
proof -
  have "fst (iofunc_rename (Inl 3) move 2 4 3 4 (Some (user\<lparr>euid := 0\<rparr>)) tree) = EOK"
    by (rule rename_directories) (simp_all add: tree_facts move_def)
  then obtain st' where r: "iofunc_rename (Inl 3) move 2 4 3 4 (Some (user\<lparr>euid := 0\<rparr>)) tree = (EOK, st')" by (metis prod.collapse)
  show ?thesis using rename_all_or_nothing[OF r] r by (simp add: tree_facts rename_delta_def link_delta_def EOK_def)
qed

end
