(* ===== verification/Spec2Isabelle.thy ===== *)
theory Spec2Isabelle
  imports Heap_Props Vector_Props Rsrc_Props Pril_Props Flock_Props Iofunc_Props
begin

text \<open>
  A verification library for QRV, a 64-bit port of the QNX Neutrino microkernel.

  The program. A kernel (\<open>src/kernel\<close>) is linked with the process manager (\<open>src/mgr\<close>); everything
  else, file systems and drivers included, are processes that answer messages with the help of the
  resource manager layer of the C library (\<open>src/userland/lib/c/iofunc\<close>). The nanokernel
  (\<open>src/kernel/nano\<close>) has the data structures the kernel is built on: its heap serves the tables of
  objects, the priority lists order waiting threads and pulses. The resource database of the process
  manager gives ranges of interrupts, memory and device numbers to processes. In the library, the
  attributes of a file decide who may open, change and rename it, and the record locks who may use
  which bytes of it.

  Conventions (\<open>Prelude\<close>). Functions of the source are functions on explicit states. \<open>None\<close> stands
  for leaving defined behaviour: a load or store outside the objects, a NULL pointer, a call of
  \<open>crash\<close>, a signed overflow, or a loop that does not end. Errors the source returns are values.
  Integers are words, or numbers with the wrap-around written out, wherever the width can matter.
  What comes from code outside the modelled files, such as the pages the memory manager hands out, the
  outcome of an allocation or the credentials of a client, is an argument.

  \<^bold>\<open>The nanokernel heap\<close>, \<open>kernel/nano/nano_alloc.c\<close>.
  \<^descr> \<open>Heap\<close>: the three free lists as lists of address and size, with one function per part of
    \<open>_sreallocfunc\<close> (\<open>scan\<close>, \<open>free_insert\<close>, \<open>join_next\<close>, \<open>find_fit\<close>, the passes, \<open>addmem\<close>) and the
    entry points \<open>srealloc\<close>, \<open>sfree\<close>, \<open>smalloc\<close>, \<open>scalloc\<close>, \<open>malloc\<close>, \<open>free\<close>, \<open>heap_init\<close>.
  \<^descr> \<open>Alloc_Spec\<close>: the contract of a sized allocator, the locale \<open>sized_allocator\<close>.
  \<^descr> \<open>Heap_Lists\<close>, \<open>Heap_Proofs\<close>: well-formed lists and the addresses they cover; the heap invariant,
    the contracts of the entry points, and the interpretation \<open>nano\<close> of the contract.
  \<^descr> \<open>Heap_Props\<close>: every reallocation returns, keeps contents and other blocks; failure only when
    memory is exhausted; double frees are detected; \<open>malloc\<close> and \<open>free\<close> restore the memory in use.

  \<^bold>\<open>Object vectors\<close>, \<open>kernel/nano/nano_vector.c\<close>.
  \<^descr> \<open>Vector\<close>: tables of tagged pointers whose free slots are linked through the slots.
  \<^descr> \<open>Vector_Proofs\<close>, \<open>Vector_Props\<close>: the free list is the ascending list of free slots before and
    after each operation; what insertion, removal, search and flags do. The tables allocate through
    the contract of the heap. A table that grows while slots are free moves their links with 32-bit
    arithmetic: the results on insertion ask for a new block with these slots in the 4 GiB windows
    they had (\<open>same_window\<close>, a condition on the addresses), and another result is about the others.

  \<^bold>\<open>The resource database\<close>, \<open>mgr/rsrcdb/rsrcdbmgr_list.c\<close>.
  \<^descr> \<open>Rsrc\<close>: names, roots, lists of created ranges and of blocks with owners, the search, and the
    requests create, destroy, attach, detach and query.
  \<^descr> \<open>Range_Spec\<close>: a book of ranges, the locale \<open>range_book\<close>, interpreted as \<open>rb\<close> in \<open>Rsrc_Ranges\<close>.
  \<^descr> \<open>Rsrc_Blocks\<close>, \<open>Rsrc_Ranges\<close>, \<open>Rsrc_Search\<close>, \<open>Rsrc_Db\<close>: who holds which number, and how each
    operation changes it; completeness of the search.
  \<^descr> \<open>Rsrc_Props\<close>: a range is granted to one process at a time, the lists refine the book, and
    how creating a range again while it is attached gives it to two processes.

  \<^bold>\<open>Priority lists and pulse queues\<close>, the pril functions of \<open>kernel/nano/nano_misc.c\<close> and
  \<open>kernel/nano/nano_pulse.c\<close>.
  \<^descr> \<open>Pril\<close>: entries in a store of records, with the levels, marks and registered positions.
  \<^descr> \<open>Prio_Spec\<close>: a stable priority queue, the locale \<open>prio_queue\<close>, interpreted as \<open>pril\<close> in \<open>Pril_Ops\<close>.
  \<^descr> \<open>Pril_Levels\<close>, \<open>Pril_Lists\<close>, \<open>Pril_Ops\<close>, \<open>Pulse_Proofs\<close>: the shape of a list and how insertion,
    removal and the searches act on it.
  \<^descr> \<open>Pril_Props\<close>: insertion and removal refine the queue, the debug checks pass, pulses are counted
    exactly, and two faults with registered positions, in general form.

  \<^bold>\<open>Attributes of files\<close>, \<open>userland/lib/c/iofunc\<close>.
  \<^descr> \<open>Iofunc\<close>: the records of mounts, attributes, open control blocks and clients; the permission
    check, changes of mode, owner and times, seeking, and the verification of reads and writes.
  \<^descr> \<open>Iofunc_Open\<close>: creating, opening, attaching and detaching control blocks, device control.
  \<^descr> \<open>Iofunc_Link\<close>: links and renaming on a map from file numbers to attributes.
  \<^descr> \<open>Iofunc_Access\<close>, \<open>Iofunc_Share\<close>, \<open>Iofunc_Rename\<close>: the POSIX decision; the locale \<open>tracked\<close> of
    counters and what they count, interpreted for the five counters of a file; the effect of links on
    every file.
  \<^descr> \<open>Iofunc_Props\<close>: the check is the decision, unprivileged changes leave no set-id bits, share modes
    hold over all sequences of operations, renaming is all or nothing and tests the wrong directory.

  \<^bold>\<open>Record locks\<close>, \<open>_iofunc_lock.c\<close>, \<open>iofunc_lock.c\<close> and \<open>iofunc_unblock.c\<close> there.
  \<^descr> \<open>Flock\<close>: the list of locks of a file with the requests that wait for each, the splitting and
    joining of locks, the mutual recursion of locking and looking at waiting requests again, and the
    handler of \<open>fcntl\<close>.
  \<^descr> \<open>Flock_Step\<close>, \<open>Flock_Inv\<close>, \<open>Flock_Proofs\<close>: what one step covers; the locale \<open>lock_invariant\<close> of
    invariants of the recursion, interpreted for exclusion (\<open>excl\<close>) and for the conservation of
    clients (\<open>cons\<close>); the exact effect of locking and unlocking.
  \<^descr> \<open>Flock_Props\<close>: conflicting locks never coexist; what a request changes at every byte, and when
    that is exactly what it asks for; waiting clients are answered once, the recursion ends, and a lock
    that is lost.

  Bounds and fuel. \<open>addmem\<close> jumps back at most twice, its fuel is 3 and \<open>srealloc_contract\<close> shows that
  it never runs out. The search for a range takes its fuel as an argument; \<open>find_range_complete\<close> shows
  that one pass per number of the window is enough. The recursion of locking has the depth of the
  number of waiting requests plus one, and \<open>iofunc_lock_set_returns\<close> shows that this is enough. The
  walks of priority lists are \<open>partial_function (option)\<close>, and the results on them state that they
  return. The share modes are shown for less than 65536 open descriptors, the size of the counters.

  Not modelled. The mutexes around the heap and the lists of locks: an operation is one step. The
  wrappers of the heap that only switch privilege. In the resource database the cleanup after a dying
  process, which edits the list it walks, the messages and the minor numbers. \<open>pulse_deliver\<close>, which
  wakes threads. In the library \<open>iofunc_stat\<close>, \<open>iofunc_fdinfo\<close> and \<open>iofunc_pathconf\<close>, which copy fields,
  notification, memory mapping, which also counts as an open descriptor and so is outside the result on
  share modes, and \<open>iofunc_close_dup\<close>, which keeps a pointer into a list across calls that rearrange
  it. Scheduling, message passing, timers, signals, interrupts, tracing and the memory manager work on
  state that interrupts, other processors and assembly change at the same time; architecture code and
  drivers work on hardware; the rest of the C library, the utilities and the ports are programs above
  this layer.
\<close>

end
